theory Spec2Isabelle
  imports Main "HOL-Library.Word"
begin

section \<open>Messages, the connection and the progress dialog\<close>

type_synonym byte = "8 word"

text \<open>
  Modelled from the spec: \<^verbatim>\<open>msg_structs.h\<close> is not among the sources, so the numeric
  values of the message ids are unknown. The ids the spec lists as relevant are
  distinct constructors; every other id is \<open>MSG_ID_OTHER n\<close>.
\<close>

datatype msg_id =
    MSG_ID_BOOT_ENTER
  | MSG_ID_BOOT_RESPONSE
  | MSG_ID_BOOT_EXIT
  | MSG_ID_BOOT_ERASE_SECTOR
  | MSG_ID_BOOT_WRITE_DATA
  | MSG_ID_BOOT_VERIFY
  | MSG_ID_SHELL_FROM_PC
  | MSG_ID_OTHER nat

text \<open>
  A received \<^verbatim>\<open>msg_generic\<close>: the header id and the payload buffer. The buffer is a
  fixed-size array of the struct, so every index the code reads (\<^verbatim>\<open>data[0]\<close>, the
  first four bytes) holds some byte; it is a total function from index to byte.
\<close>

record msg =
  h_id :: msg_id
  data :: "nat \<Rightarrow> byte"

text \<open>
  The typed messages \<^verbatim>\<open>BootProtocol\<close> hands to \<^verbatim>\<open>connection.sendMessage\<close>. The
  constructor stands for \<^verbatim>\<open>h.id\<close>; \<^verbatim>\<open>h.data_len\<close> is determined by the fields
  (\<open>msg_data_len\<close>).
\<close>

datatype request =
    Msg_shell_from_pc string
  | Msg_boot_enter "32 word"
  | Msg_boot_exit
  | Msg_boot_erase_sector "32 word"
  | Msg_boot_write_data "32 word" "byte list"
  | Msg_boot_verify "32 word" "32 word"

fun msg_data_len :: "request \<Rightarrow> nat" where
  "msg_data_len (Msg_shell_from_pc s) = length s"
| "msg_data_len (Msg_boot_enter magic) = 4"
| "msg_data_len Msg_boot_exit = 0"
| "msg_data_len (Msg_boot_erase_sector sector) = 4"
| "msg_data_len (Msg_boot_write_data address d) = 4 + length d"
| "msg_data_len (Msg_boot_verify address len) = 4 + 4"

text \<open>
  What the engine does to the outside, in program order: a message handed to the
  connection, a message taken off \<^verbatim>\<open>messageQueue\<close> and returned as the response, a
  message taken off the queue and thrown away, and a call of
  \<^verbatim>\<open>progressDialog.wasCanceled()\<close> with its answer.
\<close>

datatype event =
    Sent request
  | Got msg
  | Dropped msg
  | CancelPoll bool

text \<open>
  The object state of \<^verbatim>\<open>BootProtocol\<close> together with its surroundings.
  \<open>pending\<close> is the environment: the \<open>k\<close>-th call of
  \<^verbatim>\<open>QApplication::processEvents()\<close> delivers the \<open>k\<close>-th entry, the messages the
  connection signals (each enqueued by \<^verbatim>\<open>connection_messageReceived\<close>) and whether
  the user pressed Cancel; after the last entry nothing arrives any more.
\<close>

record state =
  messageQueue :: "msg list"
  m_errorString :: string
  progress_value :: int
  progress_label :: string
  wasCanceled :: bool
  pending :: "(msg list \<times> bool) list"
  trace :: "event list"

text \<open>
  Constants and functions of headers that are not among the sources, taken as
  parameters: the default of \<^verbatim>\<open>bootGetResponse\<close>'s \<^verbatim>\<open>timeout\<close> argument
  (\<^verbatim>\<open>BootProtocol.h\<close>), \<^verbatim>\<open>sizeof(msg_boot_write_data::data)\<close> (\<^verbatim>\<open>msg_structs.h\<close>) and
  the three CRC-32 functions (\<^verbatim>\<open>crc32.h\<close>).
\<close>

record config =
  default_timeout :: int
  chunk_size :: nat
  crc32_init :: "32 word"
  crc32_update :: "32 word \<Rightarrow> byte list \<Rightarrow> 32 word"
  crc32_finalize :: "32 word \<Rightarrow> 32 word"

subsection \<open>printf conversions\<close>

definition digit_char :: "nat \<Rightarrow> char" where
  "digit_char n = (''0123456789abcdef'' ! n)"

function dec_str :: "nat \<Rightarrow> string" where
  "dec_str n = (if n < 10 then [digit_char n] else dec_str (n div 10) @ [digit_char (n mod 10)])"
  by pat_completeness auto
termination
  by (relation "measure id") auto

function hex_str :: "nat \<Rightarrow> string" where
  "hex_str n = (if n < 16 then [digit_char n] else hex_str (n div 16) @ [digit_char (n mod 16)])"
  by pat_completeness auto
termination
  by (relation "measure id") auto

text \<open>\<^verbatim>\<open>%d\<close> of an \<^verbatim>\<open>int\<close>.\<close>

definition fmt_d :: "int \<Rightarrow> string" where
  "fmt_d i = (if i < 0 then CHR ''-'' # dec_str (nat (- i)) else dec_str (nat i))"

text \<open>\<^verbatim>\<open>%0wx\<close> of an unsigned value: lower-case hex, zero-padded to at least \<open>w\<close> digits.\<close>

definition fmt_x :: "nat \<Rightarrow> nat \<Rightarrow> string" where
  "fmt_x w n = replicate (w - length (hex_str n)) CHR ''0'' @ hex_str n"

subsection \<open>The FLASH status codes\<close>

definition FLASH_BUSY :: byte where "FLASH_BUSY = 1"
definition FLASH_ERROR_RD :: byte where "FLASH_ERROR_RD = 2"
definition FLASH_ERROR_PGS :: byte where "FLASH_ERROR_PGS = 3"
definition FLASH_ERROR_PGP :: byte where "FLASH_ERROR_PGP = 4"
definition FLASH_ERROR_PGA :: byte where "FLASH_ERROR_PGA = 5"
definition FLASH_ERROR_WRP :: byte where "FLASH_ERROR_WRP = 6"
definition FLASH_ERROR_PROGRAM :: byte where "FLASH_ERROR_PROGRAM = 7"
definition FLASH_ERROR_OPERATION :: byte where "FLASH_ERROR_OPERATION = 8"
definition FLASH_COMPLETE :: byte where "FLASH_COMPLETE = 9"

definition flashStatusStr :: "byte \<Rightarrow> string" where
  "flashStatusStr status =
     (if status = FLASH_BUSY then ''FLASH_BUSY''
      else if status = FLASH_ERROR_RD then ''FLASH_ERROR_RD''
      else if status = FLASH_ERROR_PGS then ''FLASH_ERROR_PGS''
      else if status = FLASH_ERROR_PGP then ''FLASH_ERROR_PGP''
      else if status = FLASH_ERROR_PGA then ''FLASH_ERROR_PGA''
      else if status = FLASH_ERROR_WRP then ''FLASH_ERROR_WRP''
      else if status = FLASH_ERROR_PROGRAM then ''FLASH_ERROR_PROGRAM''
      else if status = FLASH_ERROR_OPERATION then ''FLASH_ERROR_OPERATION''
      else if status = FLASH_COMPLETE then ''FLASH_COMPLETE''
      else fmt_d (uint status))"

subsection \<open>Progress dialog and event loop\<close>

definition showProgress :: "int \<Rightarrow> string \<Rightarrow> state \<Rightarrow> state" where
  "showProgress v text s = s\<lparr>progress_value := v, progress_label := text\<rparr>"

text \<open>\<^verbatim>\<open>progressDialog.reset()\<close> clears the cancellation flag.\<close>

definition progressDialog_reset :: "state \<Rightarrow> state" where
  "progressDialog_reset s = s\<lparr>wasCanceled := False\<rparr>"

text \<open>\<^verbatim>\<open>progressDialog.wasCanceled()\<close>: the flag is read, the call is recorded.\<close>

definition progressDialog_wasCanceled :: "state \<Rightarrow> bool \<times> state" where
  "progressDialog_wasCanceled s =
     (wasCanceled s, s\<lparr>trace := trace s @ [CancelPoll (wasCanceled s)]\<rparr>)"

text \<open>
  \<^verbatim>\<open>QApplication::processEvents()\<close>: the next entry of the environment is
  delivered. Each message is appended to the queue (\<^verbatim>\<open>messageQueue.enqueue\<close>); a
  press of Cancel sets the dialog's flag, which stays set.
\<close>

definition processEvents :: "state \<Rightarrow> state" where
  "processEvents s =
     (case pending s of
        [] \<Rightarrow> s
      | (ms, c) # rest \<Rightarrow>
          s\<lparr>messageQueue := messageQueue s @ ms,
            wasCanceled := (wasCanceled s \<or> c),
            pending := rest\<rparr>)"

definition sendMessage :: "request \<Rightarrow> state \<Rightarrow> state" where
  "sendMessage r s = s\<lparr>trace := trace s @ [Sent r]\<rparr>"

section \<open>Low level functions\<close>

text \<open>
  The inner loop of \<^verbatim>\<open>bootGetResponse\<close>: dequeue until the queue is empty or a
  \<^verbatim>\<open>MSG_ID_BOOT_RESPONSE\<close> message has been taken off.
\<close>

function dequeue_loop :: "state \<Rightarrow> msg option \<times> state" where
  "dequeue_loop s =
     (case messageQueue s of
        [] \<Rightarrow> (None, s)
      | m # q \<Rightarrow>
          if h_id m = MSG_ID_BOOT_RESPONSE
          then (Some m, s\<lparr>messageQueue := q, trace := trace s @ [Got m]\<rparr>)
          else dequeue_loop (s\<lparr>messageQueue := q, trace := trace s @ [Dropped m]\<rparr>))"
  by pat_completeness auto
termination
  by (relation "measure (\<lambda>s. length (messageQueue s))") auto

text \<open>
  \<^verbatim>\<open>bootGetResponse(response, timeout)\<close>: \<open>Some m\<close> is \<^verbatim>\<open>true\<close> with
  \<^verbatim>\<open>*response = m\<close>, \<open>None\<close> is \<^verbatim>\<open>false\<close>. \<^verbatim>\<open>QThread::msleep(10)\<close> changes nothing
  the model holds.
\<close>

function bootGetResponse :: "state \<Rightarrow> int \<Rightarrow> msg option \<times> state" where
  "bootGetResponse s timeout =
     (if timeout > 0 then
        (case dequeue_loop s of
           (Some m, s1) \<Rightarrow> (Some m, s1)
         | (None, s1) \<Rightarrow> bootGetResponse (processEvents s1) (timeout - 10))
      else (None, s\<lparr>m_errorString := ''Time out''\<rparr>))"
  by pat_completeness auto
termination
  by (relation "measure (\<lambda>(s, timeout). nat timeout)") auto

text \<open>\<^verbatim>\<open>bootResetHack\<close>: the string is ctrl-c, newline, \<^verbatim>\<open>reset\<close>, newline.\<close>

definition bootResetHack :: "state \<Rightarrow> bool \<times> state" where
  "bootResetHack s =
     (True, sendMessage (Msg_shell_from_pc (CHR 0x03 # CHR 0x0A # ''reset'' @ [CHR 0x0A])) s)"

definition bootEnter :: "config \<Rightarrow> state \<Rightarrow> bool \<times> state" where
  "bootEnter cfg s =
     (let s1 = snd (bootResetHack s);
          s2 = sendMessage (Msg_boot_enter 0xB00710AD) s1
      in case bootGetResponse s2 (default_timeout cfg) of
           (None, s3) \<Rightarrow> (False, s3)
         | (Some res, s3) \<Rightarrow>
             if data res 0 \<noteq> 1
             then (False, s3\<lparr>m_errorString :=
                     ''Can't enter bootloader: '' @ fmt_d (uint (data res 0))\<rparr>)
             else (True, s3))"

definition bootExit :: "config \<Rightarrow> state \<Rightarrow> bool \<times> state" where
  "bootExit cfg s =
     (let s1 = sendMessage Msg_boot_exit s
      in case bootGetResponse s1 (default_timeout cfg) of
           (None, s2) \<Rightarrow> (False, s2)
         | (Some res, s2) \<Rightarrow>
             if data res 0 \<noteq> 1
             then (False, s2\<lparr>m_errorString :=
                     ''Can't exit bootloader: '' @ fmt_d (uint (data res 0))\<rparr>)
             else (True, s2))"

text \<open>\<^verbatim>\<open>sector\<close> is a \<^verbatim>\<open>uint\<close> that \<^verbatim>\<open>%d\<close> prints as an \<^verbatim>\<open>int\<close>.\<close>

definition bootEraseSector :: "config \<Rightarrow> 32 word \<Rightarrow> state \<Rightarrow> bool \<times> state" where
  "bootEraseSector cfg sector s =
     (let s1 = sendMessage (Msg_boot_erase_sector sector) s
      in case bootGetResponse s1 2000 of
           (None, s2) \<Rightarrow> (False, s2)
         | (Some res, s2) \<Rightarrow>
             if data res 0 \<noteq> FLASH_COMPLETE
             then (False, s2\<lparr>m_errorString :=
                     ''Can't erase sector '' @ fmt_d (sint sector) @ '': ''
                       @ flashStatusStr (data res 0)\<rparr>)
             else (True, s2))"

definition bootWriteDataAsync :: "32 word \<Rightarrow> byte list \<Rightarrow> state \<Rightarrow> bool \<times> state" where
  "bootWriteDataAsync addr d s = (True, sendMessage (Msg_boot_write_data addr d) s)"

text \<open>
  A block of a function body either makes the function return a value or lets it go
  on with the next statement.
\<close>

datatype flow = Return bool | Proceed

text \<open>
  \<^verbatim>\<open>offset * 100 / data.length()\<close> in \<^verbatim>\<open>int\<close>: the product wraps around in 32 bits, the
  quotient is truncated toward zero.
\<close>

definition progress_percent :: "nat \<Rightarrow> nat \<Rightarrow> int" where
  "progress_percent offset len =
     (let x = sint (word_of_nat (offset * 100) :: 32 word)
      in if 0 \<le> x then x div int len else - ((- x) div int len))"

text \<open>
  The first block of the body of \<^verbatim>\<open>bootWriteData\<close>'s \<^verbatim>\<open>for\<close> loop, \<^verbatim>\<open>if (i < chunks)\<close>:
  it yields the new \<^verbatim>\<open>offset\<close>. \<^verbatim>\<open>data.mid(offset, chunk_size)\<close> is
  \<open>take chunk_size (drop offset d)\<close>; \<^verbatim>\<open>addr + offset\<close> is unsigned 32-bit arithmetic.
\<close>

definition write_send ::
  "config \<Rightarrow> 32 word \<Rightarrow> byte list \<Rightarrow> nat \<Rightarrow> nat \<Rightarrow> nat \<Rightarrow> state \<Rightarrow> flow \<times> nat \<times> state" where
  "write_send cfg addr d chunks i offset s =
     (if i < chunks then
        (let sp = showProgress (progress_percent offset (length d))
                    (''Writing 0x'' @ fmt_x 8 (unat (addr + of_nat offset))) s;
             sa = snd (bootWriteDataAsync (addr + of_nat offset)
                    (take (chunk_size cfg) (drop offset d)) sp);
             (c, sc) = progressDialog_wasCanceled sa
         in (if c then Return True else Proceed, offset + chunk_size cfg, sc))
      else (Proceed, offset, s))"

text \<open>The second block, \<^verbatim>\<open>if (i >= ack_window)\<close>.\<close>

definition write_ack :: "config \<Rightarrow> 32 word \<Rightarrow> nat \<Rightarrow> nat \<Rightarrow> state \<Rightarrow> flow \<times> state" where
  "write_ack cfg addr ack_window i s =
     (if i \<ge> ack_window then
        (case bootGetResponse s (default_timeout cfg) of
           (None, s1) \<Rightarrow> (Return False, s1)
         | (Some res, s1) \<Rightarrow>
             if data res 0 \<noteq> FLASH_COMPLETE
             then (Return False, s1\<lparr>m_errorString :=
                     ''Can't write data at 0x'' @ fmt_x 8 (unat addr) @ '': ''
                       @ flashStatusStr (data res 0)\<rparr>)
             else (Proceed, s1))
      else (Proceed, s))"

text \<open>The \<^verbatim>\<open>for\<close> loop of \<^verbatim>\<open>bootWriteData\<close>, from loop counter \<open>i\<close> on.\<close>

function bootWriteData_loop ::
  "config \<Rightarrow> 32 word \<Rightarrow> byte list \<Rightarrow> nat \<Rightarrow> nat \<Rightarrow> nat \<Rightarrow> nat \<Rightarrow> state \<Rightarrow> bool \<times> state" where
  "bootWriteData_loop cfg addr d chunks ack_window i offset s =
     (if i < chunks + ack_window then
        (case write_send cfg addr d chunks i offset s of
           (Return b, offset1, s1) \<Rightarrow> (b, s1)
         | (Proceed, offset1, s1) \<Rightarrow>
             (case write_ack cfg addr ack_window i s1 of
                (Return b, s2) \<Rightarrow> (b, s2)
              | (Proceed, s2) \<Rightarrow>
                  bootWriteData_loop cfg addr d chunks ack_window (i + 1) offset1 s2))
      else (True, s))"
  by pat_completeness auto
termination
  by (relation "measure (\<lambda>(cfg, addr, d, chunks, ack_window, i, offset, s). chunks + ack_window - i)")
    auto

definition bootWriteData :: "config \<Rightarrow> 32 word \<Rightarrow> byte list \<Rightarrow> state \<Rightarrow> bool \<times> state" where
  "bootWriteData cfg addr d s =
     (let chunks = (length d + chunk_size cfg - 1) div chunk_size cfg;
          ack_window = min chunks 10
      in bootWriteData_loop cfg addr d chunks ack_window 0 0 s)"

text \<open>
  \<^verbatim>\<open>*(uint*)res.data\<close> on the little-endian host the tool runs on: the first four
  payload bytes, least significant first.
\<close>

definition remote_crc_of :: "msg \<Rightarrow> 32 word" where
  "remote_crc_of res =
     of_nat (unat (data res 0) + 256 * unat (data res 1)
               + 65536 * unat (data res 2) + 16777216 * unat (data res 3))"

definition local_crc_of :: "config \<Rightarrow> byte list \<Rightarrow> 32 word" where
  "local_crc_of cfg d = crc32_finalize cfg (crc32_update cfg (crc32_init cfg) d)"

definition bootVerifyData :: "config \<Rightarrow> 32 word \<Rightarrow> byte list \<Rightarrow> state \<Rightarrow> bool \<times> state" where
  "bootVerifyData cfg addr d s =
     (let s1 = sendMessage (Msg_boot_verify addr (of_nat (length d))) s
      in case bootGetResponse s1 (default_timeout cfg) of
           (None, s2) \<Rightarrow> (False, s2)
         | (Some res, s2) \<Rightarrow>
             (let remote_crc = remote_crc_of res;
                  local_crc = local_crc_of cfg d
              in if remote_crc \<noteq> local_crc
                 then (False, s2\<lparr>m_errorString :=
                         ''Image CRC check failed. Expected 0x'' @ fmt_x 4 (unat local_crc)
                           @ '', got 0x'' @ fmt_x 4 (unat remote_crc)\<rparr>)
                 else (True, s2)))"

section \<open>Firmware update functions\<close>

text \<open>The \<^verbatim>\<open>STEP\<close> macro, applied to the value of its argument.\<close>

definition STEP :: "bool \<times> state \<Rightarrow> flow \<times> state" where
  "STEP r =
     (case r of (ok, s) \<Rightarrow>
        if \<not> ok then (Return False, s)
        else (case progressDialog_wasCanceled s of (c, s1) \<Rightarrow>
                if c then (Return True, s1) else (Proceed, s1)))"

text \<open>What follows a \<^verbatim>\<open>STEP\<close>: the rest of the function body runs only on \<open>Proceed\<close>.\<close>

definition and_then :: "flow \<times> state \<Rightarrow> (state \<Rightarrow> bool \<times> state) \<Rightarrow> bool \<times> state" where
  "and_then r k = (case r of (Return b, s) \<Rightarrow> (b, s) | (Proceed, s) \<Rightarrow> k s)"

text \<open>
  \<^verbatim>\<open>while (tries++ < 100 && !ok)\<close>: the step is \<^verbatim>\<open>(ok=bootEnter(), true)\<close>, so a failed
  attempt never returns from the macro. The result carries \<^verbatim>\<open>ok\<close> as the loop left it.
\<close>

function enter_loop :: "config \<Rightarrow> nat \<Rightarrow> bool \<Rightarrow> state \<Rightarrow> flow \<times> bool \<times> state" where
  "enter_loop cfg tries ok s =
     (if tries < 100 \<and> \<not> ok then
        (let tries1 = tries + 1;
             s1 = showProgress (int tries1) ''Entering bootloader'' s;
             (ok1, s2) = bootEnter cfg s1
         in case STEP (True, s2) of
              (Return b, s3) \<Rightarrow> (Return b, ok1, s3)
            | (Proceed, s3) \<Rightarrow> enter_loop cfg tries1 ok1 s3)
      else (Proceed, ok, s))"
  by pat_completeness auto
termination
  by (relation "measure (\<lambda>(cfg, tries, ok, s). 100 - tries)") auto

text \<open>\<^verbatim>\<open>for (int i=4; i<12; i++)\<close> over the sectors to erase.\<close>

function erase_loop :: "config \<Rightarrow> int \<Rightarrow> state \<Rightarrow> flow \<times> state" where
  "erase_loop cfg i s =
     (if i < 12 then
        (let s1 = showProgress (10 + 10 * (i - 4) div (12 - 4))
                    (''Erasing sector '' @ fmt_d i @ ''...'') s
         in case STEP (bootEraseSector cfg (of_int i) s1) of
              (Return b, s2) \<Rightarrow> (Return b, s2)
            | (Proceed, s2) \<Rightarrow> erase_loop cfg (i + 1) s2)
      else (Proceed, s))"
  by pat_completeness auto
termination
  by (relation "measure (\<lambda>(cfg, i, s). nat (12 - i))") auto

text \<open>
  \<^verbatim>\<open>IntelHexFile\<close> is not among the sources. \<^verbatim>\<open>loadHex\<close> either fails with an error
  string or yields the sections; \<^verbatim>\<open>sendHexFile\<close> reads \<^verbatim>\<open>sections[0]\<close> unguarded, so
  a loaded file has a first section.
\<close>

record hex_section =
  offset :: "32 word"
  sdata :: "byte list"

datatype IntelHexFile = LoadFailed string | Loaded hex_section "hex_section list"

text \<open>The part of \<^verbatim>\<open>sendHexFile\<close> after the sectors are erased.\<close>

definition write_verify_exit :: "config \<Rightarrow> 32 word \<Rightarrow> byte list \<Rightarrow> state \<Rightarrow> bool \<times> state" where
  "write_verify_exit cfg start_addr d s =
     and_then (STEP (bootWriteData cfg (start_addr + 8) (drop 8 d) s)) (\<lambda>s.
     and_then (STEP (bootVerifyData cfg (start_addr + 8) (drop 8 d)
                       (showProgress 85 ''Verifying'' s))) (\<lambda>s.
     and_then (STEP (bootWriteData cfg start_addr (take 8 d)
                       (showProgress 90 ''Writing first 8 bytes'' s))) (\<lambda>s.
     and_then (STEP (bootExit cfg (showProgress 95 ''Starting application'' s))) (\<lambda>s.
     (True, showProgress 100 ''Done.'' s)))))"

definition sendHexFile :: "config \<Rightarrow> string \<Rightarrow> IntelHexFile \<Rightarrow> state \<Rightarrow> bool \<times> state" where
  "sendHexFile cfg fileName ih s0 =
     (let s = showProgress 0 (''Loading '' @ fileName) (progressDialog_reset s0)
      in case ih of
           LoadFailed e \<Rightarrow> (False, s\<lparr>m_errorString := e\<rparr>)
         | Loaded sec others \<Rightarrow>
             (let start_addr = offset sec;
                  d = sdata sec
              in case enter_loop cfg 0 False s of
                   (Return b, ok, s1) \<Rightarrow> (b, s1)
                 | (Proceed, ok, s1) \<Rightarrow>
                     if \<not> ok then (False, s1\<lparr>m_errorString := ''Can't enter boot loader''\<rparr>)
                     else and_then (erase_loop cfg 4 s1) (write_verify_exit cfg start_addr d)))"

section \<open>The firmware's \<^verbatim>\<open>msg_send\<close>\<close>

text \<open>
  A \<^verbatim>\<open>struct msg_header\<close> with the payload bytes that follow it in memory. The fields
  \<^verbatim>\<open>crc\<close>, \<^verbatim>\<open>id\<close> and the payload are contiguous: the code reads \<^verbatim>\<open>2 + 2 + data_len\<close>
  bytes from \<^verbatim>\<open>&msg->crc\<close> and \<^verbatim>\<open>2 + data_len\<close> bytes from \<^verbatim>\<open>&msg->id\<close>.
\<close>

record msg_header =
  hdr_crc :: "16 word"
  hdr_id :: "16 word"
  hdr_data_len :: nat
  hdr_data :: "nat \<Rightarrow> byte"

text \<open>
  Functions of headers that are not among the sources, taken as parameters: the
  three CRC-16 functions (\<^verbatim>\<open>crc16.h\<close>) and \<^verbatim>\<open>cobsr_encode\<close> (\<^verbatim>\<open>cobsr.h\<close>), which
  gets the destination buffer, its usable length and the source bytes, and yields
  its \<^verbatim>\<open>int\<close> result and the destination buffer as it left it.
\<close>

record firmware =
  crc16_init :: "16 word"
  crc16_update :: "16 word \<Rightarrow> byte list \<Rightarrow> 16 word"
  crc16_finalize :: "16 word \<Rightarrow> 16 word"
  cobsr_encode :: "byte list \<Rightarrow> nat \<Rightarrow> byte list \<Rightarrow> int \<times> byte list"

text \<open>\<^verbatim>\<open>tx_buf\<close> and the bytes written to \<^verbatim>\<open>STDOUT_FILENO\<close> so far.\<close>

record fw_state =
  tx_buf :: "byte list"
  stdout :: "byte list"

text \<open>A 16-bit field as it lies in the memory of the little-endian target.\<close>

definition le16 :: "16 word \<Rightarrow> byte list" where
  "le16 w = [ucast w, ucast (drop_bit 8 w)]"

text \<open>The \<open>n\<close> bytes from \<^verbatim>\<open>&msg->id\<close> on, for \<open>n = 2 + data_len\<close>.\<close>

definition id_and_data :: "msg_header \<Rightarrow> byte list" where
  "id_and_data msg = le16 (hdr_id msg) @ map (hdr_data msg) [0..<hdr_data_len msg]"

definition msg_calc_crc :: "firmware \<Rightarrow> msg_header \<Rightarrow> 16 word" where
  "msg_calc_crc fw msg =
     crc16_finalize fw (crc16_update fw (crc16_init fw) (id_and_data msg))"

text \<open>
  \<^verbatim>\<open>msg_send\<close> yields its \<^verbatim>\<open>int\<close> result, the message as it left it (the \<^verbatim>\<open>crc\<close> field
  is written) and the new state. \<^verbatim>\<open>sizeof(tx_buf)\<close> is the length of \<open>tx_buf\<close>.
\<close>

definition msg_send :: "firmware \<Rightarrow> msg_header \<Rightarrow> fw_state \<Rightarrow> int \<times> msg_header \<times> fw_state" where
  "msg_send fw msg st =
     (let msg1 = msg\<lparr>hdr_crc := msg_calc_crc fw msg\<rparr>;
          (res, tx1) = cobsr_encode fw (tx_buf st) (length (tx_buf st) - 1)
                         (le16 (hdr_crc msg1) @ id_and_data msg1)
      in if res < 0 then (- 1, msg1, st\<lparr>tx_buf := tx1\<rparr>)
         else
           (let tx2 = tx1[nat res := 0];
                res1 = nat res + 1
            in (int (hdr_data_len msg1), msg1,
                st\<lparr>tx_buf := tx2, stdout := stdout st @ [0] @ take res1 tx2\<rparr>)))"

section \<open>Observations on runs\<close>

definition not_response :: "msg \<Rightarrow> bool" where
  "not_response m = (h_id m \<noteq> MSG_ID_BOOT_RESPONSE)"

text \<open>What the next \<open>k\<close> calls of \<^verbatim>\<open>processEvents\<close> will deliver, in order of arrival.\<close>

definition arrivals :: "nat \<Rightarrow> state \<Rightarrow> msg list" where
  "arrivals k s = concat (map fst (take k (pending s)))"

definition cancel_within :: "nat \<Rightarrow> state \<Rightarrow> bool" where
  "cancel_within k s = list_ex snd (take k (pending s))"

definition opt_list :: "'a option \<Rightarrow> 'a list" where
  "opt_list r = (case r of None \<Rightarrow> [] | Some m \<Rightarrow> [m])"

text \<open>The number of polling rounds a timeout of \<open>t\<close> milliseconds allows.\<close>

definition rounds :: "int \<Rightarrow> nat" where
  "rounds t = nat ((t + 9) div 10)"

definition is_response :: "msg \<Rightarrow> bool" where
  "is_response m = (h_id m = MSG_ID_BOOT_RESPONSE)"

text \<open>
  The response a wait of \<open>t\<close> milliseconds is for: the first response among the queued
  messages and those the polling rounds but the last deliver (what the last round
  delivers is never looked at).
\<close>

definition awaited :: "int \<Rightarrow> state \<Rightarrow> msg option" where
  "awaited t s = find is_response (messageQueue s @ arrivals (rounds t - 1) s)"

text \<open>Kinds of events, and the requests of a trace in the order they were sent.\<close>

fun is_write :: "event \<Rightarrow> bool" where
  "is_write (Sent (Msg_boot_write_data a d)) = True"
| "is_write e = False"

fun is_got :: "event \<Rightarrow> bool" where
  "is_got (Got m) = True"
| "is_got e = False"

fun is_poll :: "event \<Rightarrow> bool" where
  "is_poll (CancelPoll c) = True"
| "is_poll e = False"

fun is_cancel :: "event \<Rightarrow> bool" where
  "is_cancel (CancelPoll c) = c"
| "is_cancel e = False"

fun is_bad_ack :: "event \<Rightarrow> bool" where
  "is_bad_ack (Got m) = (data m 0 \<noteq> FLASH_COMPLETE)"
| "is_bad_ack e = False"

fun sent_of :: "event \<Rightarrow> request list" where
  "sent_of (Sent r) = [r]"
| "sent_of e = []"

definition requests :: "event list \<Rightarrow> request list" where
  "requests ev = concat (map sent_of ev)"

text \<open>Write requests sent and responses taken: the writes not yet acknowledged.\<close>

definition writes_sent :: "event list \<Rightarrow> nat" where
  "writes_sent ev = length (filter is_write ev)"

definition acks_taken :: "event list \<Rightarrow> nat" where
  "acks_taken ev = length (filter is_got ev)"

definition outstanding :: "event list \<Rightarrow> int" where
  "outstanding ev = int (writes_sent ev) - int (acks_taken ev)"

text \<open>
  The chunks of a region: their number, and the write request of chunk \<open>k\<close>. A region
  is written when its chunks have been sent in order.
\<close>

definition chunk_count :: "config \<Rightarrow> byte list \<Rightarrow> nat" where
  "chunk_count cfg d = (length d + chunk_size cfg - 1) div chunk_size cfg"

definition chunk_request :: "config \<Rightarrow> 32 word \<Rightarrow> byte list \<Rightarrow> nat \<Rightarrow> request" where
  "chunk_request cfg addr d k =
     Msg_boot_write_data (addr + of_nat (k * chunk_size cfg))
       (take (chunk_size cfg) (drop (k * chunk_size cfg) d))"

definition write_requests :: "config \<Rightarrow> 32 word \<Rightarrow> byte list \<Rightarrow> request list" where
  "write_requests cfg addr d = map (chunk_request cfg addr d) [0..<chunk_count cfg d]"

text \<open>No poll of a trace saw the cancellation.\<close>

definition quiet :: "event list \<Rightarrow> bool" where
  "quiet ev = list_all (\<lambda>e. \<not> is_cancel e) ev"

text \<open>
  The events of the first block of iteration \<open>i\<close> of the write loop when the poll did
  not see a cancellation.
\<close>

definition send_events :: "config \<Rightarrow> 32 word \<Rightarrow> byte list \<Rightarrow> nat \<Rightarrow> nat \<Rightarrow> nat \<Rightarrow> event list" where
  "send_events cfg addr d chunks i off =
     (if i < chunks
      then [Sent (Msg_boot_write_data (addr + of_nat off) (take (chunk_size cfg) (drop off d))),
            CancelPoll False]
      else [])"

text \<open>
  How a write loop can end as far as bad acknowledgements and cancellation polls go:
  a bad acknowledgement or a poll that saw the cancellation is the last event.
\<close>

definition ack_shape :: "32 word \<Rightarrow> bool \<Rightarrow> state \<Rightarrow> event list \<Rightarrow> bool" where
  "ack_shape addr r s' ev =
     ((\<forall>e\<in>set ev. \<not> is_bad_ack e) \<or>
      (\<exists>pre m. ev = pre @ [Got m] \<and> (\<forall>e\<in>set pre. \<not> is_bad_ack e) \<and>
         data m 0 \<noteq> FLASH_COMPLETE \<and> \<not> r \<and>
         m_errorString s' = ''Can't write data at 0x'' @ fmt_x 8 (unat addr) @ '': ''
                       @ flashStatusStr (data m 0)))"

definition cancel_shape :: "bool \<Rightarrow> state \<Rightarrow> event list \<Rightarrow> bool" where
  "cancel_shape r s' ev =
     (quiet ev \<or> (\<exists>pre. ev = pre @ [CancelPoll True] \<and> quiet pre \<and> r \<and> wasCanceled s'))"

text \<open>The state after a chunk at offset \<open>off\<close> has been sent and the cancellation polled.\<close>

definition after_send :: "config \<Rightarrow> 32 word \<Rightarrow> byte list \<Rightarrow> nat \<Rightarrow> state \<Rightarrow> state" where
  "after_send cfg addr d off s =
     s\<lparr>progress_value := progress_percent off (length d),
       progress_label := ''Writing 0x'' @ fmt_x 8 (unat (addr + of_nat off)),
       trace := trace s @ [Sent (Msg_boot_write_data (addr + of_nat off)
                 (take (chunk_size cfg) (drop off d))), CancelPoll (wasCanceled s)]\<rparr>"

text \<open>
  The state after a wait that found the queue empty, got the response \<open>m\<close> alone in the
  next round of events, with the Cancel button pressed or not (\<open>c\<close>), and took it.
\<close>

definition after_response :: "msg \<Rightarrow> bool \<Rightarrow> state \<Rightarrow> state" where
  "after_response m c s =
     s\<lparr>messageQueue := [], wasCanceled := (wasCanceled s \<or> c), pending := tl (pending s),
       trace := trace s @ [Got m]\<rparr>"

text \<open>Attempts to enter the boot loader, and the responses that grant it.\<close>

fun is_enter :: "event \<Rightarrow> bool" where
  "is_enter (Sent (Msg_boot_enter magic)) = True"
| "is_enter e = False"

definition enters :: "event list \<Rightarrow> nat" where
  "enters ev = length (filter is_enter ev)"

definition grants_entry :: "msg \<Rightarrow> bool" where
  "grants_entry m = (h_id m = MSG_ID_BOOT_RESPONSE \<and> data m 0 = 1)"

text \<open>The events of a trace from the first response with status 1 on.\<close>

fun is_grant :: "event \<Rightarrow> bool" where
  "is_grant (Got m) = (data m 0 = 1)"
| "is_grant e = False"

definition after_grant :: "event list \<Rightarrow> event list" where
  "after_grant ev = dropWhile (\<lambda>e. \<not> is_grant e) ev"

text \<open>The reset request of \<^verbatim>\<open>bootResetHack\<close>.\<close>

definition shell_reset :: request where
  "shell_reset = Msg_shell_from_pc (CHR 0x03 # CHR 0x0A # ''reset'' @ [CHR 0x0A])"

text \<open>
  The environment never lets the engine in: no message queued or to come is a
  response with status 1, and Cancel is never pressed.
\<close>

definition never_entered :: "state \<Rightarrow> bool" where
  "never_entered s =
     (list_all (\<lambda>m. \<not> grants_entry m) (messageQueue s @ concat (map fst (pending s))) \<and>
      \<not> list_ex snd (pending s))"

text \<open>
  Shapes of the trace of a run with respect to cancellation: a run that ends on
  polls that saw the cancellation, after events none of which did; the trace of a
  block according to how it ends; the trace of a function according to its result.
\<close>

definition cancelled_tail :: "event list \<Rightarrow> bool" where
  "cancelled_tail ev = (\<exists>pre n. ev = pre @ replicate (Suc n) (CancelPoll True) \<and> quiet pre)"

definition flow_shape :: "flow \<Rightarrow> event list \<Rightarrow> bool" where
  "flow_shape f ev =
     (case f of Proceed \<Rightarrow> quiet ev
      | Return b \<Rightarrow> if b then cancelled_tail ev else quiet ev)"

definition run_shape :: "bool \<Rightarrow> event list \<Rightarrow> bool" where
  "run_shape r ev = (quiet ev \<or> (r \<and> cancelled_tail ev))"



section \<open>Sample configurations, messages and states\<close>

text \<open>
  A configuration with the smallest chunk size and stand-ins for the CRC-32
  functions, a response with a given first payload byte, a message that is no
  response, and the engine at rest with nothing to come.
\<close>

definition sample_cfg :: config where
  "sample_cfg = \<lparr>default_timeout = 500, chunk_size = 1, crc32_init = 0,
     crc32_update = (\<lambda>c d. c + of_nat (length d)), crc32_finalize = (\<lambda>c. c)\<rparr>"

definition response :: "byte \<Rightarrow> msg" where
  "response b = \<lparr>h_id = MSG_ID_BOOT_RESPONSE, data = (\<lambda>i. if i = 0 then b else 0)\<rparr>"

definition telemetry :: msg where
  "telemetry = \<lparr>h_id = MSG_ID_OTHER 7, data = (\<lambda>i. 0)\<rparr>"

definition idle :: state where
  "idle = \<lparr>messageQueue = [], m_errorString = [], progress_value = 0, progress_label = [],
     wasCanceled = False, pending = [], trace = []\<rparr>"

text \<open>
  Two states for \<^verbatim>\<open>bootGetResponse\<close>: a telemetry message is queued and the next round
  of events brings a response between two more; and an empty queue, telemetry in the
  first round, the response only in the second.
\<close>

definition busy_link :: state where
  "busy_link = idle\<lparr>messageQueue := [telemetry],
     pending := [([telemetry, response 9, telemetry], False)]\<rparr>"

definition late_link :: state where
  "late_link = idle\<lparr>pending := [([telemetry], False), ([response 9], False)]\<rparr>"

text \<open>The engine at rest; the next round of events brings one response.\<close>

definition answered :: "byte \<Rightarrow> state" where
  "answered b = idle\<lparr>pending := [([response b], False)]\<rparr>"

text \<open>
  For \<^verbatim>\<open>msg_send\<close>: stand-ins for the CRC-16 functions and for the encoder (it copies the
  source when it fits and fails otherwise), and a message with id \<open>0x0102\<close> and one
  payload byte.
\<close>

definition sample_fw :: firmware where
  "sample_fw = \<lparr>crc16_init = 0, crc16_update = (\<lambda>c d. c + of_nat (length d)),
     crc16_finalize = (\<lambda>c. c),
     cobsr_encode = (\<lambda>dst n src.
       if length src \<le> n then (int (length src), src @ drop (length src) dst)
       else (- 1, dst))\<rparr>"

definition sample_msg :: msg_header where
  "sample_msg = \<lparr>hdr_crc = 0, hdr_id = 0x0102, hdr_data_len = 1, hdr_data = (\<lambda>i. 0x2A)\<rparr>"

text \<open>
  For \<^verbatim>\<open>bootWriteData\<close>: the engine at rest with \<open>n\<close> rounds of events to come, each
  bringing one \<^verbatim>\<open>FLASH_COMPLETE\<close> response; a region of eleven bytes, which is eleven
  chunks of the sample configuration; and two rounds of which the second brings
  \<^verbatim>\<open>FLASH_BUSY\<close>.
\<close>

definition acks :: "nat \<Rightarrow> state" where
  "acks n = idle\<lparr>pending := replicate n ([response 9], False)\<rparr>"

definition eleven :: "byte list" where
  "eleven = [0, 1, 2, 3, 4, 5, 6, 7, 8, 9, 10]"

definition second_busy :: state where
  "second_busy = idle\<lparr>pending := [([response 9], False), ([response 1], False)]\<rparr>"

text \<open>
  For \<^verbatim>\<open>sendHexFile\<close>: an image of nine bytes, and the engine at rest with every request
  of a whole run answered in the next round of events: the boot loader grants entry,
  acknowledges eight erased sectors and the write of the ninth byte, reports the checksum
  of the sample configuration for it, acknowledges the first eight bytes and the exit.
\<close>

definition sample_image :: hex_section where
  "sample_image = \<lparr>offset = 0x08004000, sdata = [1, 2, 3, 4, 5, 6, 7, 8, 9]\<rparr>"

definition flashing :: state where
  "flashing = idle\<lparr>pending := ([response 1], False) # replicate 8 ([response 9], False)
     @ replicate 1 ([response 9], False) @ ([response 1], False)
     # replicate 8 ([response 9], False) @ [([response 1], False)]\<rparr>"

text \<open>
  The Cancel button is pressed while the engine waits for the answer to its first
  request: with the granting response, and with a granting response that follows a
  refusal of the first attempt.
\<close>

definition cancelled_early :: state where
  "cancelled_early = idle\<lparr>pending := [([response 1], True)]\<rparr>"

definition refused_once :: state where
  "refused_once = idle\<lparr>pending := [([response 0], False), ([response 1], True)]\<rparr>"

text \<open>
  For \<^verbatim>\<open>bootWriteData\<close>: a region of thirteen bytes, and the Cancel button pressed while
  the engine waits for the first acknowledgement.
\<close>

definition thirteen :: "byte list" where
  "thirteen = [0, 1, 2, 3, 4, 5, 6, 7, 8, 9, 10, 11, 12]"

definition cancel_in_wait :: state where
  "cancel_in_wait = idle\<lparr>pending := [([response 9], True)]\<rparr>"

text \<open>
  Every poll of the cancellation in a trace comes directly after a write request
  (\<open>w\<close>: the event before was one).
\<close>

fun polls_after :: "bool \<Rightarrow> event list \<Rightarrow> bool" where
  "polls_after w [] = True"
| "polls_after w (e # ev) = ((if is_poll e then w else True) \<and> polls_after (is_write e) ev)"

definition polls_follow_writes :: "event list \<Rightarrow> bool" where
  "polls_follow_writes ev = polls_after False ev"

text \<open>
  For each response taken in a trace, in order: the number of write requests sent before
  it (\<open>n\<close>: those sent before the trace begins).
\<close>

fun sent_before_acks :: "nat \<Rightarrow> event list \<Rightarrow> nat list" where
  "sent_before_acks n [] = []"
| "sent_before_acks n (e # ev) =
     (if is_got e then n # sent_before_acks n ev
      else sent_before_acks (if is_write e then Suc n else n) ev)"

text \<open>
  The environment answers the attempts to enter in the next round of events each, without
  the Cancel button being pressed: the first \<open>k - 1\<close> attempts with a response whose
  status is not 1, attempt \<open>k\<close> with a response whose status is 1. A sample of it for
  \<open>k = 2\<close>, with nothing to come after the grant.
\<close>

definition answers_with :: "bool \<Rightarrow> msg list \<times> bool \<Rightarrow> bool" where
  "answers_with grant p =
     (\<not> snd p \<and> length (fst p) = 1 \<and> h_id (hd (fst p)) = MSG_ID_BOOT_RESPONSE \<and>
      (data (hd (fst p)) 0 = 1) = grant)"

definition granted_at :: "nat \<Rightarrow> state \<Rightarrow> bool" where
  "granted_at k s =
     (messageQueue s = [] \<and> 0 < k \<and> k \<le> length (pending s) \<and>
      list_all (answers_with False) (take (k - 1) (pending s)) \<and>
      answers_with True (pending s ! (k - 1)))"

definition granted_second :: state where
  "granted_second = idle\<lparr>pending := [([response 0], False), ([response 1], False)]\<rparr>"

text \<open>
  The steps of a trace: what lies between the polls of the cancellation that do not
  directly follow a write request; the last one is what follows the last such poll
  (\<open>w\<close>: the event before was a write request). A block of events that is empty or
  begins with a request, and holds as many polls as write requests.
\<close>

fun split_steps :: "bool \<Rightarrow> event list \<Rightarrow> event list list" where
  "split_steps w [] = [[]]"
| "split_steps w (e # ev) =
     (if is_poll e \<and> \<not> w then [] # split_steps False ev
      else (e # hd (split_steps (is_write e) ev)) # tl (split_steps (is_write e) ev))"

definition steps :: "event list \<Rightarrow> event list list" where
  "steps ev = split_steps False ev"

fun is_sent :: "event \<Rightarrow> bool" where
  "is_sent (Sent x) = True"
| "is_sent e = False"

definition step_block :: "event list \<Rightarrow> bool" where
  "step_block b = ((b = [] \<or> is_sent (hd b)) \<and> length (filter is_poll b) = writes_sent b)"

text \<open>
  The requests of the steps of \<^verbatim>\<open>sendHexFile\<close> in the order of the code, for \<open>n\<close>
  attempts to enter: the attempts, the eight sectors, the region behind the first eight
  bytes, its verification, the first eight bytes, the exit, and the end of the function.
\<close>

definition schedule :: "config \<Rightarrow> hex_section \<Rightarrow> nat \<Rightarrow> request list list" where
  "schedule cfg sec n =
     replicate n [shell_reset, Msg_boot_enter 0xB00710AD]
     @ map (\<lambda>i. [Msg_boot_erase_sector (of_int i)]) [4..11]
     @ [write_requests cfg (offset sec + 8) (drop 8 (sdata sec)),
        [Msg_boot_verify (offset sec + 8) (of_nat (length (drop 8 (sdata sec))))],
        write_requests cfg (offset sec) (take 8 (sdata sec)),
        [Msg_boot_exit],
        []]"

text \<open>
  The requests of the steps of a trace follow a schedule: step by step they are those of
  the schedule, up to a step of which only the first requests were sent; after that one
  nothing follows but the empty step behind a poll.
\<close>

fun follows :: "request list list \<Rightarrow> request list list \<Rightarrow> bool" where
  "follows [] sch = True"
| "follows (b # bs) [] = False"
| "follows (b # bs) (s # sch) =
     (if b = s then follows bs sch
      else take (length b) s = b \<and> (bs = [] \<or> bs = [[]]))"

text \<open>
  A trace is on a schedule: its steps are blocks, their requests follow the schedule,
  and are the whole schedule when the run is a whole one.
\<close>

definition on_schedule :: "request list list \<Rightarrow> bool \<Rightarrow> event list \<Rightarrow> bool" where
  "on_schedule sch whole ev =
     (list_all step_block (steps ev) \<and> follows (map requests (steps ev)) sch \<and>
      (if whole then map requests (steps ev) = sch else True))"
section \<open>Waiting for a response\<close>

declare dequeue_loop.simps [simp del] bootGetResponse.simps [simp del]
  dec_str.simps [simp del] hex_str.simps [simp del]

text \<open>Evaluating the conversions on numerals.\<close>

lemmas hex_str_numeral = hex_str.simps [where n = "numeral k" for k]

lemmas dec_str_numeral = dec_str.simps [where n = "numeral k" for k]

lemma replicate_numeral: "replicate (numeral k) x = x # replicate (pred_numeral k) x"
  by (simp add: numeral_eq_Suc)

lemma str_small:
  "dec_str 0 = ''0''" "dec_str (Suc 0) = ''1''" "hex_str 0 = ''0''" "hex_str (Suc 0) = ''1''"
  by (simp_all add: dec_str.simps [of 0] dec_str.simps [of "Suc 0"] hex_str.simps [of 0]
      hex_str.simps [of "Suc 0"] digit_char_def)

lemmas fmt_eval = fmt_d_def fmt_x_def dec_str_numeral hex_str_numeral str_small digit_char_def
  replicate_numeral

lemma dequeue_loop_eq:
  "dequeue_loop s =
     (case dropWhile not_response (messageQueue s) of
        [] \<Rightarrow> (None, s\<lparr>messageQueue := [], trace := trace s @ map Dropped (messageQueue s)\<rparr>)
      | m # q \<Rightarrow> (Some m, s\<lparr>messageQueue := q,
           trace := trace s @ map Dropped (takeWhile not_response (messageQueue s)) @ [Got m]\<rparr>))"
proof (induction s rule: dequeue_loop.induct)
  case (1 s)
  show ?case
  proof (cases "messageQueue s")
    case Nil
    then show ?thesis by (simp add: dequeue_loop.simps [of s])
  next
    case (Cons m q)
    show ?thesis
    proof (cases "h_id m = MSG_ID_BOOT_RESPONSE")
      case True
      then have nr: "\<not> not_response m" by (simp add: not_response_def)
      from True Cons show ?thesis by (simp add: dequeue_loop.simps [of s] nr)
    next
      case False
      then have nr: "not_response m" by (simp add: not_response_def)
      from False Cons have step: "dequeue_loop s =
          dequeue_loop (s\<lparr>messageQueue := q, trace := trace s @ [Dropped m]\<rparr>)"
        by (simp add: dequeue_loop.simps [of s])
      have dw: "dropWhile not_response (messageQueue s) = dropWhile not_response q"
        and tw: "takeWhile not_response (messageQueue s) = m # takeWhile not_response q"
        using Cons nr by simp_all
      have ih: "dequeue_loop (s\<lparr>messageQueue := q, trace := trace s @ [Dropped m]\<rparr>) =
        (case dropWhile not_response q of
           [] \<Rightarrow> (None, s\<lparr>messageQueue := [], trace := trace s @ Dropped m # map Dropped q\<rparr>)
         | m' # q' \<Rightarrow> (Some m', s\<lparr>messageQueue := q',
             trace := trace s @ Dropped m # map Dropped (takeWhile not_response q) @ [Got m']\<rparr>))"
        using 1 [OF Cons False] by (simp cong: list.case_cong)
      show ?thesis
        unfolding step ih dw tw using Cons by (simp cong: list.case_cong)
    qed
  qed
qed

lemma dequeue_loop_None:
  assumes "dequeue_loop s = (None, s')"
  shows "(\<forall>d\<in>set (messageQueue s). not_response d) \<and>
         s' = s\<lparr>messageQueue := [], trace := trace s @ map Dropped (messageQueue s)\<rparr>"
proof (cases "dropWhile not_response (messageQueue s)")
  case Nil
  have "dequeue_loop s =
      (None, s\<lparr>messageQueue := [], trace := trace s @ map Dropped (messageQueue s)\<rparr>)"
    unfolding dequeue_loop_eq [of s] Nil by simp
  then have "(None, s') =
      (None, s\<lparr>messageQueue := [], trace := trace s @ map Dropped (messageQueue s)\<rparr>)"
    using assms by simp
  then have "s' = s\<lparr>messageQueue := [], trace := trace s @ map Dropped (messageQueue s)\<rparr>"
    by simp
  moreover from Nil have "\<forall>d\<in>set (messageQueue s). not_response d"
    by (simp add: dropWhile_eq_Nil_conv)
  ultimately show ?thesis by blast
next
  case (Cons m q)
  have "fst (dequeue_loop s) = Some m"
    unfolding dequeue_loop_eq [of s] Cons by simp
  with assms show ?thesis by simp
qed

lemma dequeue_loop_Some:
  assumes "dequeue_loop s = (Some m, s')"
  shows "\<exists>ds q. messageQueue s = ds @ m # q \<and> (\<forall>d\<in>set ds. not_response d) \<and>
           \<not> not_response m \<and>
           s' = s\<lparr>messageQueue := q, trace := trace s @ map Dropped ds @ [Got m]\<rparr>"
proof (cases "dropWhile not_response (messageQueue s)")
  case Nil
  have "fst (dequeue_loop s) = None"
    unfolding dequeue_loop_eq [of s] Nil by simp
  with assms have False by simp
  then show ?thesis ..
next
  case (Cons m' q)
  have A: "dequeue_loop s = (Some m', s\<lparr>messageQueue := q,
      trace := trace s @ map Dropped (takeWhile not_response (messageQueue s)) @ [Got m']\<rparr>)"
    unfolding dequeue_loop_eq [of s] Cons by simp
  have B: "(Some m, s') = (Some m', s\<lparr>messageQueue := q,
      trace := trace s @ map Dropped (takeWhile not_response (messageQueue s)) @ [Got m']\<rparr>)"
    using A [unfolded assms] .
  from B have m: "m = m'"
    by (simp only: prod.inject option.inject)
  from B have s': "s' = s\<lparr>messageQueue := q,
      trace := trace s @ map Dropped (takeWhile not_response (messageQueue s)) @ [Got m']\<rparr>"
    by (simp only: prod.inject option.inject)
  have split: "messageQueue s = takeWhile not_response (messageQueue s) @ m' # q"
    by (metis takeWhile_dropWhile_id Cons)
  have nm: "\<not> not_response m'"
    by (metis hd_dropWhile Cons list.sel(1) list.distinct(1))
  have nd: "\<forall>d\<in>set (takeWhile not_response (messageQueue s)). not_response d"
    by (auto dest: set_takeWhileD)
  show ?thesis
    unfolding m
    apply (rule exI [of _ "takeWhile not_response (messageQueue s)"], rule exI [of _ q])
    apply (intro conjI)
       apply (rule split)
      apply (rule nd)
     apply (rule nm)
    apply (rule s')
    done
qed

lemma processEvents_eq:
  "processEvents s = s\<lparr>messageQueue := messageQueue s @ concat (map fst (take 1 (pending s))),
       wasCanceled := (wasCanceled s \<or> list_ex snd (take 1 (pending s))),
       pending := drop 1 (pending s)\<rparr>"
  by (cases "pending s") (auto simp: processEvents_def)

lemma arrivals_Suc:
  "arrivals (Suc k) s =
     concat (map fst (take 1 (pending s))) @ concat (map fst (take k (drop 1 (pending s))))"
  by (cases "pending s") (simp_all add: arrivals_def)

lemma cancel_within_Suc:
  "cancel_within (Suc k) s =
     (list_ex snd (take 1 (pending s)) \<or> list_ex snd (take k (drop 1 (pending s))))"
  by (cases "pending s") (simp_all add: cancel_within_def)

lemma bootGetResponse_result:
  "bootGetResponse s t = (r, s') \<Longrightarrow>
   \<exists>k ds q. messageQueue s @ arrivals k s = ds @ opt_list r @ q \<and>
     (\<forall>d\<in>set ds. not_response d) \<and>
     (\<forall>m. r = Some m \<longrightarrow> h_id m = MSG_ID_BOOT_RESPONSE \<and> int k * 10 < t) \<and>
     s' = s\<lparr>messageQueue := q, pending := drop k (pending s),
            wasCanceled := (wasCanceled s \<or> cancel_within k s),
            trace := trace s @ map Dropped ds @ map Got (opt_list r),
            m_errorString := (if r = None then ''Time out'' else m_errorString s)\<rparr>"
proof (induction s t arbitrary: r s' rule: bootGetResponse.induct)
  case (1 s t)
  show ?case
  proof (cases "t > 0")
    case False
    with "1.prems" have rs: "r = None" "s' = s\<lparr>m_errorString := ''Time out''\<rparr>"
      by (auto simp: bootGetResponse.simps [of s t])
    show ?thesis
      unfolding rs
      apply (rule exI [of _ 0], rule exI [of _ "[]"], rule exI [of _ "messageQueue s"])
      apply (simp add: arrivals_def cancel_within_def opt_list_def)
      done
  next
    case True
    obtain r1 s1 where d: "dequeue_loop s = (r1, s1)" by (cases "dequeue_loop s")
    show ?thesis
    proof (cases r1)
      case (Some m)
      with d True "1.prems" have rs: "r = Some m" "s' = s1"
        by (auto simp: bootGetResponse.simps [of s t])
      from dequeue_loop_Some [OF d [unfolded Some]] obtain ds q where
        q: "messageQueue s = ds @ m # q" and nr: "\<forall>d\<in>set ds. not_response d" and
        m: "\<not> not_response m" and
        s1: "s1 = s\<lparr>messageQueue := q, trace := trace s @ map Dropped ds @ [Got m]\<rparr>"
        by blast
      show ?thesis
        unfolding rs s1
        apply (rule exI [of _ 0], rule exI [of _ ds], rule exI [of _ q])
        using q nr m True
        apply (simp add: arrivals_def cancel_within_def opt_list_def not_response_def)
        done
    next
      case None
      from dequeue_loop_None [OF d [unfolded None]] have
        nr: "\<forall>d\<in>set (messageQueue s). not_response d" and
        s1: "s1 = s\<lparr>messageQueue := [], trace := trace s @ map Dropped (messageQueue s)\<rparr>"
        by auto
      from d None True "1.prems" have rec: "bootGetResponse (processEvents s1) (t - 10) = (r, s')"
        by (simp add: bootGetResponse.simps [of s t])
      have pe: "processEvents s1 = s\<lparr>messageQueue := concat (map fst (take 1 (pending s))),
          wasCanceled := (wasCanceled s \<or> list_ex snd (take 1 (pending s))),
          pending := drop 1 (pending s),
          trace := trace s @ map Dropped (messageQueue s)\<rparr>"
        by (simp add: processEvents_eq s1)
      from "1.IH" [OF True d [unfolded None, symmetric] refl rec] obtain k ds q where
        a: "messageQueue (processEvents s1) @ arrivals k (processEvents s1) =
              ds @ opt_list r @ q" and
        b: "\<forall>d\<in>set ds. not_response d" and
        c: "\<forall>m. r = Some m \<longrightarrow> h_id m = MSG_ID_BOOT_RESPONSE \<and> int k * 10 < t - 10" and
        e: "s' = (processEvents s1)\<lparr>messageQueue := q,
              pending := drop k (pending (processEvents s1)),
              wasCanceled := (wasCanceled (processEvents s1) \<or> cancel_within k (processEvents s1)),
              trace := trace (processEvents s1) @ map Dropped ds @ map Got (opt_list r),
              m_errorString := (if r = None then ''Time out''
                                else m_errorString (processEvents s1))\<rparr>"
        by blast
      have ak: "arrivals k (processEvents s1) = concat (map fst (take k (drop 1 (pending s))))"
        and ck: "cancel_within k (processEvents s1) = list_ex snd (take k (drop 1 (pending s)))"
        by (simp_all add: pe arrivals_def cancel_within_def)
      show ?thesis
        apply (rule exI [of _ "Suc k"], rule exI [of _ "messageQueue s @ ds"], rule exI [of _ q])
        apply (intro conjI)
        subgoal using a [unfolded ak] by (simp add: arrivals_Suc pe)
        subgoal using b nr by auto
        subgoal using c by auto
        subgoal using e [unfolded ck] by (simp add: pe cancel_within_Suc)
        done
    qed
  qed
qed

lemma rounds_step: "10 < t \<Longrightarrow> rounds t = Suc (rounds (t - 10))"
  unfolding rounds_def by (simp add: nat_eq_iff) linarith

lemma rounds_one: "0 < t \<Longrightarrow> t \<le> 10 \<Longrightarrow> rounds t = 1"
  unfolding rounds_def by (simp add: nat_eq_iff) linarith

lemma bootGetResponse_None:
  "bootGetResponse s t = (None, s') \<Longrightarrow> 0 < t \<Longrightarrow>
     (\<forall>d\<in>set (messageQueue s @ arrivals (rounds t - 1) s). not_response d) \<and>
     trace s' = trace s @ map Dropped (messageQueue s @ arrivals (rounds t - 1) s) \<and>
     pending s' = drop (rounds t) (pending s) \<and>
     messageQueue s' = concat (map fst (take 1 (drop (rounds t - 1) (pending s))))"
proof (induction s t arbitrary: s' rule: bootGetResponse.induct)
  case (1 s t)
  obtain r1 s1 where d: "dequeue_loop s = (r1, s1)" by (cases "dequeue_loop s")
  have r1: "r1 = None"
  proof (cases r1)
    case (Some m)
    with d "1.prems" show ?thesis by (simp add: bootGetResponse.simps [of s t])
  qed simp
  from dequeue_loop_None [OF d [unfolded r1]] have
    nr: "\<forall>d\<in>set (messageQueue s). not_response d" and
    s1: "s1 = s\<lparr>messageQueue := [], trace := trace s @ map Dropped (messageQueue s)\<rparr>"
    by auto
  have pe: "processEvents s1 = s\<lparr>messageQueue := concat (map fst (take 1 (pending s))),
      wasCanceled := (wasCanceled s \<or> list_ex snd (take 1 (pending s))),
      pending := drop 1 (pending s),
      trace := trace s @ map Dropped (messageQueue s)\<rparr>"
    by (simp add: processEvents_eq s1)
  from d r1 "1.prems" have rec: "bootGetResponse (processEvents s1) (t - 10) = (None, s')"
    by (simp add: bootGetResponse.simps [of s t])
  show ?case
  proof (cases "10 < t")
    case False
    with rec have s': "s' = (processEvents s1)\<lparr>m_errorString := ''Time out''\<rparr>"
      by (simp add: bootGetResponse.simps [of _ "t - 10"])
    from False "1.prems" have rt: "rounds t = 1" by (simp add: rounds_one)
    show ?thesis unfolding s' rt using nr by (simp add: pe arrivals_def)
  next
    case True
    then have pos: "0 < t - 10" by simp
    note ih = "1.IH" [OF "1.prems"(2) d [unfolded r1, symmetric] refl rec pos]
    from pos have "0 < rounds (t - 10)" by (simp add: rounds_def)
    then obtain n where n: "rounds (t - 10) = Suc n" by (cases "rounds (t - 10)") auto
    from True have rt: "rounds t = Suc (Suc n)" by (simp add: rounds_step n)
    define s2 where "s2 = processEvents s1"
    have q2: "messageQueue s2 = concat (map fst (take 1 (pending s)))"
      and p2: "pending s2 = drop 1 (pending s)"
      and t2: "trace s2 = trace s @ map Dropped (messageQueue s)"
      by (simp_all add: s2_def pe)
    have a2: "arrivals n s2 = concat (map fst (take n (drop 1 (pending s))))"
      by (simp add: arrivals_def p2)
    have ar: "arrivals (Suc n) s = messageQueue s2 @ arrivals n s2"
      unfolding a2 q2 by (rule arrivals_Suc)
    from ih have ih1: "\<forall>d\<in>set (messageQueue s2 @ arrivals n s2). not_response d"
      and ih2: "trace s' = trace s2 @ map Dropped (messageQueue s2 @ arrivals n s2)"
      and ih3: "pending s' = drop (Suc n) (pending s2)"
      and ih4: "messageQueue s' = concat (map fst (take 1 (drop n (pending s2))))"
      unfolding n s2_def by simp_all
    have "\<forall>d\<in>set (messageQueue s @ arrivals (Suc n) s). not_response d"
      unfolding ar using nr ih1 by auto
    moreover have "trace s' = trace s @ map Dropped (messageQueue s @ arrivals (Suc n) s)"
      unfolding ar ih2 t2 by simp
    moreover have "pending s' = drop (Suc (Suc n)) (pending s)"
      unfolding ih3 p2 by simp
    moreover have "messageQueue s' = concat (map fst (take 1 (drop (Suc n) (pending s))))"
      unfolding ih4 p2 by simp
    ultimately show ?thesis unfolding rt by simp
  qed
qed

lemma arrivals_mono: "k \<le> n \<Longrightarrow> set (arrivals k s) \<subseteq> set (arrivals n s)"
proof -
  assume "k \<le> n"
  then have "set (take k (pending s)) \<subseteq> set (take n (pending s))"
    by (rule set_take_subset_set_take)
  then show ?thesis unfolding arrivals_def by auto
qed

lemma rounds_bound: "int k * 10 < t \<Longrightarrow> k \<le> rounds t - 1"
  unfolding rounds_def by linarith

text \<open>
  Claim C10. While \<^verbatim>\<open>bootGetResponse\<close> waits, the messages are taken in order of
  arrival (the queue, then what each round of \<^verbatim>\<open>processEvents\<close> delivers). When it
  returns a response \<open>m\<close>, then \<open>m\<close> is a \<^verbatim>\<open>MSG_ID_BOOT_RESPONSE\<close> message, every message
  that arrived before it has another id and was dequeued and dropped, and the queue
  holds exactly what arrived after \<open>m\<close>; nothing dropped is put back. It fails exactly
  when no response arrives within the rounds the timeout allows, every message seen
  was dropped, and the error string is \<^verbatim>\<open>Time out\<close>.
\<close>

theorem bootGetResponse_first_response:
  assumes run: "bootGetResponse s t = (r, s')"
  shows "(\<forall>m. r = Some m \<longrightarrow>
           (\<exists>k ds. int k * 10 < t \<and> h_id m = MSG_ID_BOOT_RESPONSE \<and>
              (\<forall>d\<in>set ds. h_id d \<noteq> MSG_ID_BOOT_RESPONSE) \<and>
              messageQueue s @ arrivals k s = ds @ m # messageQueue s' \<and>
              trace s' = trace s @ map Dropped ds @ [Got m] \<and>
              pending s' = drop k (pending s) \<and>
              m_errorString s' = m_errorString s)) \<and>
         (r = None \<longrightarrow> m_errorString s' = ''Time out'') \<and>
         (0 < t \<longrightarrow>
           (r = None) =
             (\<forall>d\<in>set (messageQueue s @ arrivals (rounds t - 1) s). h_id d \<noteq> MSG_ID_BOOT_RESPONSE)) \<and>
         (0 < t \<and> r = None \<longrightarrow>
            trace s' = trace s @ map Dropped (messageQueue s @ arrivals (rounds t - 1) s) \<and>
            pending s' = drop (rounds t) (pending s))"
proof -
  from bootGetResponse_result [OF run] obtain k ds q where
    a: "messageQueue s @ arrivals k s = ds @ opt_list r @ q" and
    b: "\<forall>d\<in>set ds. not_response d" and
    c: "\<forall>m. r = Some m \<longrightarrow> h_id m = MSG_ID_BOOT_RESPONSE \<and> int k * 10 < t" and
    e: "s' = s\<lparr>messageQueue := q, pending := drop k (pending s),
            wasCanceled := (wasCanceled s \<or> cancel_within k s),
            trace := trace s @ map Dropped ds @ map Got (opt_list r),
            m_errorString := (if r = None then ''Time out'' else m_errorString s)\<rparr>"
    by blast
  have q: "messageQueue s' = q" and p: "pending s' = drop k (pending s)"
    and tr: "trace s' = trace s @ map Dropped ds @ map Got (opt_list r)"
    and er: "m_errorString s' = (if r = None then ''Time out'' else m_errorString s)"
    by (simp_all add: e)
  have part1: "\<exists>k ds. int k * 10 < t \<and> h_id m = MSG_ID_BOOT_RESPONSE \<and>
              (\<forall>d\<in>set ds. h_id d \<noteq> MSG_ID_BOOT_RESPONSE) \<and>
              messageQueue s @ arrivals k s = ds @ m # messageQueue s' \<and>
              trace s' = trace s @ map Dropped ds @ [Got m] \<and>
              pending s' = drop k (pending s) \<and>
              m_errorString s' = m_errorString s" if m: "r = Some m" for m
    apply (rule exI [of _ k], rule exI [of _ ds])
    using a b c p tr er unfolding q m by (simp add: opt_list_def not_response_def)
  have part2: "r = None \<longrightarrow> m_errorString s' = ''Time out''"
    by (simp add: er)
  have part3: "(r = None) =
      (\<forall>d\<in>set (messageQueue s @ arrivals (rounds t - 1) s). h_id d \<noteq> MSG_ID_BOOT_RESPONSE)"
    if pos: "0 < t"
  proof
    assume "r = None"
    with bootGetResponse_None [OF _ pos] run
    show "\<forall>d\<in>set (messageQueue s @ arrivals (rounds t - 1) s). h_id d \<noteq> MSG_ID_BOOT_RESPONSE"
      by (simp add: not_response_def)
  next
    assume all: "\<forall>d\<in>set (messageQueue s @ arrivals (rounds t - 1) s). h_id d \<noteq> MSG_ID_BOOT_RESPONSE"
    show "r = None"
    proof (cases r)
      case (Some m)
      with c have hm: "h_id m = MSG_ID_BOOT_RESPONSE" and kt: "int k * 10 < t" by auto
      from a Some have "m \<in> set (messageQueue s @ arrivals k s)" by (simp add: opt_list_def)
      moreover from kt have "k \<le> rounds t - 1" by (rule rounds_bound)
      then have "set (arrivals k s) \<subseteq> set (arrivals (rounds t - 1) s)" by (rule arrivals_mono)
      ultimately have "m \<in> set (messageQueue s @ arrivals (rounds t - 1) s)" by auto
      with all hm show ?thesis by blast
    qed simp
  qed
  have part4: "0 < t \<and> r = None \<longrightarrow>
            trace s' = trace s @ map Dropped (messageQueue s @ arrivals (rounds t - 1) s) \<and>
            pending s' = drop (rounds t) (pending s)"
    using bootGetResponse_None [of s t s'] run by auto
  from part1 part2 part3 part4 show ?thesis by blast
qed

theorem bootGetResponse_first_response_witness:
  "bootGetResponse busy_link 30 =
     (Some (response 9), idle\<lparr>messageQueue := [telemetry],
        trace := [Dropped telemetry, Dropped telemetry, Got (response 9)]\<rparr>) \<and>
   (\<exists>k ds. int k * 10 < 30 \<and> h_id (response 9) = MSG_ID_BOOT_RESPONSE \<and>
      (\<forall>d\<in>set ds. h_id d \<noteq> MSG_ID_BOOT_RESPONSE) \<and>
      messageQueue busy_link @ arrivals k busy_link = ds @ response 9 # [telemetry]) \<and>
   fst (bootGetResponse late_link 20) = None \<and>
   m_errorString (snd (bootGetResponse late_link 20)) = ''Time out'' \<and>
   trace (snd (bootGetResponse late_link 20)) = [Dropped telemetry]"
proof -
  have run: "bootGetResponse busy_link 30 =
     (Some (response 9), idle\<lparr>messageQueue := [telemetry],
        trace := [Dropped telemetry, Dropped telemetry, Got (response 9)]\<rparr>)"
    by (simp add: bootGetResponse.simps dequeue_loop.simps processEvents_def busy_link_def
        idle_def telemetry_def response_def)
  have late: "fst (bootGetResponse late_link 20) = None"
    by (simp add: bootGetResponse.simps dequeue_loop.simps processEvents_def late_link_def
        idle_def telemetry_def response_def)
  obtain s' where run2: "bootGetResponse late_link 20 = (None, s')"
    using late by (cases "bootGetResponse late_link 20") simp
  have r20: "rounds 20 = 2" by (simp add: rounds_def)
  from bootGetResponse_first_response [OF run] have
    "\<exists>k ds. int k * 10 < 30 \<and> h_id (response 9) = MSG_ID_BOOT_RESPONSE \<and>
      (\<forall>d\<in>set ds. h_id d \<noteq> MSG_ID_BOOT_RESPONSE) \<and>
      messageQueue busy_link @ arrivals k busy_link = ds @ response 9 # [telemetry]"
    by simp blast
  moreover from bootGetResponse_first_response [OF run2] have
    "m_errorString s' = ''Time out'' \<and> trace s' = [Dropped telemetry]"
    by (simp add: r20 arrivals_def late_link_def idle_def)
  ultimately show ?thesis using run run2 by simp
qed

lemma arrivals_split: "k \<le> n \<Longrightarrow> \<exists>more. arrivals n s = arrivals k s @ more"
proof -
  assume "k \<le> n"
  then have "take n (pending s) = take k (pending s) @ take (n - k) (drop k (pending s))"
    by (metis le_add_diff_inverse take_add)
  then show ?thesis unfolding arrivals_def by simp
qed

lemma find_first: "\<forall>d\<in>set ds. \<not> P d \<Longrightarrow> P m \<Longrightarrow> find P (ds @ m # rest) = Some m"
  by (induction ds) auto

lemma find_none: "\<forall>d\<in>set ds. \<not> P d \<Longrightarrow> find P ds = None"
  by (induction ds) auto

lemma bootGetResponse_awaited:
  assumes run: "bootGetResponse s t = (r, s')" and pos: "0 < t"
  shows "r = awaited t s"
proof (cases r)
  case None
  with bootGetResponse_None [OF _ pos] run
  have "\<forall>d\<in>set (messageQueue s @ arrivals (rounds t - 1) s). not_response d" by blast
  then have "\<forall>d\<in>set (messageQueue s @ arrivals (rounds t - 1) s). \<not> is_response d"
    by (simp add: not_response_def is_response_def)
  then show ?thesis unfolding awaited_def None by (simp add: find_none)
next
  case (Some m)
  from bootGetResponse_result [OF run] obtain k ds q where
    a: "messageQueue s @ arrivals k s = ds @ opt_list r @ q" and
    b: "\<forall>d\<in>set ds. not_response d" and
    c: "\<forall>m. r = Some m \<longrightarrow> h_id m = MSG_ID_BOOT_RESPONSE \<and> int k * 10 < t"
    by blast
  from c Some have hm: "is_response m" and kt: "int k * 10 < t" by (auto simp: is_response_def)
  from kt have "k \<le> rounds t - 1" by (rule rounds_bound)
  then obtain more where "arrivals (rounds t - 1) s = arrivals k s @ more"
    using arrivals_split by blast
  then have "messageQueue s @ arrivals (rounds t - 1) s = ds @ m # (q @ more)"
    using a Some by (simp add: opt_list_def)
  moreover from b have "\<forall>d\<in>set ds. \<not> is_response d"
    by (simp add: not_response_def is_response_def)
  ultimately show ?thesis unfolding awaited_def Some using hm by (simp add: find_first)
qed

lemma bootGetResponse_error:
  assumes run: "bootGetResponse s t = (r, s')"
  shows "m_errorString s' = (if r = None then ''Time out'' else m_errorString s)"
proof -
  from bootGetResponse_result [OF run] obtain k ds q where
    e: "s' = s\<lparr>messageQueue := q, pending := drop k (pending s),
            wasCanceled := (wasCanceled s \<or> cancel_within k s),
            trace := trace s @ map Dropped ds @ map Got (opt_list r),
            m_errorString := (if r = None then ''Time out'' else m_errorString s)\<rparr>"
    by blast
  show ?thesis by (subst e) simp
qed

lemma sendMessage_fields [simp]:
  "messageQueue (sendMessage x s) = messageQueue s"
  "pending (sendMessage x s) = pending s"
  "m_errorString (sendMessage x s) = m_errorString s"
  "wasCanceled (sendMessage x s) = wasCanceled s"
  "trace (sendMessage x s) = trace s @ [Sent x]"
  "progress_value (sendMessage x s) = progress_value s"
  "progress_label (sendMessage x s) = progress_label s"
  by (simp_all add: sendMessage_def)

lemma showProgress_fields [simp]:
  "messageQueue (showProgress v l s) = messageQueue s"
  "pending (showProgress v l s) = pending s"
  "m_errorString (showProgress v l s) = m_errorString s"
  "wasCanceled (showProgress v l s) = wasCanceled s"
  "trace (showProgress v l s) = trace s"
  by (simp_all add: showProgress_def)

lemma awaited_sendMessage [simp]: "awaited t (sendMessage x s) = awaited t s"
  by (simp add: awaited_def arrivals_def)

lemma awaited_showProgress [simp]: "awaited t (showProgress v l s) = awaited t s"
  by (simp add: awaited_def arrivals_def)

lemma rounds_2000: "rounds 2000 = 200"
  by (simp add: rounds_def)

lemma flashStatusStr_other:
  "b = 0 \<or> 9 < b \<Longrightarrow> flashStatusStr b = fmt_d (uint b)"
  unfolding flashStatusStr_def FLASH_BUSY_def FLASH_ERROR_RD_def FLASH_ERROR_PGS_def
    FLASH_ERROR_PGP_def FLASH_ERROR_PGA_def FLASH_ERROR_WRP_def FLASH_ERROR_PROGRAM_def
    FLASH_ERROR_OPERATION_def FLASH_COMPLETE_def
  by auto

section \<open>Erasing a sector\<close>

text \<open>
  Claim C7. \<^verbatim>\<open>bootEraseSector\<close> waits for its response with a timeout of 2000 ms, that
  is 200 polling rounds, whatever the default timeout is. If no response comes in
  that time it fails with \<^verbatim>\<open>Time out\<close>. Otherwise it succeeds iff the first payload byte
  of the response is 9 (\<^verbatim>\<open>FLASH_COMPLETE\<close>); for any other byte it fails and the error
  string names the sector and the status as \<^verbatim>\<open>flashStatusStr\<close> decodes it: the nine
  names for 1 to 9, the decimal number for every other byte.
\<close>

theorem bootEraseSector_status:
  assumes run: "bootEraseSector cfg sector s = (ok, s')"
  shows "(case awaited 2000 s of
            None \<Rightarrow> \<not> ok \<and> m_errorString s' = ''Time out''
          | Some res \<Rightarrow>
              ok = (data res 0 = 9) \<and>
              m_errorString s' =
                (if data res 0 = 9 then m_errorString s
                 else ''Can't erase sector '' @ fmt_d (sint sector) @ '': ''
                        @ flashStatusStr (data res 0))) \<and>
         rounds 2000 = 200 \<and>
         flashStatusStr 1 = ''FLASH_BUSY'' \<and> flashStatusStr 2 = ''FLASH_ERROR_RD'' \<and>
         flashStatusStr 3 = ''FLASH_ERROR_PGS'' \<and> flashStatusStr 4 = ''FLASH_ERROR_PGP'' \<and>
         flashStatusStr 5 = ''FLASH_ERROR_PGA'' \<and> flashStatusStr 6 = ''FLASH_ERROR_WRP'' \<and>
         flashStatusStr 7 = ''FLASH_ERROR_PROGRAM'' \<and>
         flashStatusStr 8 = ''FLASH_ERROR_OPERATION'' \<and> flashStatusStr 9 = ''FLASH_COMPLETE'' \<and>
         (\<forall>b. b = 0 \<or> 9 < b \<longrightarrow> flashStatusStr b = fmt_d (uint b))"
proof -
  obtain r s1 where g: "bootGetResponse (sendMessage (Msg_boot_erase_sector sector) s) 2000 = (r, s1)"
    by (cases "bootGetResponse (sendMessage (Msg_boot_erase_sector sector) s) 2000")
  from bootGetResponse_awaited [OF g] have r: "r = awaited 2000 s" by simp
  from bootGetResponse_error [OF g] have
    e: "m_errorString s1 = (if r = None then ''Time out'' else m_errorString s)" by simp
  have main: "case awaited 2000 s of
            None \<Rightarrow> \<not> ok \<and> m_errorString s' = ''Time out''
          | Some res \<Rightarrow>
              ok = (data res 0 = 9) \<and>
              m_errorString s' =
                (if data res 0 = 9 then m_errorString s
                 else ''Can't erase sector '' @ fmt_d (sint sector) @ '': ''
                        @ flashStatusStr (data res 0))"
  proof (cases r)
    case None
    with run g have "ok = False" "s' = s1" by (simp_all add: bootEraseSector_def)
    with e None r show ?thesis by simp
  next
    case (Some res)
    show ?thesis
    proof (cases "data res 0 = 9")
      case True
      with run g Some have "ok = True" "s' = s1"
        by (simp_all add: bootEraseSector_def FLASH_COMPLETE_def)
      with e Some r [symmetric] True show ?thesis by simp
    next
      case False
      with run g Some have "ok = False" "s' = s1\<lparr>m_errorString :=
          ''Can't erase sector '' @ fmt_d (sint sector) @ '': '' @ flashStatusStr (data res 0)\<rparr>"
        by (simp_all add: bootEraseSector_def FLASH_COMPLETE_def)
      with Some r [symmetric] False show ?thesis by simp
    qed
  qed
  have tab: "flashStatusStr 1 = ''FLASH_BUSY''" "flashStatusStr 2 = ''FLASH_ERROR_RD''"
    "flashStatusStr 3 = ''FLASH_ERROR_PGS''" "flashStatusStr 4 = ''FLASH_ERROR_PGP''"
    "flashStatusStr 5 = ''FLASH_ERROR_PGA''" "flashStatusStr 6 = ''FLASH_ERROR_WRP''"
    "flashStatusStr 7 = ''FLASH_ERROR_PROGRAM''"
    "flashStatusStr 8 = ''FLASH_ERROR_OPERATION''" "flashStatusStr 9 = ''FLASH_COMPLETE''"
    unfolding flashStatusStr_def FLASH_BUSY_def FLASH_ERROR_RD_def FLASH_ERROR_PGS_def
      FLASH_ERROR_PGP_def FLASH_ERROR_PGA_def FLASH_ERROR_WRP_def FLASH_ERROR_PROGRAM_def
      FLASH_ERROR_OPERATION_def FLASH_COMPLETE_def
    by simp_all
  from main tab rounds_2000 flashStatusStr_other show ?thesis by blast
qed

theorem bootEraseSector_status_witness:
  "fst (bootEraseSector sample_cfg 5 (answered 9)) \<and>
   m_errorString (snd (bootEraseSector sample_cfg 5 (answered 9))) = [] \<and>
   \<not> fst (bootEraseSector sample_cfg 5 (answered 1)) \<and>
   m_errorString (snd (bootEraseSector sample_cfg 5 (answered 1))) =
     ''Can't erase sector 5: FLASH_BUSY'' \<and>
   \<not> fst (bootEraseSector sample_cfg 5 idle) \<and>
   m_errorString (snd (bootEraseSector sample_cfg 5 idle)) = ''Time out''"
proof -
  have aw: "awaited 2000 (answered b) = Some (response b)" for b
    by (simp add: awaited_def rounds_2000 arrivals_def answered_def idle_def is_response_def
        response_def)
  have aw0: "awaited 2000 idle = None"
    by (simp add: awaited_def rounds_2000 arrivals_def idle_def)
  have d: "data (response b) 0 = b" for b
    by (simp add: response_def)
  have five: "fmt_d 5 = ''5''"
    by (simp add: fmt_d_def dec_str.simps [of 5] digit_char_def)
  have e: "m_errorString (answered b) = []" for b
    by (simp add: answered_def idle_def)
  from bootEraseSector_status [OF surjective_pairing, of sample_cfg 5 "answered 9"]
  have "fst (bootEraseSector sample_cfg 5 (answered 9)) \<and>
        m_errorString (snd (bootEraseSector sample_cfg 5 (answered 9))) = []"
    by (simp add: aw d e)
  moreover from bootEraseSector_status [OF surjective_pairing, of sample_cfg 5 "answered 1"]
  have "\<not> fst (bootEraseSector sample_cfg 5 (answered 1)) \<and>
        m_errorString (snd (bootEraseSector sample_cfg 5 (answered 1))) =
          ''Can't erase sector 5: FLASH_BUSY''"
    by (simp add: aw d five)
  moreover from bootEraseSector_status [OF surjective_pairing, of sample_cfg 5 idle]
  have "\<not> fst (bootEraseSector sample_cfg 5 idle) \<and>
        m_errorString (snd (bootEraseSector sample_cfg 5 idle)) = ''Time out''"
    by (simp add: aw0)
  ultimately show ?thesis by blast
qed






section \<open>Verifying a region\<close>



section \<open>Writing a region\<close>

declare bootWriteData_loop.simps [simp del]

lemma writes_sent_simps [simp]:
  "writes_sent [] = 0"
  "writes_sent (a @ b) = writes_sent a + writes_sent b"
  "writes_sent (map Dropped ds) = 0"
  "writes_sent (map Got ms) = 0"
  "writes_sent (Sent (Msg_boot_write_data x y) # ev) = Suc (writes_sent ev)"
  "writes_sent (CancelPoll c # ev) = writes_sent ev"
  "writes_sent (Got m # ev) = writes_sent ev"
  "writes_sent (Dropped m # ev) = writes_sent ev"
  by (simp_all add: writes_sent_def filter_map o_def)

lemma acks_taken_simps [simp]:
  "acks_taken [] = 0"
  "acks_taken (a @ b) = acks_taken a + acks_taken b"
  "acks_taken (map Dropped ds) = 0"
  "acks_taken (map Got ms) = length ms"
  "acks_taken (Sent x # ev) = acks_taken ev"
  "acks_taken (CancelPoll c # ev) = acks_taken ev"
  "acks_taken (Got m # ev) = Suc (acks_taken ev)"
  "acks_taken (Dropped m # ev) = acks_taken ev"
  by (simp_all add: acks_taken_def filter_map o_def)

lemma requests_simps [simp]:
  "requests [] = []"
  "requests (a @ b) = requests a @ requests b"
  "requests (map Dropped ds) = []"
  "requests (map Got ms) = []"
  "requests (Sent x # ev) = x # requests ev"
  "requests (CancelPoll c # ev) = requests ev"
  "requests (Got m # ev) = requests ev"
  "requests (Dropped m # ev) = requests ev"
  by (simp_all add: requests_def)

lemma quiet_simps [simp]:
  "quiet []"
  "quiet (a @ b) = (quiet a \<and> quiet b)"
  "quiet (map Dropped ds)"
  "quiet (map Got ms)"
  "quiet (Sent x # ev) = quiet ev"
  "quiet (CancelPoll c # ev) = (\<not> c \<and> quiet ev)"
  "quiet (Got m # ev) = quiet ev"
  "quiet (Dropped m # ev) = quiet ev"
  by (auto simp: quiet_def list_all_iff)

lemma writes_sent_take: "writes_sent (take n ev) \<le> writes_sent ev"
proof -
  have "writes_sent ev = writes_sent (take n ev) + writes_sent (drop n ev)"
    using writes_sent_simps(2) [of "take n ev" "drop n ev"] by simp
  then show ?thesis by simp
qed

text \<open>What a wait adds to the trace and changes in the state.\<close>

lemma bootGetResponse_trace:
  assumes run: "bootGetResponse s t = (r, s')"
  shows "\<exists>ds. trace s' = trace s @ map Dropped ds @ map Got (opt_list r)"
    and "m_errorString s' = (if r = None then ''Time out'' else m_errorString s)"
    and "wasCanceled s \<Longrightarrow> wasCanceled s'"
proof -
  from bootGetResponse_result [OF run] obtain k ds q where
    e: "s' = s\<lparr>messageQueue := q, pending := drop k (pending s),
            wasCanceled := (wasCanceled s \<or> cancel_within k s),
            trace := trace s @ map Dropped ds @ map Got (opt_list r),
            m_errorString := (if r = None then ''Time out'' else m_errorString s)\<rparr>"
    by blast
  have "trace s' = trace s @ map Dropped ds @ map Got (opt_list r)"
    by (subst e) simp
  then show "\<exists>ds. trace s' = trace s @ map Dropped ds @ map Got (opt_list r)" ..
  show "m_errorString s' = (if r = None then ''Time out'' else m_errorString s)"
    by (subst e) simp
  show "wasCanceled s \<Longrightarrow> wasCanceled s'"
    by (subst e) simp
qed

lemma write_send_skip:
  "\<not> i < chunks \<Longrightarrow> write_send cfg addr d chunks i off s = (Proceed, off, s)"
  by (simp add: write_send_def)

lemma write_send_chunk:
  "i < chunks \<Longrightarrow> write_send cfg addr d chunks i off s =
     (if wasCanceled s then Return True else Proceed, off + chunk_size cfg,
      s\<lparr>progress_value := progress_percent off (length d),
        progress_label := ''Writing 0x'' @ fmt_x 8 (unat (addr + of_nat off)),
        trace := trace s @ [Sent (Msg_boot_write_data (addr + of_nat off)
                    (take (chunk_size cfg) (drop off d))), CancelPoll (wasCanceled s)]\<rparr>)"
  by (simp add: write_send_def showProgress_def bootWriteDataAsync_def sendMessage_def
      progressDialog_wasCanceled_def Let_def)

lemma write_ack_skip:
  "\<not> ack_window \<le> i \<Longrightarrow> write_ack cfg addr ack_window i s = (Proceed, s)"
  by (simp add: write_ack_def)

lemma write_ack_wait:
  assumes "ack_window \<le> i" and "write_ack cfg addr ack_window i s = (f, s')"
  shows "\<exists>ds r. trace s' = trace s @ map Dropped ds @ map Got (opt_list r) \<and>
           (f = Proceed \<longrightarrow> (\<exists>res. r = Some res \<and> data res 0 = FLASH_COMPLETE)
              \<and> m_errorString s' = m_errorString s) \<and>
           (f \<noteq> Proceed \<longrightarrow> f = Return False \<and>
              (r = None \<longrightarrow> m_errorString s' = ''Time out'') \<and>
              (\<forall>res. r = Some res \<longrightarrow> data res 0 \<noteq> FLASH_COMPLETE \<and>
                 m_errorString s' = ''Can't write data at 0x'' @ fmt_x 8 (unat addr) @ '': ''
                       @ flashStatusStr (data res 0))) \<and>
           (wasCanceled s \<longrightarrow> wasCanceled s')"
proof -
  obtain r s1 where g: "bootGetResponse s (default_timeout cfg) = (r, s1)"
    by (cases "bootGetResponse s (default_timeout cfg)")
  from bootGetResponse_trace [OF g] obtain ds where
    t: "trace s1 = trace s @ map Dropped ds @ map Got (opt_list r)" and
    e: "m_errorString s1 = (if r = None then ''Time out'' else m_errorString s)" and
    c: "wasCanceled s \<Longrightarrow> wasCanceled s1"
    by blast
  show ?thesis
  proof (cases r)
    case None
    with assms g have "f = Return False" "s' = s1" by (simp_all add: write_ack_def)
    with t e c None show ?thesis by auto
  next
    case (Some res)
    show ?thesis
    proof (cases "data res 0 = FLASH_COMPLETE")
      case True
      with assms g Some have "f = Proceed" "s' = s1" by (simp_all add: write_ack_def)
      with t e c Some True show ?thesis by auto
    next
      case False
      with assms g Some have "f = Return False" "s' = s1\<lparr>m_errorString :=
          ''Can't write data at 0x'' @ fmt_x 8 (unat addr) @ '': '' @ flashStatusStr (data res 0)\<rparr>"
        by (simp_all add: write_ack_def)
      with t c Some False show ?thesis by auto
    qed
  qed
qed

lemma loop_done:
  "\<not> i < chunks + w \<Longrightarrow> bootWriteData_loop cfg addr d chunks w i off s = (True, s)"
  by (simp add: bootWriteData_loop.simps [of cfg addr d chunks w i off s])

lemma loop_step:
  "i < chunks + w \<Longrightarrow> write_send cfg addr d chunks i off s = (f, off1, s1) \<Longrightarrow>
   write_ack cfg addr w i s1 = (g, s2) \<Longrightarrow>
   bootWriteData_loop cfg addr d chunks w i off s =
     (case f of Return b \<Rightarrow> (b, s1)
      | Proceed \<Rightarrow> (case g of Return b \<Rightarrow> (b, s2)
          | Proceed \<Rightarrow> bootWriteData_loop cfg addr d chunks w (i + 1) off1 s2))"
  by (simp add: bootWriteData_loop.simps [of cfg addr d chunks w i off s] split: flow.splits)

lemma loop_induct [case_names step]:
  assumes "\<And>i off s.
     (\<And>off1 s1 s2. i < chunks + w \<Longrightarrow>
        write_send cfg addr d chunks i off s = (Proceed, off1, s1) \<Longrightarrow>
        write_ack cfg addr w i s1 = (Proceed, s2) \<Longrightarrow> P (i + 1) off1 s2) \<Longrightarrow> P i off s"
  shows "P i off s"
proof (induction "chunks + w - i" arbitrary: i off s)
  case 0
  show ?case
    by (rule assms) (use 0 in simp)
next
  case (Suc n)
  show ?case
  proof (rule assms)
    fix off1 s1 s2
    assume "i < chunks + w"
    with Suc.hyps(2) have "n = chunks + w - (i + 1)" by simp
    then show "P (i + 1) off1 s2" by (rule Suc.hyps(1))
  qed
qed

lemma le_add_bound: "(a :: nat) \<le> b + c \<Longrightarrow> a \<le> b + x + c"
  by simp

lemma loop_cases [consumes 2, case_names cancelled failed proceed]:
  assumes lt: "i < chunks + w" and run: "bootWriteData_loop cfg addr d chunks w i off s = (r, s')"
  obtains
    "i < chunks" "wasCanceled s" "r" "wasCanceled s'"
      "trace s' = trace s @ [Sent (Msg_boot_write_data (addr + of_nat off)
          (take (chunk_size cfg) (drop off d))), CancelPoll True]"
  | ds rr where "w \<le> i" "\<not> r"
      "trace s' = trace s @ send_events cfg addr d chunks i off
          @ map Dropped ds @ map Got (opt_list rr)"
      "rr = None \<longrightarrow> m_errorString s' = ''Time out''"
      "\<forall>res. rr = Some res \<longrightarrow> data res 0 \<noteq> FLASH_COMPLETE \<and>
          m_errorString s' = ''Can't write data at 0x'' @ fmt_x 8 (unat addr) @ '': ''
                       @ flashStatusStr (data res 0)"
  | off1 s1 s2 ds gs where
      "write_send cfg addr d chunks i off s = (Proceed, off1, s1)"
      "write_ack cfg addr w i s1 = (Proceed, s2)"
      "bootWriteData_loop cfg addr d chunks w (i + 1) off1 s2 = (r, s')"
      "trace s2 = trace s @ send_events cfg addr d chunks i off @ map Dropped ds @ map Got gs"
      "length gs = (if w \<le> i then 1 else 0)"
      "\<forall>g\<in>set gs. data g 0 = FLASH_COMPLETE"
      "off1 = (if i < chunks then off + chunk_size cfg else off)"
proof -
  obtain f off1 s1 where ws: "write_send cfg addr d chunks i off s = (f, off1, s1)"
    by (cases "write_send cfg addr d chunks i off s")
  obtain g s2 where wa: "write_ack cfg addr w i s1 = (g, s2)"
    by (cases "write_ack cfg addr w i s1")
  note step = loop_step [OF lt ws wa]
  show thesis
  proof (cases "i < chunks \<and> wasCanceled s")
    case True
    with ws have f: "f = Return True" and s1: "s1 = s\<lparr>progress_value := progress_percent off (length d),
        progress_label := ''Writing 0x'' @ fmt_x 8 (unat (addr + of_nat off)),
        trace := trace s @ [Sent (Msg_boot_write_data (addr + of_nat off)
                    (take (chunk_size cfg) (drop off d))), CancelPoll (wasCanceled s)]\<rparr>"
      by (simp_all add: write_send_chunk)
    from step run f have "r" "s' = s1" by simp_all
    with True s1 show thesis by (intro that(1)) simp_all
  next
    case False
    have "f = Proceed \<and> off1 = (if i < chunks then off + chunk_size cfg else off)
        \<and> trace s1 = trace s @ send_events cfg addr d chunks i off"
    proof (cases "i < chunks")
      case True
      with False have nc: "\<not> wasCanceled s" by simp
      from ws have "(f, off1, s1) = write_send cfg addr d chunks i off s" by simp
      also note write_send_chunk [OF True]
      finally show ?thesis using nc True by (simp add: send_events_def)
    next
      case False
      from ws have "(f, off1, s1) = write_send cfg addr d chunks i off s" by simp
      also note write_send_skip [OF False]
      finally show ?thesis using False by (simp add: send_events_def)
    qed
    then have f: "f = Proceed" and off1: "off1 = (if i < chunks then off + chunk_size cfg else off)"
      and t1: "trace s1 = trace s @ send_events cfg addr d chunks i off"
      by blast+
    show thesis
    proof (cases "w \<le> i")
      case nowait: False
      with wa have g: "g = Proceed" "s2 = s1" by (simp_all add: write_ack_skip)
      show thesis
        by (rule that(3) [of off1 s1 s2 "[]" "[]"])
          (use ws wa f g step run t1 off1 nowait in simp_all)
    next
      case wait: True
      from write_ack_wait [OF wait wa] obtain ds rr where
        t2: "trace s2 = trace s1 @ map Dropped ds @ map Got (opt_list rr)" and
        ok: "g = Proceed \<longrightarrow> (\<exists>res. rr = Some res \<and> data res 0 = FLASH_COMPLETE)
              \<and> m_errorString s2 = m_errorString s1" and
        bad: "g \<noteq> Proceed \<longrightarrow> g = Return False \<and>
              (rr = None \<longrightarrow> m_errorString s2 = ''Time out'') \<and>
              (\<forall>res. rr = Some res \<longrightarrow> data res 0 \<noteq> FLASH_COMPLETE \<and>
                 m_errorString s2 = ''Can't write data at 0x'' @ fmt_x 8 (unat addr) @ '': ''
                       @ flashStatusStr (data res 0))"
        by blast
      show thesis
      proof (cases "g = Proceed")
        case True
        with ok obtain res where rr: "rr = Some res" "data res 0 = FLASH_COMPLETE" by blast
        show thesis
          by (rule that(3) [of off1 s1 s2 ds "[res]"])
            (use ws wa f True step run t1 t2 off1 wait rr in \<open>simp_all add: opt_list_def\<close>)
      next
        case False
        with bad have g: "g = Return False" by blast
        from step run f g have "\<not> r" "s' = s2" by simp_all
        with wait t1 t2 bad False show thesis
          by (intro that(2) [of ds rr]) simp_all
      qed
    qed
  qed
qed

lemma loop_outstanding:
  assumes "w \<le> chunks" and "bootWriteData_loop cfg addr d chunks w i off s = (r, s')"
  shows "\<exists>ev. trace s' = trace s @ ev \<and>
           (\<forall>n. min i chunks + writes_sent (take n ev)
                  \<le> (i - w) + acks_taken (take n ev) + min chunks (w + 1))"
  using assms(2)
proof (induction i off s rule: loop_induct [where chunks = chunks and w = w and cfg = cfg
        and addr = addr and d = d])
  case (step i off s)
  show ?case
  proof (cases "i < chunks + w")
    case False
    with step.prems have "s' = s" by (simp add: loop_done)
    with False assms(1) show ?thesis by (intro exI [of _ "[]"]) simp
  next
    case True
    have first: "min i chunks + writes_sent (take n (send_events cfg addr d chunks i off @ ev))
        \<le> (i - w) + acks_taken (take n (send_events cfg addr d chunks i off @ ev))
            + min chunks (w + 1)" if "writes_sent ev = 0" for n ev
    proof -
      have "writes_sent (take n (send_events cfg addr d chunks i off @ ev))
          \<le> writes_sent (send_events cfg addr d chunks i off @ ev)"
        by (rule writes_sent_take)
      also have "\<dots> = (if i < chunks then 1 else 0)"
        using that by (simp add: send_events_def)
      finally have "min i chunks + writes_sent (take n (send_events cfg addr d chunks i off @ ev))
          \<le> (i - w) + min chunks (w + 1)"
        using assms(1) by (simp split: if_splits)
      then show ?thesis by (rule le_add_bound)
    qed
    from True step.prems show ?thesis
    proof (cases rule: loop_cases)
      case cancelled
      have "min i chunks + writes_sent (take n [Sent (Msg_boot_write_data (addr + of_nat off)
          (take (chunk_size cfg) (drop off d))), CancelPoll True])
        \<le> (i - w) + min chunks (w + 1)" for n
      proof -
        have "writes_sent (take n [Sent (Msg_boot_write_data (addr + of_nat off)
          (take (chunk_size cfg) (drop off d))), CancelPoll True]) \<le> 1"
          using writes_sent_take [of n "[Sent (Msg_boot_write_data (addr + of_nat off)
          (take (chunk_size cfg) (drop off d))), CancelPoll True]"] by simp
        with cancelled(1) assms(1) show ?thesis by simp
      qed
      then have "\<forall>n. min i chunks + writes_sent (take n [Sent (Msg_boot_write_data (addr + of_nat off)
          (take (chunk_size cfg) (drop off d))), CancelPoll True])
        \<le> (i - w) + acks_taken (take n [Sent (Msg_boot_write_data (addr + of_nat off)
          (take (chunk_size cfg) (drop off d))), CancelPoll True]) + min chunks (w + 1)"
        using le_add_bound by blast
      with cancelled(5) show ?thesis by blast
    next
      case (failed ds rr)
      have "\<forall>n. min i chunks + writes_sent (take n (send_events cfg addr d chunks i off
            @ map Dropped ds @ map Got (opt_list rr)))
        \<le> (i - w) + acks_taken (take n (send_events cfg addr d chunks i off
            @ map Dropped ds @ map Got (opt_list rr))) + min chunks (w + 1)"
        by (intro allI first) simp
      with failed(3) show ?thesis by blast
    next
      case (proceed off1 s1 s2 ds gs)
      define evi where "evi = send_events cfg addr d chunks i off @ map Dropped ds @ map Got gs"
      from step.IH [OF True proceed(1) proceed(2) proceed(3)] obtain ev where
        tr: "trace s' = trace s2 @ ev" and
        ih: "\<forall>n. min (i + 1) chunks + writes_sent (take n ev)
                  \<le> (i + 1 - w) + acks_taken (take n ev) + min chunks (w + 1)"
        by blast
      have wi: "writes_sent evi = (if i < chunks then 1 else 0)"
        by (simp add: evi_def send_events_def)
      have ai: "acks_taken evi = (if w \<le> i then 1 else 0)"
        using proceed(5) by (simp add: evi_def send_events_def)
      have pre: "min i chunks + writes_sent (take n evi)
            \<le> (i - w) + acks_taken (take n evi) + min chunks (w + 1)" for n
        unfolding evi_def by (intro first) simp
      have "min i chunks + writes_sent (take n (evi @ ev))
          \<le> (i - w) + acks_taken (take n (evi @ ev)) + min chunks (w + 1)" for n
      proof (cases "n \<le> length evi")
        case True
        then have eq: "take n (evi @ ev) = take n evi" by simp
        show ?thesis unfolding eq by (rule pre)
      next
        case False
        then have eq: "take n (evi @ ev) = evi @ take (n - length evi) ev" by simp
        have "writes_sent (take n (evi @ ev))
              = writes_sent evi + writes_sent (take (n - length evi) ev)"
          and "acks_taken (take n (evi @ ev))
              = acks_taken evi + acks_taken (take (n - length evi) ev)"
          unfolding eq by simp_all
        with ih [rule_format, of "n - length evi"] wi ai show ?thesis
          by (simp split: if_splits)
      qed
      moreover have "trace s' = trace s @ evi @ ev"
        using tr proceed(4) by (simp add: evi_def)
      ultimately show ?thesis by blast
    qed
  qed
qed

lemma no_bad_ack_simps [simp]:
  "\<not> is_bad_ack (Dropped m)" "\<not> is_bad_ack (Sent x)" "\<not> is_bad_ack (CancelPoll c)"
  by simp_all

lemma send_events_facts [simp]:
  "quiet (send_events cfg addr d chunks i off)"
  "acks_taken (send_events cfg addr d chunks i off) = 0"
  "writes_sent (send_events cfg addr d chunks i off) = (if i < chunks then 1 else 0)"
  "length (filter is_poll (send_events cfg addr d chunks i off)) = (if i < chunks then 1 else 0)"
  "e \<in> set (send_events cfg addr d chunks i off) \<Longrightarrow> \<not> is_bad_ack e"
  by (auto simp: send_events_def)

lemma filter_is_poll_map [simp]:
  "filter is_poll (map Dropped ds) = []" "filter is_poll (map Got gs) = []"
  by (simp_all add: filter_map o_def)

lemma loop_complete:
  assumes run: "bootWriteData_loop cfg addr d chunks w i off s = (True, s')"
    and nc: "\<not> wasCanceled s'" and inv: "off = min i chunks * chunk_size cfg"
  shows "\<exists>ev. trace s' = trace s @ ev \<and>
           requests ev = map (chunk_request cfg addr d) [min i chunks..<chunks] \<and>
           acks_taken ev = (chunks + w) - max i w \<and> quiet ev \<and>
           (\<forall>e\<in>set ev. \<not> is_bad_ack e) \<and> writes_sent ev = chunks - min i chunks"
  using run inv
proof (induction i off s rule: loop_induct [where chunks = chunks and w = w and cfg = cfg
        and addr = addr and d = d])
  case (step i off s)
  show ?case
  proof (cases "i < chunks + w")
    case False
    with step.prems have "s' = s" by (simp add: loop_done)
    with False show ?thesis by (intro exI [of _ "[]"]) simp
  next
    case True
    from True step.prems(1) show ?thesis
    proof (cases rule: loop_cases)
      case cancelled
      with nc show ?thesis by simp
    next
      case (failed ds rr)
      then show ?thesis by simp
    next
      case (proceed off1 s1 s2 ds gs)
      define evi where "evi = send_events cfg addr d chunks i off @ map Dropped ds @ map Got gs"
      have inv1: "off1 = min (i + 1) chunks * chunk_size cfg"
        using proceed(7) step.prems(2) by (simp add: min_def)
      from step.IH [OF True proceed(1) proceed(2) proceed(3) inv1] obtain ev where
        tr: "trace s' = trace s2 @ ev" and
        rq: "requests ev = map (chunk_request cfg addr d) [min (i + 1) chunks..<chunks]" and
        ak: "acks_taken ev = (chunks + w) - max (i + 1) w" and
        qu: "quiet ev" and nb: "\<forall>e\<in>set ev. \<not> is_bad_ack e" and
        wr: "writes_sent ev = chunks - min (i + 1) chunks"
        by blast
      have "requests (evi @ ev) = map (chunk_request cfg addr d) [min i chunks..<chunks]"
      proof (cases "i < chunks")
        case True
        then have m: "min i chunks = i" "min (i + 1) chunks = Suc i" by simp_all
        from True step.prems(2) have "requests evi = [chunk_request cfg addr d i]"
          by (simp add: evi_def send_events_def chunk_request_def)
        moreover from True have "[i..<chunks] = i # [Suc i..<chunks]"
          by (rule upt_conv_Cons)
        ultimately show ?thesis using rq unfolding m by simp
      next
        case False
        then have m: "min i chunks = chunks" "min (i + 1) chunks = chunks" by simp_all
        from False have "requests evi = []" by (simp add: evi_def send_events_def)
        then show ?thesis using rq unfolding m by simp
      qed
      moreover have "acks_taken (evi @ ev) = (chunks + w) - max i w"
      proof -
        have "acks_taken evi = (if w \<le> i then 1 else 0)"
          using proceed(5) by (simp add: evi_def)
        then have "acks_taken (evi @ ev) = (if w \<le> i then 1 else 0) + ((chunks + w) - max (i + 1) w)"
          using ak by simp
        also have "\<dots> = (chunks + w) - max i w"
          using True by (simp add: max_def) arith
        finally show ?thesis .
      qed
      moreover have "quiet (evi @ ev)"
        using qu by (simp add: evi_def)
      moreover have "\<forall>e\<in>set (evi @ ev). \<not> is_bad_ack e"
        using nb proceed(6) by (auto simp: evi_def)
      moreover have "writes_sent (evi @ ev) = chunks - min i chunks"
        using wr by (simp add: evi_def min_def)
      moreover have "trace s' = trace s @ evi @ ev"
        using tr proceed(4) by (simp add: evi_def)
      ultimately show ?thesis by blast
    qed
  qed
qed

lemma ack_shape_append:
  "\<forall>e\<in>set evi. \<not> is_bad_ack e \<Longrightarrow> ack_shape addr r s' ev \<Longrightarrow> ack_shape addr r s' (evi @ ev)"
  unfolding ack_shape_def
  apply (erule disjE)
   apply (rule disjI1, simp, blast)
  apply (rule disjI2)
  apply (elim exE conjE)
  subgoal for pre m
    apply (rule exI [of _ "evi @ pre"], rule exI [of _ m])
    apply auto
    done
  done

lemma cancel_shape_append:
  "quiet evi \<Longrightarrow> cancel_shape r s' ev \<Longrightarrow> cancel_shape r s' (evi @ ev)"
  unfolding cancel_shape_def
  apply (erule disjE)
   apply (rule disjI1, simp)
  apply (rule disjI2)
  apply (elim exE conjE)
  subgoal for pre
    apply (rule exI [of _ "evi @ pre"])
    apply simp
    done
  done

lemma loop_shape:
  assumes run: "bootWriteData_loop cfg addr d chunks w i off s = (r, s')"
  shows "\<exists>ev. trace s' = trace s @ ev \<and> ack_shape addr r s' ev \<and> cancel_shape r s' ev \<and>
           length (filter is_poll ev) = writes_sent ev \<and>
           (\<forall>x\<in>set (requests ev). \<exists>a c. x = Msg_boot_write_data a c)"
  using run
proof (induction i off s rule: loop_induct [where chunks = chunks and w = w and cfg = cfg
        and addr = addr and d = d])
  case (step i off s)
  show ?case
  proof (cases "i < chunks + w")
    case False
    with step.prems have "s' = s" by (simp add: loop_done)
    then show ?thesis
      by (intro exI [of _ "[]"]) (simp add: ack_shape_def cancel_shape_def)
  next
    case True
    from True step.prems(1) show ?thesis
    proof (cases rule: loop_cases)
      case cancelled
      let ?ev = "[Sent (Msg_boot_write_data (addr + of_nat off)
          (take (chunk_size cfg) (drop off d))), CancelPoll True]"
      have "ack_shape addr r s' ?ev" by (simp add: ack_shape_def)
      moreover have "cancel_shape r s' ?ev"
        unfolding cancel_shape_def using cancelled(3,4)
        by (intro disjI2 exI [of _ "[Sent (Msg_boot_write_data (addr + of_nat off)
          (take (chunk_size cfg) (drop off d)))]"]) simp
      moreover have "length (filter is_poll ?ev) = writes_sent ?ev" by simp
      moreover have "\<forall>x\<in>set (requests ?ev). \<exists>a c. x = Msg_boot_write_data a c" by simp
      ultimately show ?thesis using cancelled(5) by blast
    next
      case (failed ds rr)
      define ev where "ev = send_events cfg addr d chunks i off
          @ map Dropped ds @ map Got (opt_list rr)"
      have "ack_shape addr r s' ev"
      proof (cases rr)
        case None
        then show ?thesis by (auto simp: ack_shape_def ev_def opt_list_def)
      next
        case (Some res)
        with failed(5) have bad: "data res 0 \<noteq> FLASH_COMPLETE" and
          er: "m_errorString s' = ''Can't write data at 0x'' @ fmt_x 8 (unat addr) @ '': ''
                       @ flashStatusStr (data res 0)"
          by blast+
        show ?thesis
          unfolding ack_shape_def
          apply (rule disjI2)
          apply (rule exI [of _ "send_events cfg addr d chunks i off @ map Dropped ds"])
          apply (rule exI [of _ res])
          using bad er failed(2) Some
          apply (auto simp: ev_def opt_list_def)
          done
      qed
      moreover have "cancel_shape r s' ev"
        by (simp add: cancel_shape_def ev_def)
      moreover have "length (filter is_poll ev) = writes_sent ev"
        by (simp add: ev_def)
      moreover have "\<forall>x\<in>set (requests ev). \<exists>a c. x = Msg_boot_write_data a c"
        by (simp add: ev_def send_events_def)
      moreover have "trace s' = trace s @ ev"
        using failed(3) by (simp add: ev_def)
      ultimately show ?thesis by blast
    next
      case (proceed off1 s1 s2 ds gs)
      define evi where "evi = send_events cfg addr d chunks i off @ map Dropped ds @ map Got gs"
      from step.IH [OF True proceed(1) proceed(2) proceed(3)] obtain ev where
        tr: "trace s' = trace s2 @ ev" and
        as: "ack_shape addr r s' ev" and cs: "cancel_shape r s' ev" and
        pl: "length (filter is_poll ev) = writes_sent ev" and
        rq: "\<forall>x\<in>set (requests ev). \<exists>a c. x = Msg_boot_write_data a c"
        by blast
      have good: "\<forall>e\<in>set evi. \<not> is_bad_ack e"
        using proceed(6) by (auto simp: evi_def)
      have q: "quiet evi" by (simp add: evi_def)
      have "ack_shape addr r s' (evi @ ev)"
        using good as by (rule ack_shape_append)
      moreover have "cancel_shape r s' (evi @ ev)"
        using q cs by (rule cancel_shape_append)
      moreover have "length (filter is_poll (evi @ ev)) = writes_sent (evi @ ev)"
        using pl by (simp add: evi_def)
      moreover have "\<forall>x\<in>set (requests (evi @ ev)). \<exists>a c. x = Msg_boot_write_data a c"
        using rq by (auto simp: evi_def send_events_def)
      moreover have "trace s' = trace s @ evi @ ev"
        using tr proceed(4) by (simp add: evi_def)
      ultimately show ?thesis by blast
    qed
  qed
qed

lemma loop_send_only:
  assumes "i < chunks" "i < w" "\<not> wasCanceled s"
  shows "bootWriteData_loop cfg addr d chunks w i off s =
     bootWriteData_loop cfg addr d chunks w (Suc i) (off + chunk_size cfg)
       (s\<lparr>progress_value := progress_percent off (length d),
          progress_label := ''Writing 0x'' @ fmt_x 8 (unat (addr + of_nat off)),
          trace := trace s @ [Sent (Msg_boot_write_data (addr + of_nat off)
                    (take (chunk_size cfg) (drop off d))), CancelPoll False]\<rparr>)"
proof -
  from assms have lt: "i < chunks + w" by simp
  from assms have ws: "write_send cfg addr d chunks i off s = (Proceed, off + chunk_size cfg,
      s\<lparr>progress_value := progress_percent off (length d),
          progress_label := ''Writing 0x'' @ fmt_x 8 (unat (addr + of_nat off)),
          trace := trace s @ [Sent (Msg_boot_write_data (addr + of_nat off)
                    (take (chunk_size cfg) (drop off d))), CancelPoll False]\<rparr>)"
    by (simp add: write_send_chunk)
  from assms have wa: "write_ack cfg addr w i s1 = (Proceed, s1)" for s1
    by (simp add: write_ack_skip)
  show ?thesis
    using loop_step [OF lt ws wa] by simp
qed

lemma loop_first_send:
  assumes "i < chunks" "\<not> wasCanceled s"
    and run: "bootWriteData_loop cfg addr d chunks w i off s = (r, s')"
  shows "\<exists>ev. trace s' = trace s @ [Sent (Msg_boot_write_data (addr + of_nat off)
                    (take (chunk_size cfg) (drop off d))), CancelPoll False] @ ev"
proof -
  from assms(1) have lt: "i < chunks + w" by simp
  from lt run show ?thesis
  proof (cases rule: loop_cases)
    case cancelled
    with assms(2) show ?thesis by simp
  next
    case (failed ds rr)
    with assms(1) show ?thesis by (simp add: send_events_def)
  next
    case (proceed off1 s1 s2 ds gs)
    from loop_shape [OF proceed(3)] obtain ev where "trace s' = trace s2 @ ev" by blast
    with proceed(4) assms(1) show ?thesis by (simp add: send_events_def)
  qed
qed

lemma loop_sends_first:
  "i + k \<le> w \<Longrightarrow> i + k \<le> chunks \<Longrightarrow> \<not> wasCanceled s \<Longrightarrow>
   \<exists>sk ev. bootWriteData_loop cfg addr d chunks w i off s =
             bootWriteData_loop cfg addr d chunks w (i + k) (off + k * chunk_size cfg) sk \<and>
           \<not> wasCanceled sk \<and> trace sk = trace s @ ev \<and>
           writes_sent ev = k \<and> acks_taken ev = 0 \<and> length ev = 2 * k"
proof (induction k arbitrary: i off s)
  case 0
  then show ?case by (intro exI [of _ s] exI [of _ "[]"]) simp
next
  case (Suc k)
  let ?s1 = "s\<lparr>progress_value := progress_percent off (length d),
          progress_label := ''Writing 0x'' @ fmt_x 8 (unat (addr + of_nat off)),
          trace := trace s @ [Sent (Msg_boot_write_data (addr + of_nat off)
                    (take (chunk_size cfg) (drop off d))), CancelPoll False]\<rparr>"
  from Suc.prems have one: "bootWriteData_loop cfg addr d chunks w i off s =
      bootWriteData_loop cfg addr d chunks w (Suc i) (off + chunk_size cfg) ?s1"
    by (intro loop_send_only) simp_all
  from Suc.prems have "Suc i + k \<le> w" "Suc i + k \<le> chunks" "\<not> wasCanceled ?s1" by simp_all
  from Suc.IH [OF this, of "off + chunk_size cfg"] obtain sk ev where
    a: "bootWriteData_loop cfg addr d chunks w (Suc i) (off + chunk_size cfg) ?s1 =
          bootWriteData_loop cfg addr d chunks w (Suc i + k)
            (off + chunk_size cfg + k * chunk_size cfg) sk" and
    b: "\<not> wasCanceled sk" "trace sk = trace ?s1 @ ev" "writes_sent ev = k"
       "acks_taken ev = 0" "length ev = 2 * k"
    by blast
  show ?case
    apply (rule exI [of _ sk])
    apply (rule exI [of _ "[Sent (Msg_boot_write_data (addr + of_nat off)
                    (take (chunk_size cfg) (drop off d))), CancelPoll False] @ ev"])
    using one a b by (simp add: add.assoc add.commute)
qed

lemma bootGetResponse_next:
  assumes "messageQueue s = []" "pending s = ([m], c) # rest" "h_id m = MSG_ID_BOOT_RESPONSE"
    "10 < t"
  shows "bootGetResponse s t =
     (Some m, s\<lparr>messageQueue := [], wasCanceled := (wasCanceled s \<or> c), pending := rest,
                trace := trace s @ [Got m]\<rparr>)"
proof -
  have d1: "dequeue_loop s = (None, s)"
    using assms(1) by (simp add: dequeue_loop.simps [of s])
  let ?s1 = "processEvents s"
  have pe: "?s1 = s\<lparr>messageQueue := [m], wasCanceled := (wasCanceled s \<or> c), pending := rest\<rparr>"
    using assms(1,2) by (simp add: processEvents_def)
  have d2: "dequeue_loop ?s1 = (Some m, s\<lparr>messageQueue := [],
      wasCanceled := (wasCanceled s \<or> c), pending := rest, trace := trace s @ [Got m]\<rparr>)"
    unfolding pe using assms(3) by (simp add: dequeue_loop.simps [of "s\<lparr>messageQueue := [m],
      wasCanceled := (wasCanceled s \<or> c), pending := rest\<rparr>"])
  from assms(4) have t: "0 < t" "0 < t - 10" by simp_all
  show ?thesis
    using t d1 d2 by (simp add: bootGetResponse.simps [of s t] bootGetResponse.simps [of ?s1 "t - 10"])
qed

lemma loop_ack_only:
  assumes "\<not> i < chunks" "w \<le> i" "i < chunks + w"
    and "bootGetResponse s (default_timeout cfg) = (Some m, s1)"
  shows "bootWriteData_loop cfg addr d chunks w i off s =
     (if data m 0 \<noteq> FLASH_COMPLETE
      then (False, s1\<lparr>m_errorString :=
                     ''Can't write data at 0x'' @ fmt_x 8 (unat addr) @ '': ''
                       @ flashStatusStr (data m 0)\<rparr>)
      else bootWriteData_loop cfg addr d chunks w (Suc i) off s1)"
proof -
  have ws: "write_send cfg addr d chunks i off s = (Proceed, off, s)"
    using assms(1) by (rule write_send_skip)
  obtain g s2 where wa: "write_ack cfg addr w i s = (g, s2)"
    by (cases "write_ack cfg addr w i s")
  from wa assms(2,4) have
    "(g, s2) = (if data m 0 \<noteq> FLASH_COMPLETE
      then (Return False, s1\<lparr>m_errorString :=
                     ''Can't write data at 0x'' @ fmt_x 8 (unat addr) @ '': ''
                       @ flashStatusStr (data m 0)\<rparr>)
      else (Proceed, s1))"
    by (simp add: write_ack_def)
  with loop_step [OF assms(3) ws wa] show ?thesis
    by (simp split: if_splits)
qed

lemma loop_succeeds:
  assumes dt: "10 < default_timeout cfg"
  shows "messageQueue s = [] \<Longrightarrow> \<not> wasCanceled s \<Longrightarrow>
     pending s = replicate ((chunks + w) - max i w) ([response 9], False) @ rest \<Longrightarrow>
     \<exists>s'. bootWriteData_loop cfg addr d chunks w i off s = (True, s') \<and>
          messageQueue s' = [] \<and> \<not> wasCanceled s' \<and> pending s' = rest \<and>
          m_errorString s' = m_errorString s"
proof (induction i off s rule: loop_induct [where chunks = chunks and w = w and cfg = cfg
        and addr = addr and d = d])
  case (step i off s)
  show ?case
  proof (cases "i < chunks + w")
    case False
    then have "(chunks + w) - max i w = 0" by simp
    with step.prems False show ?thesis by (simp add: loop_done)
  next
    case True
    obtain off1 s1 where ws: "write_send cfg addr d chunks i off s = (Proceed, off1, s1)"
      and q1: "messageQueue s1 = []" and c1: "\<not> wasCanceled s1" and p1: "pending s1 = pending s"
      and e1: "m_errorString s1 = m_errorString s"
      using step.prems(2,1)
      by (cases "i < chunks") (simp_all add: write_send_chunk write_send_skip)
    have "\<exists>s2. write_ack cfg addr w i s1 = (Proceed, s2) \<and> messageQueue s2 = [] \<and>
        \<not> wasCanceled s2 \<and>
        pending s2 = replicate ((chunks + w) - max (i + 1) w) ([response 9], False) @ rest \<and>
        m_errorString s2 = m_errorString s"
    proof (cases "w \<le> i")
      case False
      then have "max i w = w" "max (i + 1) w = w" by simp_all
      with False q1 c1 p1 e1 step.prems(3) show ?thesis by (simp add: write_ack_skip)
    next
      case wait: True
      define k where "k = (chunks + w) - max (i + 1) w"
      from wait True have "(chunks + w) - max i w = Suc k"
        by (simp add: max_def k_def)
      with step.prems(3) p1 have "pending s1 = replicate (Suc k) ([response 9], False) @ rest"
        by simp
      then have p: "pending s1 = ([response 9], False) #
          (replicate ((chunks + w) - max (i + 1) w) ([response 9], False) @ rest)"
        by (simp add: k_def)
      have "h_id (response 9) = MSG_ID_BOOT_RESPONSE" by (simp add: response_def)
      from bootGetResponse_next [OF q1 p this dt]
      have g: "bootGetResponse s1 (default_timeout cfg) =
         (Some (response 9), s1\<lparr>messageQueue := [], wasCanceled := (wasCanceled s1 \<or> False),
            pending := replicate ((chunks + w) - max (i + 1) w) ([response 9], False) @ rest,
            trace := trace s1 @ [Got (response 9)]\<rparr>)" .
      have "data (response 9) 0 = FLASH_COMPLETE"
        by (simp add: response_def FLASH_COMPLETE_def)
      with wait g c1 e1 show ?thesis by (simp add: write_ack_def)
    qed
    then obtain s2 where wa: "write_ack cfg addr w i s1 = (Proceed, s2)"
      and q2: "messageQueue s2 = []" and c2: "\<not> wasCanceled s2"
      and p2: "pending s2 = replicate ((chunks + w) - max (i + 1) w) ([response 9], False) @ rest"
      and e2: "m_errorString s2 = m_errorString s"
      by blast
    from step.IH [OF True ws wa q2 c2 p2] loop_step [OF True ws wa] e2 show ?thesis by simp
  qed
qed

lemma bootWriteData_succeeds:
  assumes "10 < default_timeout cfg" "messageQueue s = []" "\<not> wasCanceled s"
    "pending s = replicate (chunk_count cfg d) ([response 9], False) @ rest"
  shows "\<exists>s'. bootWriteData cfg addr d s = (True, s') \<and>
          messageQueue s' = [] \<and> \<not> wasCanceled s' \<and> pending s' = rest \<and>
          m_errorString s' = m_errorString s"
proof -
  let ?c = "chunk_count cfg d"
  have "(?c + min ?c 10) - max 0 (min ?c 10) = ?c" by simp
  with assms(4) have "pending s =
      replicate ((?c + min ?c 10) - max 0 (min ?c 10)) ([response 9], False) @ rest" by simp
  from loop_succeeds [OF assms(1,2,3) this, of addr d 0] show ?thesis
    by (simp add: bootWriteData_def chunk_count_def Let_def)
qed

text \<open>
  The schedule of the window: the response number \<open>j\<close> (counted from 0) of a run of the
  loop from step \<open>i\<close> is taken when \<open>min chunks (max i w + j + 1)\<close> chunks have been sent.
\<close>

lemma sent_before_acks_append:
  "sent_before_acks n (a @ b) = sent_before_acks n a @ sent_before_acks (n + writes_sent a) b"
proof (induction a arbitrary: n)
  case Nil
  show ?case by simp
next
  case (Cons e a)
  then show ?case by (cases e rule: is_write.cases) (simp_all add: writes_sent_def)
qed

lemma sent_before_acks_simps [simp]:
  "sent_before_acks n (map Dropped ds) = []"
  "sent_before_acks n (map Got gs) = replicate (length gs) n"
  "sent_before_acks n (send_events cfg addr d chunks i off) = []"
  by (induction ds, simp_all) (induction gs, simp_all add: send_events_def)

lemma loop_window:
  assumes "w \<le> chunks" and "bootWriteData_loop cfg addr d chunks w i off s = (r, s')"
  shows "\<exists>ev. trace s' = trace s @ ev \<and>
           sent_before_acks (min i chunks) ev =
             map (\<lambda>j. min chunks (max i w + j + 1)) [0..<acks_taken ev]"
  using assms(2)
proof (induction i off s rule: loop_induct [where chunks = chunks and w = w and cfg = cfg
        and addr = addr and d = d])
  case (step i off s)
  show ?case
  proof (cases "i < chunks + w")
    case False
    with step.prems have "s' = s" by (simp add: loop_done)
    then show ?thesis by (intro exI [of _ "[]"]) simp
  next
    case True
    have sent: "min i chunks + writes_sent (send_events cfg addr d chunks i off) =
        min (i + 1) chunks"
      by simp
    from True step.prems show ?thesis
    proof (cases rule: loop_cases)
      case cancelled
      then show ?thesis
        by (intro exI [of _ "[Sent (Msg_boot_write_data (addr + of_nat off)
          (take (chunk_size cfg) (drop off d))), CancelPoll True]"]) simp
    next
      case (failed ds rr)
      let ?ev = "send_events cfg addr d chunks i off @ map Dropped ds @ map Got (opt_list rr)"
      have "sent_before_acks (min i chunks) ?ev =
          map (\<lambda>j. min chunks (max i w + j + 1)) [0..<acks_taken ?ev]"
        using failed(1) sent
        by (cases rr) (simp_all add: sent_before_acks_append opt_list_def min.commute max_def)
      with failed(3) show ?thesis by blast
    next
      case (proceed off1 s1 s2 ds gs)
      define evi where "evi = send_events cfg addr d chunks i off @ map Dropped ds @ map Got gs"
      from step.IH [OF True proceed(1) proceed(2) proceed(3)] obtain ev where
        tr: "trace s' = trace s2 @ ev" and
        ih: "sent_before_acks (min (i + 1) chunks) ev =
             map (\<lambda>j. min chunks (max (i + 1) w + j + 1)) [0..<acks_taken ev]"
        by blast
      have a: "acks_taken evi = length gs" "min i chunks + writes_sent evi = min (i + 1) chunks"
        using sent by (simp_all add: evi_def)
      have b: "sent_before_acks (min i chunks) evi = replicate (length gs) (min (i + 1) chunks)"
        using sent by (simp add: evi_def sent_before_acks_append)
      have "sent_before_acks (min i chunks) (evi @ ev) =
          map (\<lambda>j. min chunks (max i w + j + 1)) [0..<acks_taken (evi @ ev)]"
      proof (cases "w \<le> i")
        case True
        with proceed(5) obtain g where gs: "gs = [g]" by (cases gs) auto
        from True have m: "max (i + 1) w = Suc i" "max i w = i" by simp_all
        have "map (\<lambda>j. min chunks (max i w + j + 1)) [0..<Suc (acks_taken ev)] =
            min chunks (i + 1) # map (\<lambda>j. min chunks (Suc i + j + 1)) [0..<acks_taken ev]"
          unfolding map_upt_Suc m by simp
        then show ?thesis
          using a b ih gs m by (simp add: sent_before_acks_append min.commute)
      next
        case False
        with proceed(5) have gs: "gs = []" by simp
        from False have m: "max (i + 1) w = w" "max i w = w" by simp_all
        show ?thesis
          using a b ih gs m by (simp add: sent_before_acks_append)
      qed
      moreover have "trace s' = trace s @ evi @ ev"
        using tr proceed(4) by (simp add: evi_def)
      ultimately show ?thesis by blast
    qed
  qed
qed

text \<open>
  Claim C2, as the code has it. \<^verbatim>\<open>bootWriteData\<close> splits the data into
  \<open>(len + chunk_size - 1) div chunk_size\<close> chunks and sends them in order, with the
  window \<open>W = min chunks 10\<close>: no response is taken before step \<open>W\<close>, and a step sends
  its chunk first and takes a response afterwards, so response number \<open>j\<close> (counted from
  0) of any run is taken exactly when \<open>min chunks (W + j + 1)\<close> chunks have been sent.
  Hence the writes sent and not yet acknowledged never exceed the smaller of the chunk
  count and 11: the window when there are at most ten chunks, one more than the window
  otherwise. When the call returns true and no cancellation was seen, the requests
  sent are exactly the chunks of the region in order, and as many responses were
  taken as chunks were sent, each of them \<^verbatim>\<open>FLASH_COMPLETE\<close>.
\<close>

theorem bootWriteData_window:
  assumes run: "bootWriteData cfg addr d s = (r, s')"
  shows "\<exists>ev. trace s' = trace s @ ev \<and>
           sent_before_acks 0 ev =
             map (\<lambda>j. min (chunk_count cfg d) (min (chunk_count cfg d) 10 + j + 1))
               [0..<acks_taken ev] \<and>
           (\<forall>n. outstanding (take n ev) \<le> int (min (chunk_count cfg d) 11)) \<and>
           (r \<and> \<not> wasCanceled s' \<longrightarrow>
              requests ev = write_requests cfg addr d \<and>
              writes_sent ev = chunk_count cfg d \<and> acks_taken ev = chunk_count cfg d \<and>
              (\<forall>e\<in>set ev. \<not> is_bad_ack e))"
proof -
  let ?c = "chunk_count cfg d"
  let ?w = "min ?c 10"
  from run have loop: "bootWriteData_loop cfg addr d ?c ?w 0 0 s = (r, s')"
    by (simp add: bootWriteData_def chunk_count_def Let_def)
  have "?w \<le> ?c" by simp
  from loop_outstanding [OF this loop] obtain ev where
    tr: "trace s' = trace s @ ev" and
    bd: "\<forall>n. min 0 ?c + writes_sent (take n ev) \<le> (0 - ?w) + acks_taken (take n ev) + min ?c (?w + 1)"
    by blast
  have "min ?c (?w + 1) = min ?c 11" by (simp add: min_def)
  with bd have "\<forall>n. writes_sent (take n ev) \<le> acks_taken (take n ev) + min ?c 11"
    by simp
  then have le: "writes_sent (take n ev) \<le> acks_taken (take n ev) + min ?c 11" for n
    by blast
  have "\<forall>n. outstanding (take n ev) \<le> int (min ?c 11)"
  proof
    fix n
    from le [of n] show "outstanding (take n ev) \<le> int (min ?c 11)"
      unfolding outstanding_def by linarith
  qed
  moreover have "requests ev = write_requests cfg addr d \<and>
              writes_sent ev = ?c \<and> acks_taken ev = ?c \<and> (\<forall>e\<in>set ev. \<not> is_bad_ack e)"
    if "r" "\<not> wasCanceled s'"
  proof -
    from loop that(1) have "bootWriteData_loop cfg addr d ?c ?w 0 0 s = (True, s')" by simp
    from loop_complete [OF this that(2)] obtain ev' where
      "trace s' = trace s @ ev'"
      "requests ev' = map (chunk_request cfg addr d) [min 0 ?c..<?c]"
      "acks_taken ev' = (?c + ?w) - max 0 ?w" "\<forall>e\<in>set ev'. \<not> is_bad_ack e"
      "writes_sent ev' = ?c - min 0 ?c"
      by auto
    moreover from this(1) tr have "ev' = ev" by simp
    ultimately show ?thesis by (simp add: write_requests_def)
  qed
  moreover have "sent_before_acks 0 ev =
      map (\<lambda>j. min ?c (?w + j + 1)) [0..<acks_taken ev]"
  proof -
    from loop_window [OF \<open>?w \<le> ?c\<close> loop] obtain ev' where
      "trace s' = trace s @ ev'"
      "sent_before_acks (min 0 ?c) ev' = map (\<lambda>j. min ?c (max 0 ?w + j + 1)) [0..<acks_taken ev']"
      by blast
    moreover from this(1) tr have "ev' = ev" by simp
    ultimately show ?thesis by simp
  qed
  ultimately show ?thesis using tr by blast
qed

theorem bootWriteData_window_witness:
  "fst (bootWriteData sample_cfg 0x08004008 [0xAA, 0xBB] (acks 2)) \<and>
   \<not> wasCanceled (snd (bootWriteData sample_cfg 0x08004008 [0xAA, 0xBB] (acks 2))) \<and>
   requests (trace (snd (bootWriteData sample_cfg 0x08004008 [0xAA, 0xBB] (acks 2)))) =
     [Msg_boot_write_data 0x08004008 [0xAA], Msg_boot_write_data 0x08004009 [0xBB]] \<and>
   writes_sent (trace (snd (bootWriteData sample_cfg 0x08004008 [0xAA, 0xBB] (acks 2)))) = 2 \<and>
   acks_taken (trace (snd (bootWriteData sample_cfg 0x08004008 [0xAA, 0xBB] (acks 2)))) = 2 \<and>
   sent_before_acks 0 (trace (snd (bootWriteData sample_cfg 0x08004008 [0xAA, 0xBB] (acks 2))))
     = [2, 2] \<and>
   sent_before_acks 0 (trace (snd (bootWriteData sample_cfg 0x08004008 thirteen (acks 13))))
     = [11, 12, 13, 13, 13, 13, 13, 13, 13, 13, 13, 13, 13]"
proof -
  let ?run = "bootWriteData sample_cfg 0x08004008 [0xAA, 0xBB] (acks 2)"
  let ?big = "bootWriteData sample_cfg 0x08004008 thirteen (acks 13)"
  have cfg: "default_timeout sample_cfg = 500" "chunk_size sample_cfg = 1"
    by (simp_all add: sample_cfg_def)
  have c: "chunk_count sample_cfg [0xAA, 0xBB] = 2"
    by (simp add: chunk_count_def cfg)
  have "\<exists>s'. ?run = (True, s') \<and> messageQueue s' = [] \<and> \<not> wasCanceled s' \<and> pending s' = [] \<and>
      m_errorString s' = m_errorString (acks 2)"
    by (rule bootWriteData_succeeds) (simp_all add: cfg c acks_def idle_def)
  then have ok: "fst ?run \<and> \<not> wasCanceled (snd ?run)" by auto
  from bootWriteData_window [OF surjective_pairing, of sample_cfg "0x08004008" "[0xAA, 0xBB]" "acks 2"]
  obtain ev where
    "trace (snd ?run) = trace (acks 2) @ ev"
    "sent_before_acks 0 ev =
       map (\<lambda>j. min (chunk_count sample_cfg [0xAA, 0xBB])
                  (min (chunk_count sample_cfg [0xAA, 0xBB]) 10 + j + 1)) [0..<acks_taken ev]"
    "fst ?run \<and> \<not> wasCanceled (snd ?run) \<longrightarrow>
              requests ev = write_requests sample_cfg 0x08004008 [0xAA, 0xBB] \<and>
              writes_sent ev = chunk_count sample_cfg [0xAA, 0xBB] \<and>
              acks_taken ev = chunk_count sample_cfg [0xAA, 0xBB] \<and>
              (\<forall>e\<in>set ev. \<not> is_bad_ack e)"
    by blast
  moreover have "trace (acks 2) = []" by (simp add: acks_def idle_def)
  moreover have "write_requests sample_cfg 0x08004008 [0xAA, 0xBB] =
      [Msg_boot_write_data 0x08004008 [0xAA], Msg_boot_write_data 0x08004009 [0xBB]]"
    by (simp add: write_requests_def c chunk_request_def cfg eval_nat_numeral)
  ultimately have small: "fst ?run \<and> \<not> wasCanceled (snd ?run) \<and>
      requests (trace (snd ?run)) =
        [Msg_boot_write_data 0x08004008 [0xAA], Msg_boot_write_data 0x08004009 [0xBB]] \<and>
      writes_sent (trace (snd ?run)) = 2 \<and> acks_taken (trace (snd ?run)) = 2 \<and>
      sent_before_acks 0 (trace (snd ?run)) = [2, 2]"
    using ok c by (simp add: upt_conv_Cons)
  have c13: "chunk_count sample_cfg thirteen = 13"
    by (simp add: chunk_count_def cfg thirteen_def)
  have "\<exists>s'. ?big = (True, s') \<and> messageQueue s' = [] \<and> \<not> wasCanceled s' \<and> pending s' = [] \<and>
      m_errorString s' = m_errorString (acks 13)"
    by (rule bootWriteData_succeeds) (simp_all add: cfg c13 acks_def idle_def)
  then have ok13: "fst ?big \<and> \<not> wasCanceled (snd ?big)" by auto
  from bootWriteData_window [OF surjective_pairing, of sample_cfg "0x08004008" thirteen "acks 13"]
  obtain ev13 where
    "trace (snd ?big) = trace (acks 13) @ ev13"
    "sent_before_acks 0 ev13 =
       map (\<lambda>j. min (chunk_count sample_cfg thirteen)
                  (min (chunk_count sample_cfg thirteen) 10 + j + 1)) [0..<acks_taken ev13]"
    "fst ?big \<and> \<not> wasCanceled (snd ?big) \<longrightarrow>
              requests ev13 = write_requests sample_cfg 0x08004008 thirteen \<and>
              writes_sent ev13 = chunk_count sample_cfg thirteen \<and>
              acks_taken ev13 = chunk_count sample_cfg thirteen \<and>
              (\<forall>e\<in>set ev13. \<not> is_bad_ack e)"
    by blast
  moreover have "trace (acks 13) = []" by (simp add: acks_def idle_def)
  ultimately have "sent_before_acks 0 (trace (snd ?big)) =
      [11, 12, 13, 13, 13, 13, 13, 13, 13, 13, 13, 13, 13]"
    using ok13 c13 by (simp add: upt_conv_Cons)
  with small show ?thesis by simp
qed

text \<open>
  The bound of the window itself does not hold: with eleven chunks, after the eleventh
  chunk is sent and before the first response is taken, eleven writes are
  outstanding while the window is ten.
\<close>

theorem bootWriteData_window_counterexample:
  "outstanding (take 22 (trace (snd (bootWriteData sample_cfg 0x08004008 eleven (acks 11))))) = 11
   \<and> min (chunk_count sample_cfg eleven) 10 = 10"
proof -
  have c: "chunk_count sample_cfg eleven = 11"
    by (simp add: chunk_count_def sample_cfg_def eleven_def)
  obtain r s' where run: "bootWriteData sample_cfg 0x08004008 eleven (acks 11) = (r, s')"
    by (cases "bootWriteData sample_cfg 0x08004008 eleven (acks 11)")
  then have loop: "bootWriteData_loop sample_cfg 0x08004008 eleven 11 10 0 0 (acks 11) = (r, s')"
    using c by (simp add: bootWriteData_def chunk_count_def Let_def)
  have nc: "\<not> wasCanceled (acks 11)" and t0: "trace (acks 11) = []"
    by (simp_all add: acks_def idle_def)
  from loop_sends_first [of 0 10 10 11 "acks 11" sample_cfg "0x08004008" eleven 0] nc t0
  obtain sk ev where
    a: "bootWriteData_loop sample_cfg 0x08004008 eleven 11 10 0 0 (acks 11) =
          bootWriteData_loop sample_cfg 0x08004008 eleven 11 10 10 (10 * chunk_size sample_cfg) sk"
    and b: "\<not> wasCanceled sk" "trace sk = ev" "writes_sent ev = 10"
       "acks_taken ev = 0" "length ev = 20"
    by auto
  from a loop have "bootWriteData_loop sample_cfg 0x08004008 eleven 11 10 10
      (10 * chunk_size sample_cfg) sk = (r, s')" by simp
  from loop_first_send [OF _ b(1) this] obtain ev' where
    "trace s' = trace sk @ [Sent (Msg_boot_write_data (0x08004008 + of_nat (10 * chunk_size sample_cfg))
        (take (chunk_size sample_cfg) (drop (10 * chunk_size sample_cfg) eleven))),
        CancelPoll False] @ ev'"
    by auto
  with b have "take 22 (trace s') = ev @ [Sent (Msg_boot_write_data
        (0x08004008 + of_nat (10 * chunk_size sample_cfg))
        (take (chunk_size sample_cfg) (drop (10 * chunk_size sample_cfg) eleven))),
        CancelPoll False]"
    by simp
  with b have "outstanding (take 22 (trace s')) = 11"
    by (simp add: outstanding_def)
  with run c show ?thesis by simp
qed

lemma after_send_fields [simp]:
  "messageQueue (after_send cfg addr d off s) = messageQueue s"
  "pending (after_send cfg addr d off s) = pending s"
  "wasCanceled (after_send cfg addr d off s) = wasCanceled s"
  "m_errorString (after_send cfg addr d off s) = m_errorString s"
  "trace (after_send cfg addr d off s) = trace s @ [Sent (Msg_boot_write_data (addr + of_nat off)
                 (take (chunk_size cfg) (drop off d))), CancelPoll (wasCanceled s)]"
  by (simp_all add: after_send_def)

lemma after_response_fields [simp]:
  "messageQueue (after_response m c s) = []"
  "pending (after_response m c s) = tl (pending s)"
  "wasCanceled (after_response m c s) = (wasCanceled s \<or> c)"
  "m_errorString (after_response m c s) = m_errorString s"
  "trace (after_response m c s) = trace s @ [Got m]"
  by (simp_all add: after_response_def)

lemma bootGetResponse_after:
  assumes "messageQueue s = []" "pending s = ([m], c) # rest" "h_id m = MSG_ID_BOOT_RESPONSE"
    "10 < t"
  shows "bootGetResponse s t = (Some m, after_response m c s)"
  using bootGetResponse_next [OF assms] assms(2) by (simp add: after_response_def)

lemma loop_send_step:
  assumes "i < chunks" "i < w" "\<not> wasCanceled s"
  shows "bootWriteData_loop cfg addr d chunks w i off s =
     bootWriteData_loop cfg addr d chunks w (Suc i) (off + chunk_size cfg)
       (after_send cfg addr d off s)"
  using loop_send_only [OF assms] assms(3) by (simp add: after_send_def)

lemma loop_cancel_step:
  assumes "i < chunks" "wasCanceled s"
  shows "bootWriteData_loop cfg addr d chunks w i off s = (True, after_send cfg addr d off s)"
proof -
  from assms(1) have lt: "i < chunks + w" by simp
  have ws: "write_send cfg addr d chunks i off s =
      (Return True, off + chunk_size cfg, after_send cfg addr d off s)"
    using assms by (simp add: write_send_chunk after_send_def)
  obtain g s2 where wa: "write_ack cfg addr w i (after_send cfg addr d off s) = (g, s2)"
    by (cases "write_ack cfg addr w i (after_send cfg addr d off s)")
  from loop_step [OF lt ws wa] show ?thesis by simp
qed

lemma loop_send_ack_step:
  assumes "i < chunks" "w \<le> i" "\<not> wasCanceled s"
    and "bootGetResponse (after_send cfg addr d off s) (default_timeout cfg) = (Some m, s1)"
  shows "bootWriteData_loop cfg addr d chunks w i off s =
     (if data m 0 \<noteq> FLASH_COMPLETE
      then (False, s1\<lparr>m_errorString :=
                     ''Can't write data at 0x'' @ fmt_x 8 (unat addr) @ '': ''
                       @ flashStatusStr (data m 0)\<rparr>)
      else bootWriteData_loop cfg addr d chunks w (Suc i) (off + chunk_size cfg) s1)"
proof -
  from assms(1) have lt: "i < chunks + w" by simp
  have ws: "write_send cfg addr d chunks i off s =
      (Proceed, off + chunk_size cfg, after_send cfg addr d off s)"
    using assms by (simp add: write_send_chunk after_send_def)
  obtain g s2 where wa: "write_ack cfg addr w i (after_send cfg addr d off s) = (g, s2)"
    by (cases "write_ack cfg addr w i (after_send cfg addr d off s)")
  from wa assms(2,4) have
    "(g, s2) = (if data m 0 \<noteq> FLASH_COMPLETE
      then (Return False, s1\<lparr>m_errorString :=
                     ''Can't write data at 0x'' @ fmt_x 8 (unat addr) @ '': ''
                       @ flashStatusStr (data m 0)\<rparr>)
      else (Proceed, s1))"
    by (simp add: write_ack_def)
  with loop_step [OF lt ws wa] show ?thesis
    by (simp split: if_splits)
qed

lemma snoc_eq_split:
  assumes "pre @ x # post = pre' @ [y]" and "x \<notin> set pre'"
  shows "post = [] \<and> x = y"
proof (cases post rule: rev_cases)
  case Nil
  with assms(1) show ?thesis by simp
next
  case (snoc post' z)
  with assms(1) have "pre' = pre @ x # post'" by simp
  with assms(2) show ?thesis by simp
qed

lemma bootWriteData_loop_eq:
  "bootWriteData cfg addr d s =
     bootWriteData_loop cfg addr d (chunk_count cfg d) (min (chunk_count cfg d) 10) 0 0 s"
  by (simp add: bootWriteData_def chunk_count_def Let_def)

lemma second_busy_run:
  "bootWriteData sample_cfg 0x08004008 [0xAA, 0xBB] second_busy =
     (False, (after_response (response 1) False (after_response (response 9) False
        (after_send sample_cfg 0x08004008 [0xAA, 0xBB] 1
          (after_send sample_cfg 0x08004008 [0xAA, 0xBB] 0 second_busy))))
        \<lparr>m_errorString := ''Can't write data at 0x'' @ fmt_x 8 (unat (0x08004008 :: 32 word))
            @ '': '' @ flashStatusStr 1\<rparr>)"
proof -
  let ?cfg = sample_cfg and ?a = "0x08004008 :: 32 word" and ?d = "[0xAA, 0xBB] :: byte list"
  let ?cs = "chunk_size sample_cfg"
  let ?s0 = second_busy
  let ?s1 = "after_send ?cfg ?a ?d 0 ?s0"
  let ?s2 = "after_send ?cfg ?a ?d (0 + ?cs) ?s1"
  let ?s3 = "after_response (response 9) False ?s2"
  let ?s4 = "after_response (response 1) False ?s3"
  have cfg: "default_timeout ?cfg = 500" "?cs = 1"
    by (simp_all add: sample_cfg_def)
  have f0: "\<not> wasCanceled ?s0" "messageQueue ?s0 = []"
    "pending ?s0 = [([response 9], False), ([response 1], False)]"
    by (simp_all add: second_busy_def idle_def)
  have rsp: "h_id (response b) = MSG_ID_BOOT_RESPONSE" "data (response b) 0 = b" for b
    by (simp_all add: response_def)
  have c: "chunk_count ?cfg ?d = 2"
    by (simp add: chunk_count_def cfg)
  have "bootWriteData ?cfg ?a ?d ?s0 = bootWriteData_loop ?cfg ?a ?d 2 2 0 0 ?s0"
    unfolding bootWriteData_loop_eq c by simp
  also have "\<dots> = bootWriteData_loop ?cfg ?a ?d 2 2 (Suc 0) (0 + ?cs) ?s1"
    by (rule loop_send_step) (simp_all add: f0)
  also have "\<dots> = bootWriteData_loop ?cfg ?a ?d 2 2 (Suc (Suc 0)) (0 + ?cs + ?cs) ?s2"
    by (rule loop_send_step) (simp_all add: f0)
  also have "\<dots> = bootWriteData_loop ?cfg ?a ?d 2 2 (Suc (Suc (Suc 0))) (0 + ?cs + ?cs) ?s3"
  proof -
    have "bootGetResponse ?s2 (default_timeout ?cfg) = (Some (response 9), ?s3)"
      by (rule bootGetResponse_after) (simp_all add: f0 rsp cfg)
    from loop_ack_only [OF _ _ _ this, of "Suc (Suc 0)" 2 2 "?a" ?d "0 + ?cs + ?cs"]
    show ?thesis
      by (simp add: rsp FLASH_COMPLETE_def)
  qed
  also have "\<dots> = (False, ?s4\<lparr>m_errorString := ''Can't write data at 0x''
      @ fmt_x 8 (unat ?a) @ '': '' @ flashStatusStr 1\<rparr>)"
  proof -
    have "bootGetResponse ?s3 (default_timeout ?cfg) = (Some (response 1), ?s4)"
      by (rule bootGetResponse_after) (simp_all add: f0 rsp cfg)
    from loop_ack_only [OF _ _ _ this, of "Suc (Suc (Suc 0))" 2 2 "?a" ?d "0 + ?cs + ?cs"]
    show ?thesis
      by (simp add: rsp FLASH_COMPLETE_def)
  qed
  finally show ?thesis by (simp add: cfg)
qed

lemma fmt_x_sample: "fmt_x 8 134234120 = ''08004008''"
  by (simp add: fmt_eval)

lemma flashStatusStr_busy: "flashStatusStr 1 = ''FLASH_BUSY''"
  by (simp add: flashStatusStr_def FLASH_BUSY_def)

text \<open>
  Claim C4, as the code has it. When \<^verbatim>\<open>bootWriteData\<close> takes a response whose status is
  not \<^verbatim>\<open>FLASH_COMPLETE\<close>, that response is the last event of the call: no further
  response is taken and no further chunk is sent. The call returns false, and the
  error string holds the start address of the region (the \<^verbatim>\<open>addr\<close> argument) and the
  status as \<^verbatim>\<open>flashStatusStr\<close> decodes it.
\<close>

theorem bootWriteData_bad_ack:
  assumes run: "bootWriteData cfg addr d s = (r, s')"
    and tr: "trace s' = trace s @ pre @ Got m # post"
    and bad: "data m 0 \<noteq> FLASH_COMPLETE"
  shows "post = [] \<and> \<not> r \<and>
         m_errorString s' = ''Can't write data at 0x'' @ fmt_x 8 (unat addr) @ '': ''
                              @ flashStatusStr (data m 0)"
proof -
  from run have "bootWriteData_loop cfg addr d (chunk_count cfg d) (min (chunk_count cfg d) 10) 0 0 s
      = (r, s')"
    by (simp add: bootWriteData_def chunk_count_def Let_def)
  from loop_shape [OF this] obtain ev where
    e: "trace s' = trace s @ ev" and sh: "ack_shape addr r s' ev" by blast
  from e tr have ev: "ev = pre @ Got m # post" by simp
  from bad have b: "is_bad_ack (Got m)" by simp
  from sh show ?thesis
    unfolding ack_shape_def
  proof (elim disjE exE conjE)
    assume "\<forall>e\<in>set ev. \<not> is_bad_ack e"
    with ev b show ?thesis by auto
  next
    fix pre' m'
    assume a: "ev = pre' @ [Got m']" "\<forall>e\<in>set pre'. \<not> is_bad_ack e" "\<not> r"
      "m_errorString s' = ''Can't write data at 0x'' @ fmt_x 8 (unat addr) @ '': ''
                       @ flashStatusStr (data m' 0)"
    from a(2) b have "Got m \<notin> set pre'" by blast
    with snoc_eq_split [of pre "Got m" post pre' "Got m'"] ev a(1)
    have "post = []" "m = m'" by auto
    with a show ?thesis by simp
  qed
qed

theorem bootWriteData_bad_ack_witness:
  "data (response 1) 0 \<noteq> FLASH_COMPLETE \<and>
   trace (snd (bootWriteData sample_cfg 0x08004008 [0xAA, 0xBB] second_busy)) =
     [Sent (Msg_boot_write_data 0x08004008 [0xAA]), CancelPoll False,
      Sent (Msg_boot_write_data 0x08004009 [0xBB]), CancelPoll False,
      Got (response 9)] @ Got (response 1) # [] \<and>
   \<not> fst (bootWriteData sample_cfg 0x08004008 [0xAA, 0xBB] second_busy) \<and>
   m_errorString (snd (bootWriteData sample_cfg 0x08004008 [0xAA, 0xBB] second_busy)) =
     ''Can't write data at 0x08004008: FLASH_BUSY''"
proof -
  let ?run = "bootWriteData sample_cfg 0x08004008 [0xAA, 0xBB] second_busy"
  have cs: "chunk_size sample_cfg = 1" by (simp add: sample_cfg_def)
  have bad: "data (response 1) 0 \<noteq> FLASH_COMPLETE"
    by (simp add: response_def FLASH_COMPLETE_def)
  have tr: "trace (snd ?run) = trace second_busy @
     [Sent (Msg_boot_write_data 0x08004008 [0xAA]), CancelPoll False,
      Sent (Msg_boot_write_data 0x08004009 [0xBB]), CancelPoll False,
      Got (response 9)] @ Got (response 1) # []"
    by (simp add: second_busy_run cs) (simp add: second_busy_def idle_def)
  from bootWriteData_bad_ack [OF surjective_pairing tr bad]
  have "\<not> fst ?run \<and> m_errorString (snd ?run) = ''Can't write data at 0x08004008: FLASH_BUSY''"
    by (simp add: fmt_x_sample flashStatusStr_busy response_def)
  moreover have "trace second_busy = []" by (simp add: second_busy_def idle_def)
  ultimately show ?thesis using tr bad by simp
qed

text \<open>
  The address in the error string is not that of the failing chunk: of two chunks at
  \<open>0x08004008\<close> and \<open>0x08004009\<close> the first is acknowledged with \<^verbatim>\<open>FLASH_COMPLETE\<close> and
  the second with \<^verbatim>\<open>FLASH_BUSY\<close>, and the error string names \<open>0x08004008\<close>.
\<close>

theorem bootWriteData_bad_ack_counterexample:
  "requests (trace (snd (bootWriteData sample_cfg 0x08004008 [0xAA, 0xBB] second_busy))) =
     [Msg_boot_write_data 0x08004008 [0xAA], Msg_boot_write_data 0x08004009 [0xBB]] \<and>
   filter is_got (trace (snd (bootWriteData sample_cfg 0x08004008 [0xAA, 0xBB] second_busy))) =
     [Got (response 9), Got (response 1)] \<and>
   data (response 9) 0 = FLASH_COMPLETE \<and> data (response 1) 0 = FLASH_BUSY \<and>
   m_errorString (snd (bootWriteData sample_cfg 0x08004008 [0xAA, 0xBB] second_busy)) =
     ''Can't write data at 0x08004008: FLASH_BUSY''"
proof -
  have cs: "chunk_size sample_cfg = 1" by (simp add: sample_cfg_def)
  have t0: "trace second_busy = []" by (simp add: second_busy_def idle_def)
  show ?thesis
    by (simp add: second_busy_run cs t0 fmt_x_sample flashStatusStr_busy)
      (simp add: response_def FLASH_COMPLETE_def FLASH_BUSY_def)
qed

section \<open>The steps of the update\<close>

lemma enters_simps [simp]:
  "enters [] = 0"
  "enters (a @ b) = enters a + enters b"
  "enters (map Dropped ds) = 0"
  "enters (map Got ms) = 0"
  "enters (Sent (Msg_boot_enter x) # ev) = Suc (enters ev)"
  "enters (Sent (Msg_shell_from_pc t) # ev) = enters ev"
  "enters (Sent Msg_boot_exit # ev) = enters ev"
  "enters (Sent (Msg_boot_erase_sector y) # ev) = enters ev"
  "enters (Sent (Msg_boot_write_data wa wd) # ev) = enters ev"
  "enters (Sent (Msg_boot_verify va vl) # ev) = enters ev"
  "enters (CancelPoll c # ev) = enters ev"
  "enters (Got m # ev) = enters ev"
  "enters (Dropped m # ev) = enters ev"
  by (simp_all add: enters_def filter_map o_def)

lemma writes_sent_more [simp]:
  "writes_sent (Sent (Msg_boot_enter x) # ev) = writes_sent ev"
  "writes_sent (Sent (Msg_shell_from_pc t) # ev) = writes_sent ev"
  "writes_sent (Sent Msg_boot_exit # ev) = writes_sent ev"
  "writes_sent (Sent (Msg_boot_erase_sector y) # ev) = writes_sent ev"
  "writes_sent (Sent (Msg_boot_verify a l) # ev) = writes_sent ev"
  by (simp_all add: writes_sent_def)

text \<open>The four exchanges of one request and one response.\<close>

lemma bootEnter_trace:
  assumes run: "bootEnter cfg s = (ok, s')"
  shows "\<exists>ds r. trace s' = trace s @ [Sent shell_reset, Sent (Msg_boot_enter 0xB00710AD)]
              @ map Dropped ds @ map Got (opt_list r) \<and>
           ok = (\<exists>res. r = Some res \<and> data res 0 = 1) \<and>
           (wasCanceled s \<longrightarrow> wasCanceled s')"
proof -
  let ?s2 = "sendMessage (Msg_boot_enter 0xB00710AD) (sendMessage shell_reset s)"
  obtain r s3 where g: "bootGetResponse ?s2 (default_timeout cfg) = (r, s3)"
    by (cases "bootGetResponse ?s2 (default_timeout cfg)")
  from bootGetResponse_trace [OF g] obtain ds where
    t: "trace s3 = trace ?s2 @ map Dropped ds @ map Got (opt_list r)" and
    c: "wasCanceled ?s2 \<Longrightarrow> wasCanceled s3"
    by blast
  have "ok = (\<exists>res. r = Some res \<and> data res 0 = 1) \<and> trace s' = trace s3 \<and>
      wasCanceled s' = wasCanceled s3"
    using run g
    by (cases r) (auto simp: bootEnter_def bootResetHack_def shell_reset_def Let_def
        split: if_splits)
  with t c show ?thesis by auto
qed

lemma bootExit_trace:
  assumes run: "bootExit cfg s = (ok, s')"
  shows "\<exists>ds r. trace s' = trace s @ [Sent Msg_boot_exit]
              @ map Dropped ds @ map Got (opt_list r) \<and>
           ok = (\<exists>res. r = Some res \<and> data res 0 = 1) \<and>
           (wasCanceled s \<longrightarrow> wasCanceled s')"
proof -
  let ?s2 = "sendMessage Msg_boot_exit s"
  obtain r s3 where g: "bootGetResponse ?s2 (default_timeout cfg) = (r, s3)"
    by (cases "bootGetResponse ?s2 (default_timeout cfg)")
  from bootGetResponse_trace [OF g] obtain ds where
    t: "trace s3 = trace ?s2 @ map Dropped ds @ map Got (opt_list r)" and
    c: "wasCanceled ?s2 \<Longrightarrow> wasCanceled s3"
    by blast
  have "ok = (\<exists>res. r = Some res \<and> data res 0 = 1) \<and> trace s' = trace s3 \<and>
      wasCanceled s' = wasCanceled s3"
    using run g
    by (cases r) (auto simp: bootExit_def Let_def split: if_splits)
  with t c show ?thesis by auto
qed

lemma bootEraseSector_trace:
  assumes run: "bootEraseSector cfg sector s = (ok, s')"
  shows "\<exists>ds r. trace s' = trace s @ [Sent (Msg_boot_erase_sector sector)]
              @ map Dropped ds @ map Got (opt_list r) \<and>
           ok = (\<exists>res. r = Some res \<and> data res 0 = FLASH_COMPLETE) \<and>
           (wasCanceled s \<longrightarrow> wasCanceled s')"
proof -
  let ?s2 = "sendMessage (Msg_boot_erase_sector sector) s"
  obtain r s3 where g: "bootGetResponse ?s2 2000 = (r, s3)"
    by (cases "bootGetResponse ?s2 2000")
  from bootGetResponse_trace [OF g] obtain ds where
    t: "trace s3 = trace ?s2 @ map Dropped ds @ map Got (opt_list r)" and
    c: "wasCanceled ?s2 \<Longrightarrow> wasCanceled s3"
    by blast
  have "ok = (\<exists>res. r = Some res \<and> data res 0 = FLASH_COMPLETE) \<and> trace s' = trace s3 \<and>
      wasCanceled s' = wasCanceled s3"
    using run g
    by (cases r) (auto simp: bootEraseSector_def Let_def split: if_splits)
  with t c show ?thesis by auto
qed

lemma bootVerifyData_trace:
  assumes run: "bootVerifyData cfg addr d s = (ok, s')"
  shows "\<exists>ds r. trace s' = trace s @ [Sent (Msg_boot_verify addr (of_nat (length d)))]
              @ map Dropped ds @ map Got (opt_list r) \<and>
           ok = (\<exists>res. r = Some res \<and> remote_crc_of res = local_crc_of cfg d) \<and>
           (wasCanceled s \<longrightarrow> wasCanceled s')"
proof -
  let ?s2 = "sendMessage (Msg_boot_verify addr (of_nat (length d))) s"
  obtain r s3 where g: "bootGetResponse ?s2 (default_timeout cfg) = (r, s3)"
    by (cases "bootGetResponse ?s2 (default_timeout cfg)")
  from bootGetResponse_trace [OF g] obtain ds where
    t: "trace s3 = trace ?s2 @ map Dropped ds @ map Got (opt_list r)" and
    c: "wasCanceled ?s2 \<Longrightarrow> wasCanceled s3"
    by blast
  have "ok = (\<exists>res. r = Some res \<and> remote_crc_of res = local_crc_of cfg d) \<and>
      trace s' = trace s3 \<and> wasCanceled s' = wasCanceled s3"
    using run g
    by (cases r) (auto simp: bootVerifyData_def Let_def split: if_splits)
  with t c show ?thesis by auto
qed

lemma STEP_eq:
  "STEP (ok, s) =
     (if \<not> ok then (Return False, s)
      else (if wasCanceled s then Return True else Proceed,
            s\<lparr>trace := trace s @ [CancelPoll (wasCanceled s)]\<rparr>))"
  by (simp add: STEP_def progressDialog_wasCanceled_def)

declare enter_loop.simps [simp del] erase_loop.simps [simp del]

lemma enter_loop_done:
  "\<not> (tries < 100 \<and> \<not> ok) \<Longrightarrow> enter_loop cfg tries ok s = (Proceed, ok, s)"
  by (subst enter_loop.simps) auto

lemma enter_loop_step:
  assumes "tries < 100" "\<not> ok"
    and "bootEnter cfg (showProgress (int (tries + 1)) ''Entering bootloader'' s) = (ok1, s2)"
  shows "enter_loop cfg tries ok s =
     (if wasCanceled s2 then (Return True, ok1, s2\<lparr>trace := trace s2 @ [CancelPoll True]\<rparr>)
      else enter_loop cfg (tries + 1) ok1 (s2\<lparr>trace := trace s2 @ [CancelPoll False]\<rparr>))"
  using assms by (subst enter_loop.simps) (simp add: STEP_eq Let_def)

lemma enter_loop_induct [case_names step]:
  assumes "\<And>tries ok s.
     (\<And>ok1 s2. tries < 100 \<Longrightarrow> \<not> ok \<Longrightarrow>
        bootEnter cfg (showProgress (int (tries + 1)) ''Entering bootloader'' s) = (ok1, s2) \<Longrightarrow>
        \<not> wasCanceled s2 \<Longrightarrow>
        P (tries + 1) ok1 (s2\<lparr>trace := trace s2 @ [CancelPoll False]\<rparr>)) \<Longrightarrow> P tries ok s"
  shows "P tries ok s"
proof (induction "100 - tries" arbitrary: tries ok s)
  case 0
  show ?case by (rule assms) (use 0 in simp)
next
  case (Suc n)
  show ?case
  proof (rule assms)
    fix ok1 s2
    assume "tries < 100"
    with Suc.hyps(2) have "n = 100 - (tries + 1)" by simp
    then show "P (tries + 1) ok1 (s2\<lparr>trace := trace s2 @ [CancelPoll False]\<rparr>)"
      by (rule Suc.hyps(1))
  qed
qed

lemma erase_loop_done:
  "\<not> i < 12 \<Longrightarrow> erase_loop cfg i s = (Proceed, s)"
  by (subst erase_loop.simps) auto

lemma erase_loop_step:
  assumes "i < 12"
    and "bootEraseSector cfg (of_int i) (showProgress (10 + 10 * (i - 4) div (12 - 4))
           (''Erasing sector '' @ fmt_d i @ ''...'') s) = (ok, s1)"
  shows "erase_loop cfg i s =
     (if \<not> ok then (Return False, s1)
      else if wasCanceled s1 then (Return True, s1\<lparr>trace := trace s1 @ [CancelPoll True]\<rparr>)
      else erase_loop cfg (i + 1) (s1\<lparr>trace := trace s1 @ [CancelPoll False]\<rparr>))"
  using assms by (subst erase_loop.simps) (simp add: STEP_eq Let_def)

lemma erase_loop_induct [case_names step]:
  assumes "\<And>i s.
     (\<And>s1. i < 12 \<Longrightarrow>
        bootEraseSector cfg (of_int i) (showProgress (10 + 10 * (i - 4) div (12 - 4))
           (''Erasing sector '' @ fmt_d i @ ''...'') s) = (True, s1) \<Longrightarrow>
        \<not> wasCanceled s1 \<Longrightarrow>
        P (i + 1) (s1\<lparr>trace := trace s1 @ [CancelPoll False]\<rparr>)) \<Longrightarrow> P i s"
  shows "P i s"
proof (induction "nat (12 - i)" arbitrary: i s)
  case 0
  show ?case by (rule assms) (use 0 in simp)
next
  case (Suc n)
  show ?case
  proof (rule assms)
    fix s1
    assume "i < 12"
    with Suc.hyps(2) have "n = nat (12 - (i + 1))" by simp
    then show "P (i + 1) (s1\<lparr>trace := trace s1 @ [CancelPoll False]\<rparr>)"
      by (rule Suc.hyps(1))
  qed
qed

lemma quiet_replicate [simp]: "quiet (replicate n (CancelPoll True)) = (n = 0)"
  by (cases n) (simp_all add: quiet_def)

lemma cancelled_tail_prepend: "quiet a \<Longrightarrow> cancelled_tail b \<Longrightarrow> cancelled_tail (a @ b)"
  unfolding cancelled_tail_def
  apply (elim exE conjE)
  subgoal for pre n
    apply (rule exI [of _ "a @ pre"], rule exI [of _ n])
    apply simp
    done
  done

lemma cancelled_tail_last: "quiet a \<Longrightarrow> cancelled_tail (a @ [CancelPoll True])"
  unfolding cancelled_tail_def
  by (rule exI [of _ a], rule exI [of _ 0]) simp

lemma cancelled_tail_again: "cancelled_tail a \<Longrightarrow> cancelled_tail (a @ [CancelPoll True])"
  unfolding cancelled_tail_def
  apply (elim exE conjE)
  subgoal for pre n
    apply (rule exI [of _ pre], rule exI [of _ "Suc n"])
    apply (simp add: replicate_append_same)
    done
  done

lemma flow_shape_prepend: "quiet a \<Longrightarrow> flow_shape f b \<Longrightarrow> flow_shape f (a @ b)"
  by (cases f) (auto simp: flow_shape_def cancelled_tail_prepend)

lemma run_shape_prepend: "quiet a \<Longrightarrow> run_shape r b \<Longrightarrow> run_shape r (a @ b)"
  by (auto simp: run_shape_def cancelled_tail_prepend)

lemma after_grant_simps [simp]:
  "after_grant [] = []"
  "after_grant (Sent x # ev) = after_grant ev"
  "after_grant (CancelPoll c # ev) = after_grant ev"
  "after_grant (Dropped m # ev) = after_grant ev"
  "after_grant (Got m # ev) = (if data m 0 = 1 then Got m # ev else after_grant ev)"
  by (simp_all add: after_grant_def)

lemma after_grant_dropped [simp]: "after_grant (map Dropped ds @ ev) = after_grant ev"
  by (induction ds) simp_all

lemma after_grant_none:
  "\<forall>e\<in>set a. \<not> is_grant e \<Longrightarrow> after_grant (a @ b) = after_grant b"
  by (simp add: after_grant_def dropWhile_append2)

lemma enter_loop_shape:
  assumes "enter_loop cfg tries ok s = (f, ok', s')"
  shows "\<exists>ev. trace s' = trace s @ ev \<and> writes_sent ev = 0 \<and> flow_shape f ev \<and>
           f \<noteq> Return False \<and> (f = Return True \<longrightarrow> wasCanceled s') \<and>
           enters ev \<le> 100 - tries \<and> enters (after_grant ev) = 0 \<and>
           (ok \<longrightarrow> ev = [] \<and> ok') \<and>
           (\<not> ok \<and> f = Proceed \<and> \<not> ok' \<longrightarrow> enters ev = 100 - tries) \<and>
           (\<not> ok \<and> ok' \<longrightarrow> (\<exists>e\<in>set ev. is_grant e))"
  using assms
proof (induction tries ok s rule: enter_loop_induct [where cfg = cfg])
  case (step tries ok s)
  show ?case
  proof (cases "tries < 100 \<and> \<not> ok")
    case False
    with step.prems have "f = Proceed" "ok' = ok" "s' = s" by (simp_all add: enter_loop_done)
    with False show ?thesis
      by (intro exI [of _ "[]"]) (auto simp: flow_shape_def)
  next
    case True
    then have lt: "tries < 100" and nok: "\<not> ok" by simp_all
    obtain ok1 s2 where
      be: "bootEnter cfg (showProgress (int (tries + 1)) ''Entering bootloader'' s) = (ok1, s2)"
      by (cases "bootEnter cfg (showProgress (int (tries + 1)) ''Entering bootloader'' s)")
    from bootEnter_trace [OF be] obtain ds r where
      t2: "trace s2 = trace s @ [Sent shell_reset, Sent (Msg_boot_enter 0xB00710AD)]
              @ map Dropped ds @ map Got (opt_list r)" and
      ok1: "ok1 = (\<exists>res. r = Some res \<and> data res 0 = 1)"
      by auto
    define evi where "evi = [Sent shell_reset, Sent (Msg_boot_enter 0xB00710AD)]
              @ map Dropped ds @ map Got (opt_list r)"
    have evi: "writes_sent evi = 0" "quiet evi" "enters evi = 1"
      by (simp_all add: evi_def shell_reset_def)
    have grant: "after_grant (evi @ rest) = (if ok1 then map Got (opt_list r) @ rest
        else after_grant rest)" "ok1 \<longrightarrow> (\<exists>e\<in>set evi. is_grant e)" for rest
      unfolding ok1 evi_def by (cases r; auto simp: opt_list_def shell_reset_def)+
    note step' = enter_loop_step [OF lt nok be]
    show ?thesis
    proof (cases "wasCanceled s2")
      case True
      with step' step.prems have r: "f = Return True" "ok' = ok1"
        "s' = s2\<lparr>trace := trace s2 @ [CancelPoll True]\<rparr>"
        by simp_all
      have "trace s' = trace s @ evi @ [CancelPoll True]"
        by (simp add: r t2 evi_def)
      moreover have "flow_shape f (evi @ [CancelPoll True])"
        using evi by (simp add: r flow_shape_def cancelled_tail_last)
      moreover have "enters (after_grant (evi @ [CancelPoll True])) = 0"
        by (simp add: grant)
      ultimately show ?thesis
        using evi r True lt nok grant(2)
        by (intro exI [of _ "evi @ [CancelPoll True]"]) auto
    next
      case False
      with step' step.prems have rec: "enter_loop cfg (tries + 1) ok1
          (s2\<lparr>trace := trace s2 @ [CancelPoll False]\<rparr>) = (f, ok', s')"
        by simp
      from step.IH [OF lt nok be False rec] obtain ev where
        tr: "trace s' = trace (s2\<lparr>trace := trace s2 @ [CancelPoll False]\<rparr>) @ ev" and
        w: "writes_sent ev = 0" and fs: "flow_shape f ev" and nf: "f \<noteq> Return False" and
        wc: "f = Return True \<longrightarrow> wasCanceled s'" and
        en: "enters ev \<le> 100 - (tries + 1)" and ag: "enters (after_grant ev) = 0" and
        o1: "ok1 \<longrightarrow> ev = [] \<and> ok'" and
        ex: "\<not> ok1 \<and> f = Proceed \<and> \<not> ok' \<longrightarrow> enters ev = 100 - (tries + 1)" and
        gr: "\<not> ok1 \<and> ok' \<longrightarrow> (\<exists>e\<in>set ev. is_grant e)"
        by blast
      let ?ev = "evi @ [CancelPoll False] @ ev"
      have "trace s' = trace s @ ?ev"
        using tr by (simp add: t2 evi_def)
      moreover have "writes_sent ?ev = 0" using evi w by simp
      moreover have "flow_shape f ?ev"
        using fs evi by (intro flow_shape_prepend) simp_all
      moreover have "enters ?ev \<le> 100 - tries" using evi en lt by simp
      moreover have "enters (after_grant ?ev) = 0"
        using ag o1 by (simp add: grant)
      moreover have "\<not> ok \<and> f = Proceed \<and> \<not> ok' \<longrightarrow> enters ?ev = 100 - tries"
        using ex o1 evi lt by auto
      moreover have "\<not> ok \<and> ok' \<longrightarrow> (\<exists>e\<in>set ?ev. is_grant e)"
        using gr grant(2) by auto
      ultimately show ?thesis using nf wc nok by blast
    qed
  qed
qed

lemma erase_loop_shape:
  assumes "erase_loop cfg i s = (f, s')"
  shows "\<exists>ev. trace s' = trace s @ ev \<and> writes_sent ev = 0 \<and> enters ev = 0 \<and>
           flow_shape f ev \<and> (f = Return True \<longrightarrow> wasCanceled s')"
  using assms
proof (induction i s rule: erase_loop_induct [where cfg = cfg])
  case (step i s)
  show ?case
  proof (cases "i < 12")
    case False
    with step.prems have "f = Proceed" "s' = s" by (simp_all add: erase_loop_done)
    then show ?thesis by (intro exI [of _ "[]"]) (simp add: flow_shape_def)
  next
    case True
    let ?sp = "showProgress (10 + 10 * (i - 4) div (12 - 4))
           (''Erasing sector '' @ fmt_d i @ ''...'') s"
    obtain ok s1 where be: "bootEraseSector cfg (of_int i) ?sp = (ok, s1)"
      by (cases "bootEraseSector cfg (of_int i) ?sp")
    from bootEraseSector_trace [OF be] obtain ds r where
      t1: "trace s1 = trace s @ [Sent (Msg_boot_erase_sector (of_int i))]
              @ map Dropped ds @ map Got (opt_list r)"
      by auto
    define evi where "evi = [Sent (Msg_boot_erase_sector (of_int i))]
              @ map Dropped ds @ map Got (opt_list r)"
    have evi: "writes_sent evi = 0" "quiet evi" "enters evi = 0"
      by (simp_all add: evi_def)
    note step' = erase_loop_step [OF True be]
    consider "\<not> ok" | "ok" "wasCanceled s1" | "ok" "\<not> wasCanceled s1" by blast
    then show ?thesis
    proof cases
      case 1
      with step' step.prems have "f = Return False" "s' = s1" by simp_all
      with evi t1 show ?thesis
        by (intro exI [of _ evi]) (simp add: flow_shape_def evi_def)
    next
      case 2
      with step' step.prems have r: "f = Return True"
        "s' = s1\<lparr>trace := trace s1 @ [CancelPoll True]\<rparr>" by simp_all
      have "trace s' = trace s @ evi @ [CancelPoll True]" by (simp add: r t1 evi_def)
      moreover have "flow_shape f (evi @ [CancelPoll True])"
        using evi by (simp add: r flow_shape_def cancelled_tail_last)
      ultimately show ?thesis using evi r 2
        by (intro exI [of _ "evi @ [CancelPoll True]"]) simp
    next
      case 3
      with step' step.prems have rec: "erase_loop cfg (i + 1)
          (s1\<lparr>trace := trace s1 @ [CancelPoll False]\<rparr>) = (f, s')" by simp
      from 3 be have be': "bootEraseSector cfg (of_int i) ?sp = (True, s1)" by simp
      from step.IH [OF True be' 3(2) rec] obtain ev where
        tr: "trace s' = trace (s1\<lparr>trace := trace s1 @ [CancelPoll False]\<rparr>) @ ev" and
        w: "writes_sent ev = 0" "enters ev = 0" and fs: "flow_shape f ev" and
        wc: "f = Return True \<longrightarrow> wasCanceled s'"
        by blast
      let ?ev = "evi @ [CancelPoll False] @ ev"
      have "trace s' = trace s @ ?ev" using tr by (simp add: t1 evi_def)
      moreover have "flow_shape f ?ev"
        using fs evi by (intro flow_shape_prepend) simp_all
      ultimately show ?thesis using evi w wc
        by (intro exI [of _ ?ev]) simp
    qed
  qed
qed

lemma enters_writes_only:
  "\<forall>x\<in>set (requests ev). \<exists>a c. x = Msg_boot_write_data a c \<Longrightarrow> enters ev = 0"
proof (induction ev)
  case Nil
  show ?case by simp
next
  case (Cons e ev)
  then show ?case
    by (cases e) auto
qed

lemma bootWriteData_shape:
  assumes run: "bootWriteData cfg addr d s = (r, s')"
  shows "\<exists>ev. trace s' = trace s @ ev \<and> cancel_shape r s' ev \<and> enters ev = 0 \<and>
           length (filter is_poll ev) = writes_sent ev \<and>
           (r \<and> \<not> wasCanceled s' \<longrightarrow>
              requests ev = write_requests cfg addr d \<and>
              acks_taken ev = chunk_count cfg d \<and> (\<forall>e\<in>set ev. \<not> is_bad_ack e) \<and> quiet ev)"
proof -
  let ?c = "chunk_count cfg d"
  let ?w = "min ?c 10"
  from run have loop: "bootWriteData_loop cfg addr d ?c ?w 0 0 s = (r, s')"
    by (simp add: bootWriteData_loop_eq)
  from loop_shape [OF loop] obtain ev where
    tr: "trace s' = trace s @ ev" and cs: "cancel_shape r s' ev" and
    pl: "length (filter is_poll ev) = writes_sent ev" and
    rq: "\<forall>x\<in>set (requests ev). \<exists>a c. x = Msg_boot_write_data a c"
    by blast
  have "requests ev = write_requests cfg addr d \<and>
        acks_taken ev = ?c \<and> (\<forall>e\<in>set ev. \<not> is_bad_ack e) \<and> quiet ev"
    if "r" "\<not> wasCanceled s'"
  proof -
    from loop that(1) have "bootWriteData_loop cfg addr d ?c ?w 0 0 s = (True, s')" by simp
    from loop_complete [OF this that(2)] obtain ev' where
      "trace s' = trace s @ ev'"
      "requests ev' = map (chunk_request cfg addr d) [min 0 ?c..<?c]"
      "acks_taken ev' = (?c + ?w) - max 0 ?w" "\<forall>e\<in>set ev'. \<not> is_bad_ack e" "quiet ev'"
      by auto
    moreover from this(1) tr have "ev' = ev" by simp
    ultimately show ?thesis by (simp add: write_requests_def)
  qed
  with tr cs pl enters_writes_only [OF rq] show ?thesis by blast
qed

lemma and_then_STEP_success:
  assumes "and_then (STEP (ok, s1)) k = (True, s')" "\<not> wasCanceled s'"
  shows "ok \<and> \<not> wasCanceled s1 \<and> k (s1\<lparr>trace := trace s1 @ [CancelPoll False]\<rparr>) = (True, s')"
proof (cases ok)
  case False
  with assms show ?thesis by (simp add: STEP_eq and_then_def)
next
  case True
  show ?thesis
  proof (cases "wasCanceled s1")
    case c: True
    with True assms(1) have "s' = s1\<lparr>trace := trace s1 @ [CancelPoll True]\<rparr>"
      by (simp add: STEP_eq and_then_def)
    with c assms(2) show ?thesis by simp
  next
    case False
    with True assms(1) show ?thesis by (simp add: STEP_eq and_then_def)
  qed
qed

lemma write_verify_exit_success:
  assumes run: "write_verify_exit cfg start d s = (True, s')" and nc: "\<not> wasCanceled s'"
  shows "\<exists>ev2 res ev3. trace s' = trace s @ ev2 @ Got res # ev3 \<and>
       requests ev2 = write_requests cfg (start + 8) (drop 8 d)
          @ [Msg_boot_verify (start + 8) (of_nat (length d - 8))] \<and>
       (\<forall>e\<in>set ev2. \<not> is_bad_ack e) \<and> acks_taken ev2 = chunk_count cfg (drop 8 d) \<and>
       remote_crc_of res = local_crc_of cfg (drop 8 d) \<and>
       requests ev3 = write_requests cfg start (take 8 d) @ [Msg_boot_exit]"
proof -
  obtain r1 s1 where w1: "bootWriteData cfg (start + 8) (drop 8 d) s = (r1, s1)"
    by (cases "bootWriteData cfg (start + 8) (drop 8 d) s")
  let ?s1 = "s1\<lparr>trace := trace s1 @ [CancelPoll False]\<rparr>"
  obtain r2 s2 where v: "bootVerifyData cfg (start + 8) (drop 8 d)
      (showProgress 85 ''Verifying'' ?s1) = (r2, s2)"
    by (cases "bootVerifyData cfg (start + 8) (drop 8 d) (showProgress 85 ''Verifying'' ?s1)")
  let ?s2 = "s2\<lparr>trace := trace s2 @ [CancelPoll False]\<rparr>"
  obtain r3 s3 where w2: "bootWriteData cfg start (take 8 d)
      (showProgress 90 ''Writing first 8 bytes'' ?s2) = (r3, s3)"
    by (cases "bootWriteData cfg start (take 8 d) (showProgress 90 ''Writing first 8 bytes'' ?s2)")
  let ?s3 = "s3\<lparr>trace := trace s3 @ [CancelPoll False]\<rparr>"
  obtain r4 s4 where x: "bootExit cfg (showProgress 95 ''Starting application'' ?s3) = (r4, s4)"
    by (cases "bootExit cfg (showProgress 95 ''Starting application'' ?s3)")
  let ?s4 = "s4\<lparr>trace := trace s4 @ [CancelPoll False]\<rparr>"
  from run have "and_then (STEP (r1, s1)) (\<lambda>s.
     and_then (STEP (bootVerifyData cfg (start + 8) (drop 8 d)
                       (showProgress 85 ''Verifying'' s))) (\<lambda>s.
     and_then (STEP (bootWriteData cfg start (take 8 d)
                       (showProgress 90 ''Writing first 8 bytes'' s))) (\<lambda>s.
     and_then (STEP (bootExit cfg (showProgress 95 ''Starting application'' s))) (\<lambda>s.
     (True, showProgress 100 ''Done.'' s))))) = (True, s')"
    by (simp add: write_verify_exit_def w1)
  from and_then_STEP_success [OF this nc] v have
    a1: "r1" "\<not> wasCanceled s1" and
    k1: "and_then (STEP (r2, s2)) (\<lambda>s.
     and_then (STEP (bootWriteData cfg start (take 8 d)
                       (showProgress 90 ''Writing first 8 bytes'' s))) (\<lambda>s.
     and_then (STEP (bootExit cfg (showProgress 95 ''Starting application'' s))) (\<lambda>s.
     (True, showProgress 100 ''Done.'' s)))) = (True, s')"
    by simp_all
  from and_then_STEP_success [OF k1 nc] w2 have
    a2: "r2" "\<not> wasCanceled s2" and
    k2: "and_then (STEP (r3, s3)) (\<lambda>s.
     and_then (STEP (bootExit cfg (showProgress 95 ''Starting application'' s))) (\<lambda>s.
     (True, showProgress 100 ''Done.'' s))) = (True, s')"
    by simp_all
  from and_then_STEP_success [OF k2 nc] x have
    a3: "r3" "\<not> wasCanceled s3" and
    k3: "and_then (STEP (r4, s4)) (\<lambda>s. (True, showProgress 100 ''Done.'' s)) = (True, s')"
    by simp_all
  from and_then_STEP_success [OF k3 nc] have
    a4: "r4" "\<not> wasCanceled s4" and k4: "s' = showProgress 100 ''Done.'' ?s4"
    by simp_all
  from bootWriteData_shape [OF w1] a1 obtain e1 where
    t1: "trace s1 = trace s @ e1" and
    q1: "requests e1 = write_requests cfg (start + 8) (drop 8 d)"
      "acks_taken e1 = chunk_count cfg (drop 8 d)" "\<forall>e\<in>set e1. \<not> is_bad_ack e"
    by blast
  from bootVerifyData_trace [OF v] a2 obtain ds res where
    t2: "trace s2 = trace s1 @ [CancelPoll False]
        @ [Sent (Msg_boot_verify (start + 8) (of_nat (length (drop 8 d))))]
        @ map Dropped ds @ [Got res]" and
    crc: "remote_crc_of res = local_crc_of cfg (drop 8 d)"
    by (auto simp: opt_list_def)
  from bootWriteData_shape [OF w2] a3 obtain e3 where
    t3: "trace s3 = trace s2 @ [CancelPoll False] @ e3" and
    q3: "requests e3 = write_requests cfg start (take 8 d)"
    by auto
  from bootExit_trace [OF x] a4 obtain ds' res' where
    t4: "trace s4 = trace s3 @ [CancelPoll False] @ [Sent Msg_boot_exit]
        @ map Dropped ds' @ [Got res']"
    by (auto simp: opt_list_def)
  let ?ev2 = "e1 @ [CancelPoll False]
        @ [Sent (Msg_boot_verify (start + 8) (of_nat (length d - 8)))] @ map Dropped ds"
  let ?ev3 = "[CancelPoll False] @ e3 @ [CancelPoll False] @ [Sent Msg_boot_exit]
        @ map Dropped ds' @ [Got res'] @ [CancelPoll False]"
  have "trace s' = trace s @ ?ev2 @ Got res # ?ev3"
    by (simp add: k4 t4 t3 t2 t1)
  moreover have "requests ?ev2 = write_requests cfg (start + 8) (drop 8 d)
          @ [Msg_boot_verify (start + 8) (of_nat (length d - 8))]"
    by (simp add: q1)
  moreover have "\<forall>e\<in>set ?ev2. \<not> is_bad_ack e"
    using q1(3) by auto
  moreover have "acks_taken ?ev2 = chunk_count cfg (drop 8 d)"
    by (simp add: q1)
  moreover have "requests ?ev3 = write_requests cfg start (take 8 d) @ [Msg_boot_exit]"
    by (simp add: q3)
  ultimately show ?thesis using crc by blast
qed

lemma progressDialog_reset_fields [simp]:
  "messageQueue (progressDialog_reset s) = messageQueue s"
  "pending (progressDialog_reset s) = pending s"
  "m_errorString (progressDialog_reset s) = m_errorString s"
  "wasCanceled (progressDialog_reset s) = False"
  "trace (progressDialog_reset s) = trace s"
  by (simp_all add: progressDialog_reset_def)

text \<open>When every request is answered in the next round of events, the steps succeed.\<close>

lemma bootEnter_next:
  assumes "messageQueue s = []" "pending s = ([m], c) # rest" "h_id m = MSG_ID_BOOT_RESPONSE"
    "10 < default_timeout cfg"
  shows "bootEnter cfg s =
     (let s1 = after_response m c
                 (sendMessage (Msg_boot_enter 0xB00710AD) (sendMessage shell_reset s))
      in if data m 0 \<noteq> 1
         then (False, s1\<lparr>m_errorString :=
                 ''Can't enter bootloader: '' @ fmt_d (uint (data m 0))\<rparr>)
         else (True, s1))"
proof -
  let ?s2 = "sendMessage (Msg_boot_enter 0xB00710AD) (sendMessage shell_reset s)"
  have "bootGetResponse ?s2 (default_timeout cfg) = (Some m, after_response m c ?s2)"
    by (rule bootGetResponse_after) (simp_all add: assms)
  then show ?thesis
    by (simp add: bootEnter_def bootResetHack_def shell_reset_def Let_def)
qed

lemma bootExit_next:
  assumes "messageQueue s = []" "pending s = ([m], c) # rest" "h_id m = MSG_ID_BOOT_RESPONSE"
    "10 < default_timeout cfg"
  shows "bootExit cfg s =
     (let s1 = after_response m c (sendMessage Msg_boot_exit s)
      in if data m 0 \<noteq> 1
         then (False, s1\<lparr>m_errorString :=
                 ''Can't exit bootloader: '' @ fmt_d (uint (data m 0))\<rparr>)
         else (True, s1))"
proof -
  let ?s2 = "sendMessage Msg_boot_exit s"
  have "bootGetResponse ?s2 (default_timeout cfg) = (Some m, after_response m c ?s2)"
    by (rule bootGetResponse_after) (simp_all add: assms)
  then show ?thesis
    by (simp add: bootExit_def Let_def)
qed

lemma bootEraseSector_next:
  assumes "messageQueue s = []" "pending s = ([m], c) # rest" "h_id m = MSG_ID_BOOT_RESPONSE"
  shows "bootEraseSector cfg sector s =
     (let s1 = after_response m c (sendMessage (Msg_boot_erase_sector sector) s)
      in if data m 0 \<noteq> FLASH_COMPLETE
         then (False, s1\<lparr>m_errorString :=
                 ''Can't erase sector '' @ fmt_d (sint sector) @ '': ''
                   @ flashStatusStr (data m 0)\<rparr>)
         else (True, s1))"
proof -
  let ?s2 = "sendMessage (Msg_boot_erase_sector sector) s"
  have "bootGetResponse ?s2 2000 = (Some m, after_response m c ?s2)"
    by (rule bootGetResponse_after) (simp_all add: assms)
  then show ?thesis
    by (simp add: bootEraseSector_def Let_def)
qed

lemma bootVerifyData_next:
  assumes "messageQueue s = []" "pending s = ([m], c) # rest" "h_id m = MSG_ID_BOOT_RESPONSE"
    "10 < default_timeout cfg"
  shows "bootVerifyData cfg addr d s =
     (let s1 = after_response m c (sendMessage (Msg_boot_verify addr (of_nat (length d))) s)
      in if remote_crc_of m \<noteq> local_crc_of cfg d
         then (False, s1\<lparr>m_errorString :=
                 ''Image CRC check failed. Expected 0x'' @ fmt_x 4 (unat (local_crc_of cfg d))
                   @ '', got 0x'' @ fmt_x 4 (unat (remote_crc_of m))\<rparr>)
         else (True, s1))"
proof -
  let ?s2 = "sendMessage (Msg_boot_verify addr (of_nat (length d))) s"
  have "bootGetResponse ?s2 (default_timeout cfg) = (Some m, after_response m c ?s2)"
    by (rule bootGetResponse_after) (simp_all add: assms)
  then show ?thesis
    by (simp add: bootVerifyData_def Let_def)
qed

lemma erase_loop_succeeds:
  "i \<le> 12 \<Longrightarrow> messageQueue s = [] \<Longrightarrow> \<not> wasCanceled s \<Longrightarrow>
   pending s = replicate (nat (12 - i)) ([response 9], False) @ rest \<Longrightarrow>
   \<exists>s'. erase_loop cfg i s = (Proceed, s') \<and> messageQueue s' = [] \<and> \<not> wasCanceled s' \<and>
        pending s' = rest \<and> m_errorString s' = m_errorString s"
proof (induction i s rule: erase_loop_induct [where cfg = cfg])
  case (step i s)
  show ?case
  proof (cases "i < 12")
    case False
    with step.prems show ?thesis by (simp add: erase_loop_done)
  next
    case True
    let ?sp = "showProgress (10 + 10 * (i - 4) div (12 - 4))
           (''Erasing sector '' @ fmt_d i @ ''...'') s"
    let ?s1 = "after_response (response 9) False
        (sendMessage (Msg_boot_erase_sector (of_int i)) ?sp)"
    from True have "nat (12 - i) = Suc (nat (12 - (i + 1)))" by simp
    with step.prems(4) have p: "pending ?sp = ([response 9], False) #
        (replicate (nat (12 - (i + 1))) ([response 9], False) @ rest)"
      by simp
    have rsp: "h_id (response 9) = MSG_ID_BOOT_RESPONSE" "data (response 9) 0 = FLASH_COMPLETE"
      by (simp_all add: response_def FLASH_COMPLETE_def)
    from step.prems(2) have q: "messageQueue ?sp = []" by simp
    have be: "bootEraseSector cfg (of_int i) ?sp = (True, ?s1)"
      using bootEraseSector_next [OF q p rsp(1), of cfg "of_int i"] rsp(2)
      by (simp add: Let_def)
    have nc: "\<not> wasCanceled ?s1" using step.prems(3) by simp
    let ?s2 = "?s1\<lparr>trace := trace ?s1 @ [CancelPoll False]\<rparr>"
    have "\<exists>s'. erase_loop cfg (i + 1) ?s2 = (Proceed, s') \<and> messageQueue s' = [] \<and>
        \<not> wasCanceled s' \<and> pending s' = rest \<and> m_errorString s' = m_errorString ?s2"
      using True step.prems(3) p
      by (intro step.IH [OF True be nc]) simp_all
    with erase_loop_step [OF True be] nc show ?thesis by simp
  qed
qed

lemma write_verify_exit_succeeds:
  assumes dt: "10 < default_timeout cfg" and q: "messageQueue s = []" and nc: "\<not> wasCanceled s"
    and p: "pending s = replicate (chunk_count cfg (drop 8 d)) ([response 9], False)
        @ ([m], False) # replicate (chunk_count cfg (take 8 d)) ([response 9], False)
        @ [([response 1], False)]"
    and m: "h_id m = MSG_ID_BOOT_RESPONSE" "remote_crc_of m = local_crc_of cfg (drop 8 d)"
  shows "\<exists>s'. write_verify_exit cfg start d s = (True, s') \<and> \<not> wasCanceled s' \<and>
           messageQueue s' = [] \<and> pending s' = [] \<and> m_errorString s' = m_errorString s"
proof -
  from bootWriteData_succeeds [OF dt q nc p, of "start + 8"] obtain s1 where
    w1: "bootWriteData cfg (start + 8) (drop 8 d) s = (True, s1)" and q1: "messageQueue s1 = []"
    and nc1: "\<not> wasCanceled s1"
    and p1: "pending s1 = ([m], False) # replicate (chunk_count cfg (take 8 d)) ([response 9], False)
        @ [([response 1], False)]"
    and e1: "m_errorString s1 = m_errorString s"
    by blast
  let ?s2 = "showProgress 85 ''Verifying'' (s1\<lparr>trace := trace s1 @ [CancelPoll False]\<rparr>)"
  let ?s3 = "after_response m False
      (sendMessage (Msg_boot_verify (start + 8) (of_nat (length (drop 8 d)))) ?s2)"
  have v: "bootVerifyData cfg (start + 8) (drop 8 d) ?s2 = (True, ?s3)"
    using bootVerifyData_next [of ?s2 m False _ cfg "start + 8" "drop 8 d"] q1 p1 m dt
    by (simp add: Let_def)
  let ?s4 = "showProgress 90 ''Writing first 8 bytes'' (?s3\<lparr>trace := trace ?s3 @ [CancelPoll False]\<rparr>)"
  have "\<exists>s'. bootWriteData cfg start (take 8 d) ?s4 = (True, s') \<and>
          messageQueue s' = [] \<and> \<not> wasCanceled s' \<and> pending s' = [([response 1], False)] \<and>
          m_errorString s' = m_errorString ?s4"
    by (rule bootWriteData_succeeds [OF dt]) (simp_all add: nc1 p1)
  then obtain s5 where
    w5: "bootWriteData cfg start (take 8 d) ?s4 = (True, s5)" and q5: "messageQueue s5 = []"
    and nc5: "\<not> wasCanceled s5" and p5: "pending s5 = [([response 1], False)]"
    and e5: "m_errorString s5 = m_errorString ?s4"
    by blast
  let ?s6 = "showProgress 95 ''Starting application'' (s5\<lparr>trace := trace s5 @ [CancelPoll False]\<rparr>)"
  let ?s7 = "after_response (response 1) False (sendMessage Msg_boot_exit ?s6)"
  have x: "bootExit cfg ?s6 = (True, ?s7)"
    using bootExit_next [of ?s6 "response 1" False "[]" cfg] q5 p5 dt
    by (simp add: Let_def response_def)
  have "write_verify_exit cfg start d s =
     (True, showProgress 100 ''Done.'' (?s7\<lparr>trace := trace ?s7 @ [CancelPoll False]\<rparr>))"
    unfolding write_verify_exit_def
    apply (simp only: w1 STEP_eq)
    apply (simp only: nc1 and_then_def if_False prod.case flow.case simp_thms)
    apply (simp only: v STEP_eq)
    apply (subgoal_tac "\<not> wasCanceled ?s3")
     apply (simp only: and_then_def if_False prod.case flow.case simp_thms)
     apply (simp only: w5 STEP_eq)
     apply (simp only: nc5 and_then_def if_False prod.case flow.case simp_thms)
     apply (simp only: x STEP_eq)
     apply (subgoal_tac "\<not> wasCanceled ?s7")
      apply (simp only: and_then_def if_False prod.case flow.case simp_thms)
     apply (simp add: nc5)
    apply (simp add: nc1)
    done
  moreover have "\<not> wasCanceled ?s7" "pending ?s7 = []" "m_errorString ?s7 = m_errorString s"
    by (simp_all add: nc5 p5 e5 e1)
  ultimately show ?thesis by simp
qed

lemma sendHexFile_succeeds:
  assumes dt: "10 < default_timeout cfg" and q: "messageQueue s = []"
    and p: "pending s = ([response 1], False) # replicate 8 ([response 9], False)
        @ replicate (chunk_count cfg (drop 8 (sdata sec))) ([response 9], False)
        @ ([m], False) # replicate (chunk_count cfg (take 8 (sdata sec))) ([response 9], False)
        @ [([response 1], False)]"
    and m: "h_id m = MSG_ID_BOOT_RESPONSE" "remote_crc_of m = local_crc_of cfg (drop 8 (sdata sec))"
  shows "\<exists>s'. sendHexFile cfg fileName (Loaded sec others) s = (True, s') \<and> \<not> wasCanceled s' \<and>
           m_errorString s' = m_errorString s"
proof -
  let ?rest = "replicate (chunk_count cfg (drop 8 (sdata sec))) ([response 9], False)
        @ ([m], False) # replicate (chunk_count cfg (take 8 (sdata sec))) ([response 9], False)
        @ [([response 1], False)]"
  let ?s0 = "showProgress 0 (''Loading '' @ fileName) (progressDialog_reset s)"
  let ?s1 = "showProgress (int (0 + 1)) ''Entering bootloader'' ?s0"
  let ?s2 = "after_response (response 1) False
                 (sendMessage (Msg_boot_enter 0xB00710AD) (sendMessage shell_reset ?s1))"
  let ?s3 = "?s2\<lparr>trace := trace ?s2 @ [CancelPoll False]\<rparr>"
  have be: "bootEnter cfg ?s1 = (True, ?s2)"
    using bootEnter_next [of ?s1 "response 1" False "replicate 8 ([response 9], False) @ ?rest" cfg]
      q p dt
    by (simp add: Let_def response_def)
  have nc2: "\<not> wasCanceled ?s2" by simp
  have "enter_loop cfg 0 False ?s0 = enter_loop cfg (0 + 1) True ?s3"
    using enter_loop_step [of 0 False cfg ?s0 True ?s2, OF _ _ be] nc2 by simp
  also have "\<dots> = (Proceed, True, ?s3)" by (rule enter_loop_done) simp
  finally have el: "enter_loop cfg 0 False ?s0 = (Proceed, True, ?s3)" .
  have "\<exists>s'. erase_loop cfg 4 ?s3 = (Proceed, s') \<and> messageQueue s' = [] \<and> \<not> wasCanceled s' \<and>
        pending s' = ?rest \<and> m_errorString s' = m_errorString ?s3"
    by (rule erase_loop_succeeds) (simp_all add: p)
  then obtain s4 where er: "erase_loop cfg 4 ?s3 = (Proceed, s4)" and q4: "messageQueue s4 = []"
    and nc4: "\<not> wasCanceled s4" and p4: "pending s4 = ?rest"
    and e4: "m_errorString s4 = m_errorString s"
    by auto
  from write_verify_exit_succeeds [OF dt q4 nc4 p4 m, of "offset sec"] e4 obtain s' where
    "write_verify_exit cfg (offset sec) (sdata sec) s4 = (True, s')" "\<not> wasCanceled s'"
    "m_errorString s' = m_errorString s"
    by auto
  with el er show ?thesis
    by (simp add: sendHexFile_def Let_def and_then_def)
qed

text \<open>A step of the pipeline followed by the rest of it.\<close>

lemma STEP_shape:
  assumes st: "STEP (ok, s1) = (f, s2)"
    and op: "trace s1 = trace s @ e1" "cancel_shape ok s1 e1" "enters e1 = 0"
  shows "\<exists>ev. trace s2 = trace s @ ev \<and> enters ev = 0 \<and> flow_shape f ev \<and>
           (f = Proceed \<longrightarrow> s2 = s1\<lparr>trace := trace s1 @ [CancelPoll False]\<rparr>)"
proof (cases ok)
  case False
  with st have "f = Return False" "s2 = s1" by (simp_all add: STEP_eq)
  moreover from False op(2) have "quiet e1" by (auto simp: cancel_shape_def)
  ultimately show ?thesis using op by (simp add: flow_shape_def)
next
  case True
  show ?thesis
  proof (cases "wasCanceled s1")
    case c: True
    with True st have fs: "f = Return True" "s2 = s1\<lparr>trace := trace s1 @ [CancelPoll True]\<rparr>"
      by (simp_all add: STEP_eq)
    from op(2) have "cancelled_tail (e1 @ [CancelPoll True])"
      unfolding cancel_shape_def
    proof (elim disjE exE conjE)
      assume "quiet e1"
      then show ?thesis by (rule cancelled_tail_last)
    next
      fix pre
      assume "e1 = pre @ [CancelPoll True]" "quiet pre"
      then have "cancelled_tail e1" using cancelled_tail_last [of pre] by simp
      then show ?thesis by (rule cancelled_tail_again)
    qed
    with fs op show ?thesis by (simp add: flow_shape_def)
  next
    case nc: False
    with True st have fs: "f = Proceed" "s2 = s1\<lparr>trace := trace s1 @ [CancelPoll False]\<rparr>"
      by (simp_all add: STEP_eq)
    from op(2) nc have "quiet e1" by (auto simp: cancel_shape_def)
    with fs op show ?thesis by (simp add: flow_shape_def)
  qed
qed

lemma and_then_shape:
  assumes run: "and_then (f, s1) k = (r, s')"
    and first: "trace s1 = trace s @ e1" "enters e1 = 0" "flow_shape f e1"
    and rest: "f = Proceed \<Longrightarrow> k s1 = (r, s') \<Longrightarrow>
       \<exists>e2. trace s' = trace s1 @ e2 \<and> enters e2 = 0 \<and> run_shape r e2"
  shows "\<exists>ev. trace s' = trace s @ ev \<and> enters ev = 0 \<and> run_shape r ev"
proof (cases f)
  case (Return b)
  with run have "r = b" "s' = s1" by (simp_all add: and_then_def)
  with first Return show ?thesis by (auto simp: flow_shape_def run_shape_def split: if_splits)
next
  case Proceed
  with run have "k s1 = (r, s')" by (simp add: and_then_def)
  from rest [OF Proceed this] obtain e2 where
    e2: "trace s' = trace s1 @ e2" "enters e2 = 0" "run_shape r e2" by blast
  from first(3) Proceed have "quiet e1" by (simp add: flow_shape_def)
  with e2 first have "trace s' = trace s @ (e1 @ e2) \<and> enters (e1 @ e2) = 0 \<and>
      run_shape r (e1 @ e2)"
    by (simp add: run_shape_prepend)
  then show ?thesis by blast
qed

lemma step_then_shape:
  assumes run: "and_then (STEP (ok, s1)) k = (r, s')"
    and op: "trace s1 = trace s @ e1" "cancel_shape ok s1 e1" "enters e1 = 0"
    and rest: "\<And>s2. k s2 = (r, s') \<Longrightarrow>
       \<exists>e2. trace s' = trace s2 @ e2 \<and> enters e2 = 0 \<and> run_shape r e2"
  shows "\<exists>ev. trace s' = trace s @ ev \<and> enters ev = 0 \<and> run_shape r ev"
proof -
  obtain f s2 where st: "STEP (ok, s1) = (f, s2)" by (cases "STEP (ok, s1)")
  from STEP_shape [OF st op] obtain ev where
    ev: "trace s2 = trace s @ ev" "enters ev = 0" "flow_shape f ev" by blast
  from run st have "and_then (f, s2) k = (r, s')" by simp
  then show ?thesis using ev
  proof (rule and_then_shape)
    assume "k s2 = (r, s')"
    then show "\<exists>e2. trace s' = trace s2 @ e2 \<and> enters e2 = 0 \<and> run_shape r e2"
      by (rule rest)
  qed
qed

lemma exchange_shape:
  "cancel_shape ok s' ([Sent x] @ map Dropped ds @ map Got ms)"
  by (simp add: cancel_shape_def)

lemma write_verify_exit_shape:
  assumes run: "write_verify_exit cfg start d s = (r, s')"
  shows "\<exists>ev. trace s' = trace s @ ev \<and> enters ev = 0 \<and> run_shape r ev"
proof -
  define k4 where "k4 = (\<lambda>s. (True, showProgress 100 ''Done.'' s))"
  define k3 where "k3 = (\<lambda>s. and_then (STEP (bootExit cfg
      (showProgress 95 ''Starting application'' s))) k4)"
  define k2 where "k2 = (\<lambda>s. and_then (STEP (bootWriteData cfg start (take 8 d)
      (showProgress 90 ''Writing first 8 bytes'' s))) k3)"
  define k1 where "k1 = (\<lambda>s. and_then (STEP (bootVerifyData cfg (start + 8) (drop 8 d)
      (showProgress 85 ''Verifying'' s))) k2)"
  have p4: "\<exists>e. trace s' = trace s @ e \<and> enters e = 0 \<and> run_shape r e"
    if "k4 s = (r, s')" for s r s'
    using that by (auto simp: k4_def run_shape_def)
  have p3: "\<exists>e. trace s' = trace s @ e \<and> enters e = 0 \<and> run_shape r e"
    if k: "k3 s = (r, s')" for s r s'
  proof -
    let ?s0 = "showProgress 95 ''Starting application'' s"
    obtain ok s1 where op: "bootExit cfg ?s0 = (ok, s1)" by (cases "bootExit cfg ?s0")
    from bootExit_trace [OF op] obtain ds rr where
      t: "trace s1 = trace s @ [Sent Msg_boot_exit] @ map Dropped ds @ map Got (opt_list rr)"
      by auto
    from k op have "and_then (STEP (ok, s1)) k4 = (r, s')" by (simp add: k3_def)
    then show ?thesis
      by (rule step_then_shape [OF _ t exchange_shape]) (simp, rule p4)
  qed
  have p2: "\<exists>e. trace s' = trace s @ e \<and> enters e = 0 \<and> run_shape r e"
    if k: "k2 s = (r, s')" for s r s'
  proof -
    let ?s0 = "showProgress 90 ''Writing first 8 bytes'' s"
    obtain ok s1 where op: "bootWriteData cfg start (take 8 d) ?s0 = (ok, s1)"
      by (cases "bootWriteData cfg start (take 8 d) ?s0")
    from bootWriteData_shape [OF op] obtain e1 where
      t: "trace s1 = trace s @ e1" "cancel_shape ok s1 e1" "enters e1 = 0"
      by auto
    from k op have "and_then (STEP (ok, s1)) k3 = (r, s')" by (simp add: k2_def)
    then show ?thesis
      by (rule step_then_shape [OF _ t]) (rule p3)
  qed
  have p1: "\<exists>e. trace s' = trace s @ e \<and> enters e = 0 \<and> run_shape r e"
    if k: "k1 s = (r, s')" for s r s'
  proof -
    let ?s0 = "showProgress 85 ''Verifying'' s"
    obtain ok s1 where op: "bootVerifyData cfg (start + 8) (drop 8 d) ?s0 = (ok, s1)"
      by (cases "bootVerifyData cfg (start + 8) (drop 8 d) ?s0")
    from bootVerifyData_trace [OF op] obtain ds rr where
      t: "trace s1 = trace s @ [Sent (Msg_boot_verify (start + 8) (of_nat (length (drop 8 d))))]
           @ map Dropped ds @ map Got (opt_list rr)"
      by auto
    from k op have "and_then (STEP (ok, s1)) k2 = (r, s')" by (simp add: k1_def)
    then show ?thesis
      by (rule step_then_shape [OF _ t exchange_shape]) (simp, rule p2)
  qed
  obtain ok s1 where op: "bootWriteData cfg (start + 8) (drop 8 d) s = (ok, s1)"
    by (cases "bootWriteData cfg (start + 8) (drop 8 d) s")
  from bootWriteData_shape [OF op] obtain e1 where
    t: "trace s1 = trace s @ e1" "cancel_shape ok s1 e1" "enters e1 = 0"
    by auto
  from run op have "and_then (STEP (ok, s1)) k1 = (r, s')"
    by (simp add: write_verify_exit_def k1_def k2_def k3_def k4_def)
  then show ?thesis
    by (rule step_then_shape [OF _ t]) (rule p1)
qed

text \<open>An environment that never grants entry.\<close>

lemma never_entered_fields [simp]:
  "never_entered (sendMessage x s) = never_entered s"
  "never_entered (showProgress v l s) = never_entered s"
  "never_entered (progressDialog_reset s) = never_entered s"
  "never_entered (s\<lparr>trace := t\<rparr>) = never_entered s"
  "never_entered (s\<lparr>m_errorString := e\<rparr>) = never_entered s"
  by (simp_all add: never_entered_def)

lemma bootGetResponse_never:
  assumes run: "bootGetResponse s t = (r, s')" and ne: "never_entered s"
  shows "never_entered s' \<and> wasCanceled s' = wasCanceled s \<and>
         (\<forall>m. r = Some m \<longrightarrow> data m 0 \<noteq> 1)"
proof -
  from bootGetResponse_result [OF run] obtain k ds q where
    split: "messageQueue s @ arrivals k s = ds @ opt_list r @ q" and
    id: "\<forall>m. r = Some m \<longrightarrow> h_id m = MSG_ID_BOOT_RESPONSE \<and> int k * 10 < t" and
    s': "s' = s\<lparr>messageQueue := q, pending := drop k (pending s),
            wasCanceled := (wasCanceled s \<or> cancel_within k s),
            trace := trace s @ map Dropped ds @ map Got (opt_list r),
            m_errorString := (if r = None then ''Time out'' else m_errorString s)\<rparr>"
    by blast
  from ne have all: "\<forall>m\<in>set (messageQueue s) \<union> set (concat (map fst (pending s))).
      \<not> grants_entry m" and nc: "\<forall>p\<in>set (pending s). \<not> snd p"
    by (auto simp: never_entered_def list_all_iff list_ex_iff)
  have sub: "set (arrivals k s) \<subseteq> set (concat (map fst (pending s)))"
    unfolding arrivals_def by (auto dest: in_set_takeD)
  have "set (opt_list r @ q) \<subseteq> set (messageQueue s @ arrivals k s)"
    unfolding split by auto
  with sub have in1: "set (opt_list r) \<union> set q
      \<subseteq> set (messageQueue s) \<union> set (concat (map fst (pending s)))"
    by auto
  have "set (concat (map fst (drop k (pending s)))) \<subseteq> set (concat (map fst (pending s)))"
    by (auto dest: in_set_dropD)
  with in1 all have q: "\<forall>m\<in>set q \<union> set (concat (map fst (drop k (pending s)))).
      \<not> grants_entry m"
    by blast
  have c: "\<not> cancel_within k s"
    using nc by (auto simp: cancel_within_def list_ex_iff dest: in_set_takeD)
  have p: "\<forall>p\<in>set (drop k (pending s)). \<not> snd p"
    using nc by (auto dest: in_set_dropD)
  have r: "data m 0 \<noteq> 1" if "r = Some m" for m
  proof -
    from that in1 all have "\<not> grants_entry m" by (auto simp: opt_list_def)
    with id that show ?thesis by (simp add: grants_entry_def)
  qed
  from q p have "never_entered s'"
    unfolding s' by (auto simp: never_entered_def list_all_iff list_ex_iff)
  moreover have "wasCanceled s' = wasCanceled s" unfolding s' using c by simp
  ultimately show ?thesis using r by blast
qed

lemma bootEnter_never:
  assumes run: "bootEnter cfg s = (ok, s')" and ne: "never_entered s"
  shows "\<not> ok \<and> never_entered s' \<and> wasCanceled s' = wasCanceled s"
proof -
  let ?s2 = "sendMessage (Msg_boot_enter 0xB00710AD) (sendMessage shell_reset s)"
  obtain r s3 where g: "bootGetResponse ?s2 (default_timeout cfg) = (r, s3)"
    by (cases "bootGetResponse ?s2 (default_timeout cfg)")
  from ne have "never_entered ?s2" by simp
  from bootGetResponse_never [OF g this] have
    "never_entered s3" "wasCanceled s3 = wasCanceled s" "\<forall>m. r = Some m \<longrightarrow> data m 0 \<noteq> 1"
    by simp_all
  with run g show ?thesis
    by (cases r) (auto simp: bootEnter_def bootResetHack_def shell_reset_def Let_def)
qed

lemma enter_loop_never:
  "enter_loop cfg tries ok s = (f, ok', s') \<Longrightarrow> never_entered s \<Longrightarrow> \<not> wasCanceled s \<Longrightarrow>
   \<not> ok \<Longrightarrow> f = Proceed \<and> \<not> ok' \<and> \<not> wasCanceled s'"
proof (induction tries ok s rule: enter_loop_induct [where cfg = cfg])
  case (step tries ok s)
  show ?case
  proof (cases "tries < 100")
    case False
    with step.prems show ?thesis by (simp add: enter_loop_done)
  next
    case True
    let ?s1 = "showProgress (int (tries + 1)) ''Entering bootloader'' s"
    obtain ok1 s2 where be: "bootEnter cfg ?s1 = (ok1, s2)" by (cases "bootEnter cfg ?s1")
    from step.prems(2) have "never_entered ?s1" by simp
    from bootEnter_never [OF be this] step.prems(3) have
      n: "\<not> ok1" "never_entered s2" "\<not> wasCanceled s2" by simp_all
    from enter_loop_step [OF True step.prems(4) be] n(3) step.prems(1) have
      "enter_loop cfg (tries + 1) ok1 (s2\<lparr>trace := trace s2 @ [CancelPoll False]\<rparr>)
          = (f, ok', s')"
      by simp
    then show ?thesis
      using n by (intro step.IH [OF True step.prems(4) be n(3)]) simp_all
  qed
qed

lemma enters_after_grant_le: "enters (after_grant ev) \<le> enters ev"
  by (induction ev) (auto simp: after_grant_def enters_def)

lemma enters_after_grant_append:
  "enters (after_grant a) = 0 \<Longrightarrow> enters b = 0 \<Longrightarrow> enters (after_grant (a @ b)) = 0"
proof (cases "\<forall>e\<in>set a. \<not> is_grant e")
  case True
  assume "enters b = 0"
  with True enters_after_grant_le [of b] show ?thesis by (simp add: after_grant_none)
next
  case False
  then obtain e where "e \<in> set a" "\<not> \<not> is_grant e" by blast
  then have "after_grant (a @ b) = after_grant a @ b"
    unfolding after_grant_def by (rule dropWhile_append1)
  moreover assume "enters (after_grant a) = 0" "enters b = 0"
  ultimately show ?thesis by simp
qed

text \<open>The whole run: its trace, its attempts to enter and how a cancellation ends it.\<close>

lemma sendHexFile_run:
  assumes run: "sendHexFile cfg fileName (Loaded sec others) s = (r, s')"
  shows "\<exists>ev. trace s' = trace s @ ev \<and> run_shape r ev \<and>
           enters ev \<le> 100 \<and> enters (after_grant ev) = 0 \<and>
           (\<not> r \<longrightarrow> (\<exists>e\<in>set ev. is_grant e) \<or>
              enters ev = 100 \<and> m_errorString s' = ''Can't enter boot loader'') \<and>
           (never_entered s \<longrightarrow>
              \<not> r \<and> enters ev = 100 \<and> m_errorString s' = ''Can't enter boot loader'')"
proof -
  let ?s0 = "showProgress 0 (''Loading '' @ fileName) (progressDialog_reset s)"
  obtain f ok s1 where el: "enter_loop cfg 0 False ?s0 = (f, ok, s1)"
    by (cases "enter_loop cfg 0 False ?s0") auto
  from enter_loop_shape [OF el] obtain e1 where
    t1: "trace s1 = trace s @ e1" and fs: "flow_shape f e1" and
    nf: "f \<noteq> Return False" and n1: "enters e1 \<le> 100" and
    g1: "enters (after_grant e1) = 0" and
    ex: "f = Proceed \<and> \<not> ok \<longrightarrow> enters e1 = 100" and
    gr: "ok \<longrightarrow> (\<exists>e\<in>set e1. is_grant e)"
    by auto
  have never: "f = Proceed \<and> \<not> ok" if "never_entered s"
    using enter_loop_never [OF el] that by simp
  show ?thesis
  proof (cases f)
    case (Return b)
    with nf have b: "b" by auto
    with Return run el have rs: "r" "s' = s1" by (simp_all add: sendHexFile_def Let_def)
    from fs Return b have "run_shape True e1" by (simp add: flow_shape_def run_shape_def)
    with rs t1 n1 g1 never Return show ?thesis by auto
  next
    case Proceed
    then have q1: "quiet e1" using fs by (simp add: flow_shape_def)
    show ?thesis
    proof (cases ok)
      case False
      with Proceed run el have rs: "\<not> r" "s' = s1\<lparr>m_errorString := ''Can't enter boot loader''\<rparr>"
        by (simp_all add: sendHexFile_def Let_def)
      from False Proceed ex have "enters e1 = 100" by simp
      with rs t1 q1 g1 show ?thesis
        by (intro exI [of _ e1]) (simp add: run_shape_def)
    next
      case True
      obtain g s2 where er: "erase_loop cfg 4 s1 = (g, s2)" by (cases "erase_loop cfg 4 s1")
      from erase_loop_shape [OF er] obtain e2 where
        t2: "trace s2 = trace s1 @ e2" "enters e2 = 0" "flow_shape g e2"
        by auto
      from run el Proceed True er have
        "and_then (g, s2) (write_verify_exit cfg (offset sec) (sdata sec)) = (r, s')"
        by (simp add: sendHexFile_def Let_def)
      then have "\<exists>ev. trace s' = trace s1 @ ev \<and> enters ev = 0 \<and> run_shape r ev"
        using t2
      proof (rule and_then_shape)
        assume "write_verify_exit cfg (offset sec) (sdata sec) s2 = (r, s')"
        then show "\<exists>e2. trace s' = trace s2 @ e2 \<and> enters e2 = 0 \<and> run_shape r e2"
          by (rule write_verify_exit_shape)
      qed
      then obtain e3 where
        t3: "trace s' = trace s1 @ e3" "enters e3 = 0" "run_shape r e3" by blast
      from gr True have grant: "\<exists>e\<in>set (e1 @ e3). is_grant e" by auto
      have "trace s' = trace s @ (e1 @ e3)" using t1 t3 by simp
      moreover have "run_shape r (e1 @ e3)" using q1 t3 by (simp add: run_shape_prepend)
      moreover have "enters (e1 @ e3) \<le> 100" using n1 t3 by simp
      moreover have "enters (after_grant (e1 @ e3)) = 0"
        using g1 t3 by (simp add: enters_after_grant_append)
      moreover have "\<not> never_entered s" using never True by blast
      ultimately show ?thesis using grant by blast
    qed
  qed
qed

lemma run_shape_cancelled:
  assumes "run_shape r ev" "ev = pre @ CancelPoll True # post"
  shows "r \<and> list_all (\<lambda>e. e = CancelPoll True) post"
proof -
  from assms(2) have "\<not> quiet ev" by simp
  with assms(1) obtain p n where r: r and
    ev: "ev = p @ replicate (Suc n) (CancelPoll True)" and q: "quiet p"
    by (auto simp: run_shape_def cancelled_tail_def)
  from ev assms(2) have "pre @ CancelPoll True # post = p @ replicate (Suc n) (CancelPoll True)"
    by simp
  then obtain us where
    "pre = p @ us \<and> us @ CancelPoll True # post = replicate (Suc n) (CancelPoll True) \<or>
     pre @ us = p \<and> CancelPoll True # post = us @ replicate (Suc n) (CancelPoll True)"
    unfolding append_eq_append_conv2 by blast
  then have "set post \<subseteq> set (replicate (Suc n) (CancelPoll True))"
  proof (elim disjE conjE)
    assume "us @ CancelPoll True # post = replicate (Suc n) (CancelPoll True)"
    then have "set (us @ CancelPoll True # post) = set (replicate (Suc n) (CancelPoll True))"
      by simp
    then show ?thesis by auto
  next
    assume a: "pre @ us = p" "CancelPoll True # post = us @ replicate (Suc n) (CancelPoll True)"
    show ?thesis
    proof (cases us)
      case Nil
      with a(2) have "set (CancelPoll True # post) = set (replicate (Suc n) (CancelPoll True))"
        by simp
      then show ?thesis by auto
    next
      case (Cons u us')
      with a(2) have "u = CancelPoll True" by simp
      with Cons a(1) q show ?thesis by auto
    qed
  qed
  with r show ?thesis by (auto simp: list_all_iff)
qed

lemma sendHexFile_shape:
  assumes run: "sendHexFile cfg fileName ih s = (r, s')"
  shows "\<exists>ev. trace s' = trace s @ ev \<and> run_shape r ev"
proof (cases ih)
  case (LoadFailed e)
  with run have "trace s' = trace s" by (auto simp: sendHexFile_def Let_def)
  then show ?thesis by (intro exI [of _ "[]"]) (simp add: run_shape_def)
next
  case (Loaded sec others)
  with run sendHexFile_run [of cfg fileName sec others s r s'] show ?thesis by blast
qed

text \<open>Single attempts to enter, answered in the next round of events.\<close>

lemma enter_loop_granted_cancelled:
  assumes dt: "10 < default_timeout cfg" and q: "messageQueue s = []"
    and p: "pending s = ([m], True) # rest"
    and m: "h_id m = MSG_ID_BOOT_RESPONSE" "data m 0 = 1" and lt: "tries < 100"
  shows "\<exists>s'. enter_loop cfg tries False s = (Return True, True, s') \<and>
           trace s' = trace s @ [Sent shell_reset, Sent (Msg_boot_enter 0xB00710AD), Got m,
                                 CancelPoll True] \<and>
           m_errorString s' = m_errorString s"
proof -
  let ?s1 = "showProgress (int (tries + 1)) ''Entering bootloader'' s"
  let ?s2 = "after_response m True
                 (sendMessage (Msg_boot_enter 0xB00710AD) (sendMessage shell_reset ?s1))"
  have be: "bootEnter cfg ?s1 = (True, ?s2)"
    using bootEnter_next [of ?s1 m True rest cfg] q p m dt by (simp add: Let_def)
  have "wasCanceled ?s2" by simp
  with enter_loop_step [of tries False, OF lt _ be] have
    "enter_loop cfg tries False s = (Return True, True, ?s2\<lparr>trace := trace ?s2 @ [CancelPoll True]\<rparr>)"
    by simp
  then show ?thesis by simp
qed

lemma enter_loop_refused:
  assumes dt: "10 < default_timeout cfg" and q: "messageQueue s = []"
    and p: "pending s = ([m], False) # rest"
    and m: "h_id m = MSG_ID_BOOT_RESPONSE" "data m 0 \<noteq> 1" and lt: "tries < 100"
    and nc: "\<not> wasCanceled s"
  shows "\<exists>s1. enter_loop cfg tries False s = enter_loop cfg (tries + 1) False s1 \<and>
           trace s1 = trace s @ [Sent shell_reset, Sent (Msg_boot_enter 0xB00710AD), Got m,
                                 CancelPoll False] \<and>
           messageQueue s1 = [] \<and> pending s1 = rest \<and> \<not> wasCanceled s1"
proof -
  let ?s1 = "showProgress (int (tries + 1)) ''Entering bootloader'' s"
  let ?s2 = "after_response m False
                 (sendMessage (Msg_boot_enter 0xB00710AD) (sendMessage shell_reset ?s1))"
  let ?s3 = "?s2\<lparr>m_errorString := ''Can't enter bootloader: '' @ fmt_d (uint (data m 0))\<rparr>"
  have be: "bootEnter cfg ?s1 = (False, ?s3)"
    using bootEnter_next [of ?s1 m False rest cfg] q p m dt by (simp add: Let_def)
  let ?s4 = "?s3\<lparr>trace := trace ?s3 @ [CancelPoll False]\<rparr>"
  have "\<not> wasCanceled ?s3" using nc by simp
  with enter_loop_step [of tries False, OF lt _ be] have
    "enter_loop cfg tries False s = enter_loop cfg (tries + 1) False ?s4"
    by simp
  moreover have "trace ?s4 = trace s @ [Sent shell_reset, Sent (Msg_boot_enter 0xB00710AD), Got m,
                                 CancelPoll False]" by simp
  moreover have "messageQueue ?s4 = []" "pending ?s4 = rest" "\<not> wasCanceled ?s4"
    using p nc by simp_all
  ultimately show ?thesis by blast
qed

lemma cancelled_early_run:
  "\<exists>s'. sendHexFile sample_cfg fileName (Loaded sec others) cancelled_early = (True, s') \<and>
     trace s' = [Sent shell_reset, Sent (Msg_boot_enter 0xB00710AD), Got (response 1),
                 CancelPoll True] \<and>
     m_errorString s' = []"
proof -
  let ?s0 = "showProgress 0 (''Loading '' @ fileName) (progressDialog_reset cancelled_early)"
  have "\<exists>s'. enter_loop sample_cfg 0 False ?s0 = (Return True, True, s') \<and>
           trace s' = trace ?s0 @ [Sent shell_reset, Sent (Msg_boot_enter 0xB00710AD),
                                   Got (response 1), CancelPoll True] \<and>
           m_errorString s' = m_errorString ?s0"
    by (rule enter_loop_granted_cancelled [where rest = "[]"])
      (simp_all add: sample_cfg_def cancelled_early_def idle_def response_def)
  then obtain s' where "enter_loop sample_cfg 0 False ?s0 = (Return True, True, s')"
    "trace s' = [Sent shell_reset, Sent (Msg_boot_enter 0xB00710AD), Got (response 1),
                 CancelPoll True]" "m_errorString s' = []"
    by (auto simp: cancelled_early_def idle_def)
  then show ?thesis by (simp add: sendHexFile_def Let_def)
qed

lemma refused_once_run:
  "\<exists>s'. sendHexFile sample_cfg fileName (Loaded sec others) refused_once = (True, s') \<and>
     trace s' = [Sent shell_reset, Sent (Msg_boot_enter 0xB00710AD), Got (response 0),
                 CancelPoll False,
                 Sent shell_reset, Sent (Msg_boot_enter 0xB00710AD), Got (response 1),
                 CancelPoll True]"
proof -
  let ?s0 = "showProgress 0 (''Loading '' @ fileName) (progressDialog_reset refused_once)"
  have "\<exists>s1. enter_loop sample_cfg 0 False ?s0 = enter_loop sample_cfg (0 + 1) False s1 \<and>
           trace s1 = trace ?s0 @ [Sent shell_reset, Sent (Msg_boot_enter 0xB00710AD),
                                   Got (response 0), CancelPoll False] \<and>
           messageQueue s1 = [] \<and> pending s1 = [([response 1], True)] \<and> \<not> wasCanceled s1"
    by (rule enter_loop_refused)
      (simp_all add: sample_cfg_def refused_once_def idle_def response_def)
  then obtain s1 where
    a: "enter_loop sample_cfg 0 False ?s0 = enter_loop sample_cfg (0 + 1) False s1" and
    t1: "trace s1 = [Sent shell_reset, Sent (Msg_boot_enter 0xB00710AD),
                     Got (response 0), CancelPoll False]" and
    e1: "messageQueue s1 = []" "pending s1 = [([response 1], True)]"
    by (auto simp: refused_once_def idle_def)
  have "\<exists>s'. enter_loop sample_cfg (0 + 1) False s1 = (Return True, True, s') \<and>
           trace s' = trace s1 @ [Sent shell_reset, Sent (Msg_boot_enter 0xB00710AD),
                                   Got (response 1), CancelPoll True] \<and>
           m_errorString s' = m_errorString s1"
    by (rule enter_loop_granted_cancelled [where rest = "[]"])
      (simp_all add: sample_cfg_def e1 response_def)
  then obtain s' where "enter_loop sample_cfg (0 + 1) False s1 = (Return True, True, s')"
    "trace s' = trace s1 @ [Sent shell_reset, Sent (Msg_boot_enter 0xB00710AD),
                                   Got (response 1), CancelPoll True]"
    by blast
  with a t1 show ?thesis by (simp add: sendHexFile_def Let_def)
qed

lemma never_entered_idle: "never_entered idle"
  by (simp add: never_entered_def idle_def)

text \<open>Where the cancellation is polled.\<close>

lemma polls_after_mono: "polls_after False ev \<Longrightarrow> polls_after w ev"
  by (cases ev) auto

lemma polls_after_append:
  "polls_after w a \<Longrightarrow> polls_after False b \<Longrightarrow> polls_after w (a @ b)"
  by (induction a arbitrary: w) (auto intro: polls_after_mono)

lemma polls_after_map [simp]:
  "polls_after w (map Dropped ds)" "polls_after w (map Got gs)"
  by (induction ds arbitrary: w, simp_all) (induction gs arbitrary: w, simp_all)

lemma polls_follow_writes_append:
  "polls_follow_writes a \<Longrightarrow> polls_follow_writes b \<Longrightarrow> polls_follow_writes (a @ b)"
  unfolding polls_follow_writes_def by (rule polls_after_append)

lemma polls_follow_writes_simps [simp]:
  "polls_follow_writes []"
  "polls_follow_writes (map Dropped ds @ map Got gs)"
  "polls_follow_writes (send_events cfg addr d chunks i off)"
  "polls_follow_writes [Sent (Msg_boot_write_data a c), CancelPoll b]"
  by (simp_all add: polls_follow_writes_def send_events_def polls_after_append)

lemma loop_polls:
  assumes run: "bootWriteData_loop cfg addr d chunks w i off s = (r, s')"
  shows "\<exists>ev. trace s' = trace s @ ev \<and> polls_follow_writes ev"
  using run
proof (induction i off s rule: loop_induct [where chunks = chunks and w = w and cfg = cfg
        and addr = addr and d = d])
  case (step i off s)
  show ?case
  proof (cases "i < chunks + w")
    case False
    with step.prems have "s' = s" by (simp add: loop_done)
    then show ?thesis by (intro exI [of _ "[]"]) simp
  next
    case True
    from True step.prems(1) show ?thesis
    proof (cases rule: loop_cases)
      case cancelled
      then show ?thesis
        by (intro exI [of _ "[Sent (Msg_boot_write_data (addr + of_nat off)
          (take (chunk_size cfg) (drop off d))), CancelPoll True]"]) simp
    next
      case (failed ds rr)
      have "polls_follow_writes (send_events cfg addr d chunks i off
          @ (map Dropped ds @ map Got (opt_list rr)))"
        by (rule polls_follow_writes_append) simp_all
      with failed(3) show ?thesis by auto
    next
      case (proceed off1 s1 s2 ds gs)
      from step.IH [OF True proceed(1) proceed(2) proceed(3)] obtain ev where
        tr: "trace s' = trace s2 @ ev" and pf: "polls_follow_writes ev"
        by blast
      have "polls_follow_writes (send_events cfg addr d chunks i off
          @ (map Dropped ds @ map Got gs))"
        by (rule polls_follow_writes_append) simp_all
      then have "polls_follow_writes ((send_events cfg addr d chunks i off
          @ (map Dropped ds @ map Got gs)) @ ev)"
        using pf by (rule polls_follow_writes_append)
      moreover have "trace s' = trace s @ (send_events cfg addr d chunks i off
          @ (map Dropped ds @ map Got gs)) @ ev"
        using tr proceed(4) by simp
      ultimately show ?thesis by blast
    qed
  qed
qed

lemma bootWriteData_polls:
  "\<exists>ev. trace (snd (bootWriteData cfg addr d s)) = trace s @ ev \<and>
     polls_follow_writes ev \<and> length (filter is_poll ev) = writes_sent ev"
proof -
  obtain r s' where run: "bootWriteData cfg addr d s = (r, s')"
    by (cases "bootWriteData cfg addr d s")
  from bootWriteData_shape [OF run] obtain ev where
    ev: "trace s' = trace s @ ev" "length (filter is_poll ev) = writes_sent ev" by blast
  from run have "bootWriteData_loop cfg addr d (chunk_count cfg d) (min (chunk_count cfg d) 10)
      0 0 s = (r, s')"
    by (simp add: bootWriteData_loop_eq)
  from loop_polls [OF this] obtain ev' where
    "trace s' = trace s @ ev'" "polls_follow_writes ev'" by blast
  with ev run show ?thesis by auto
qed

lemma bootGetResponse_polls:
  "filter is_poll (trace (snd (bootGetResponse s t))) = filter is_poll (trace s)"
proof -
  obtain r s' where run: "bootGetResponse s t = (r, s')" by (cases "bootGetResponse s t")
  from bootGetResponse_trace(1) [OF run] run show ?thesis by auto
qed

lemma bootEnter_polls:
  "filter is_poll (trace (snd (bootEnter cfg s))) = filter is_poll (trace s)"
proof -
  obtain r s' where run: "bootEnter cfg s = (r, s')" by (cases "bootEnter cfg s")
  from bootEnter_trace [OF run] run show ?thesis by auto
qed

lemma bootExit_polls:
  "filter is_poll (trace (snd (bootExit cfg s))) = filter is_poll (trace s)"
proof -
  obtain r s' where run: "bootExit cfg s = (r, s')" by (cases "bootExit cfg s")
  from bootExit_trace [OF run] run show ?thesis by auto
qed

lemma bootEraseSector_polls:
  "filter is_poll (trace (snd (bootEraseSector cfg sector s))) = filter is_poll (trace s)"
proof -
  obtain r s' where run: "bootEraseSector cfg sector s = (r, s')"
    by (cases "bootEraseSector cfg sector s")
  from bootEraseSector_trace [OF run] run show ?thesis by auto
qed

lemma bootVerifyData_polls:
  "filter is_poll (trace (snd (bootVerifyData cfg addr d s))) = filter is_poll (trace s)"
proof -
  obtain r s' where run: "bootVerifyData cfg addr d s = (r, s')"
    by (cases "bootVerifyData cfg addr d s")
  from bootVerifyData_trace [OF run] run show ?thesis by auto
qed

lemma STEP_polls:
  "filter is_poll (trace (snd (STEP (ok, s)))) =
     filter is_poll (trace s) @ (if ok then [CancelPoll (wasCanceled s)] else [])"
  by (simp add: STEP_eq)

text \<open>The first chunks of a region go out without any wait.\<close>

lemma loop_sends_env:
  "i + k \<le> w \<Longrightarrow> i + k \<le> chunks \<Longrightarrow> \<not> wasCanceled s \<Longrightarrow>
   \<exists>sk ev. bootWriteData_loop cfg addr d chunks w i off s =
             bootWriteData_loop cfg addr d chunks w (i + k) (off + k * chunk_size cfg) sk \<and>
           \<not> wasCanceled sk \<and> messageQueue sk = messageQueue s \<and> pending sk = pending s \<and>
           trace sk = trace s @ ev \<and>
           writes_sent ev = k \<and> acks_taken ev = 0 \<and> quiet ev"
proof (induction k arbitrary: i off s)
  case 0
  then show ?case by (intro exI [of _ s] exI [of _ "[]"]) simp
next
  case (Suc k)
  let ?s1 = "after_send cfg addr d off s"
  from Suc.prems have one: "bootWriteData_loop cfg addr d chunks w i off s =
      bootWriteData_loop cfg addr d chunks w (Suc i) (off + chunk_size cfg) ?s1"
    by (intro loop_send_step) simp_all
  from Suc.prems have "Suc i + k \<le> w" "Suc i + k \<le> chunks" "\<not> wasCanceled ?s1" by simp_all
  from Suc.IH [OF this, of "off + chunk_size cfg"] obtain sk ev where
    a: "bootWriteData_loop cfg addr d chunks w (Suc i) (off + chunk_size cfg) ?s1 =
          bootWriteData_loop cfg addr d chunks w (Suc i + k)
            (off + chunk_size cfg + k * chunk_size cfg) sk" and
    b: "\<not> wasCanceled sk" "messageQueue sk = messageQueue ?s1" "pending sk = pending ?s1"
       "trace sk = trace ?s1 @ ev" "writes_sent ev = k"
       "acks_taken ev = 0" "quiet ev"
    by blast
  show ?case
    apply (rule exI [of _ sk])
    apply (rule exI [of _ "[Sent (Msg_boot_write_data (addr + of_nat off)
                    (take (chunk_size cfg) (drop off d))), CancelPoll False] @ ev"])
    using one a b Suc.prems(3) by (simp add: add.assoc add.commute)
qed

lemma bootWriteData_cancel_in_wait:
  assumes dt: "10 < default_timeout cfg" and n: "11 < chunk_count cfg d"
    and q: "messageQueue s = []" and nc: "\<not> wasCanceled s"
    and p: "pending s = ([response 9], True) # rest"
  shows "\<exists>s' ev. bootWriteData cfg addr d s = (True, s') \<and> trace s' = trace s @ ev \<and>
           writes_sent ev = 12 \<and> acks_taken ev = 1 \<and> wasCanceled s'"
proof -
  let ?c = "chunk_count cfg d"
  from n have w: "min ?c 10 = 10" by simp
  have "\<exists>sk ev. bootWriteData_loop cfg addr d ?c 10 0 0 s =
             bootWriteData_loop cfg addr d ?c 10 (0 + 10) (0 + 10 * chunk_size cfg) sk \<and>
           \<not> wasCanceled sk \<and> messageQueue sk = messageQueue s \<and> pending sk = pending s \<and>
           trace sk = trace s @ ev \<and>
           writes_sent ev = 10 \<and> acks_taken ev = 0 \<and> quiet ev"
    using n nc by (intro loop_sends_env) simp_all
  then obtain sk ev where
    a: "bootWriteData_loop cfg addr d ?c 10 0 0 s =
          bootWriteData_loop cfg addr d ?c 10 10 (10 * chunk_size cfg) sk" and
    b: "\<not> wasCanceled sk" "messageQueue sk = []" "pending sk = ([response 9], True) # rest"
       "trace sk = trace s @ ev" "writes_sent ev = 10" "acks_taken ev = 0"
    using q p by auto
  let ?off = "10 * chunk_size cfg"
  let ?s1 = "after_send cfg addr d ?off sk"
  let ?s2 = "after_response (response 9) True ?s1"
  have g: "bootGetResponse ?s1 (default_timeout cfg) = (Some (response 9), ?s2)"
    by (rule bootGetResponse_after [where rest = rest]) (simp_all add: b dt response_def)
  have ok: "data (response 9) 0 = FLASH_COMPLETE"
    by (simp add: response_def FLASH_COMPLETE_def)
  have "bootWriteData_loop cfg addr d ?c 10 10 ?off sk =
      bootWriteData_loop cfg addr d ?c 10 (Suc 10) (?off + chunk_size cfg) ?s2"
    using loop_send_ack_step [OF _ _ b(1) g, of 10 ?c 10] n ok by simp
  also have "\<dots> = (True, after_send cfg addr d (?off + chunk_size cfg) ?s2)"
    by (rule loop_cancel_step) (use n in simp_all)
  finally have run: "bootWriteData cfg addr d s =
      (True, after_send cfg addr d (?off + chunk_size cfg) ?s2)"
    using a by (simp add: bootWriteData_loop_eq w)
  let ?ev = "ev @ [Sent (Msg_boot_write_data (addr + of_nat ?off)
                 (take (chunk_size cfg) (drop ?off d))), CancelPoll False, Got (response 9),
               Sent (Msg_boot_write_data (addr + of_nat (?off + chunk_size cfg))
                 (take (chunk_size cfg) (drop (?off + chunk_size cfg) d))), CancelPoll True]"
  have "trace (after_send cfg addr d (?off + chunk_size cfg) ?s2) = trace s @ ?ev"
    using b by simp
  moreover have "writes_sent ?ev = 12" "acks_taken ?ev = 1" using b by simp_all
  moreover have "wasCanceled (after_send cfg addr d (?off + chunk_size cfg) ?s2)" by simp
  ultimately show ?thesis using run by blast
qed

text \<open>Entry granted at attempt \<open>k\<close>.\<close>

lemma answers_with_iff:
  "answers_with g p =
     (\<exists>m. p = ([m], False) \<and> h_id m = MSG_ID_BOOT_RESPONSE \<and> (data m 0 = 1) = g)"
proof (cases p)
  case (Pair ms c)
  then show ?thesis
    by (cases ms) (auto simp: answers_with_def)
qed

lemma granted_at_fields [simp]:
  "granted_at k (showProgress v l s) = granted_at k s"
  "granted_at k (progressDialog_reset s) = granted_at k s"
  by (simp_all add: granted_at_def)

lemma granted_at_first:
  assumes "granted_at (Suc 0) s"
  shows "\<exists>m rest. messageQueue s = [] \<and> pending s = ([m], False) # rest \<and>
           h_id m = MSG_ID_BOOT_RESPONSE \<and> data m 0 = 1"
proof -
  from assms obtain p rest where p: "pending s = p # rest" "answers_with True p"
    and q: "messageQueue s = []"
    by (cases "pending s") (auto simp: granted_at_def)
  with q show ?thesis by (auto simp: answers_with_iff)
qed

lemma granted_at_later:
  assumes "granted_at (Suc (Suc k)) s"
  shows "\<exists>m rest. messageQueue s = [] \<and> pending s = ([m], False) # rest \<and>
           h_id m = MSG_ID_BOOT_RESPONSE \<and> data m 0 \<noteq> 1 \<and>
           (\<forall>s1. messageQueue s1 = [] \<and> pending s1 = rest \<longrightarrow> granted_at (Suc k) s1)"
proof -
  from assms obtain p rest where p: "pending s = p # rest" "answers_with False p"
    and q: "messageQueue s = []"
    and r: "Suc k \<le> length rest" "list_all (answers_with False) (take k rest)"
      "answers_with True (rest ! k)"
    by (cases "pending s") (auto simp: granted_at_def)
  from r have "\<forall>s1. messageQueue s1 = [] \<and> pending s1 = rest \<longrightarrow> granted_at (Suc k) s1"
    by (simp add: granted_at_def)
  with p q show ?thesis by (auto simp: answers_with_iff)
qed

lemma enter_loop_granted:
  assumes dt: "10 < default_timeout cfg" and q: "messageQueue s = []"
    and p: "pending s = ([m], False) # rest"
    and m: "h_id m = MSG_ID_BOOT_RESPONSE" "data m 0 = 1" and lt: "tries < 100"
    and nc: "\<not> wasCanceled s"
  shows "\<exists>s'. enter_loop cfg tries False s = (Proceed, True, s') \<and>
           trace s' = trace s @ [Sent shell_reset, Sent (Msg_boot_enter 0xB00710AD), Got m,
                                 CancelPoll False] \<and>
           \<not> wasCanceled s'"
proof -
  let ?s1 = "showProgress (int (tries + 1)) ''Entering bootloader'' s"
  let ?s2 = "after_response m False
                 (sendMessage (Msg_boot_enter 0xB00710AD) (sendMessage shell_reset ?s1))"
  let ?s3 = "?s2\<lparr>trace := trace ?s2 @ [CancelPoll False]\<rparr>"
  have be: "bootEnter cfg ?s1 = (True, ?s2)"
    using bootEnter_next [of ?s1 m False rest cfg] q p m dt by (simp add: Let_def)
  have "\<not> wasCanceled ?s2" using nc by simp
  with enter_loop_step [of tries False, OF lt _ be] have
    "enter_loop cfg tries False s = enter_loop cfg (tries + 1) True ?s3"
    by simp
  also have "\<dots> = (Proceed, True, ?s3)" by (rule enter_loop_done) simp
  finally have "enter_loop cfg tries False s = (Proceed, True, ?s3)" .
  moreover have "trace ?s3 = trace s @ [Sent shell_reset, Sent (Msg_boot_enter 0xB00710AD),
      Got m, CancelPoll False]" by simp
  moreover have "\<not> wasCanceled ?s3" using nc by simp
  ultimately show ?thesis by blast
qed

lemma enter_loop_granted_at:
  assumes dt: "10 < default_timeout cfg"
  shows "granted_at k s \<Longrightarrow> tries + k \<le> 100 \<Longrightarrow> \<not> wasCanceled s \<Longrightarrow>
     \<exists>s' ev. enter_loop cfg tries False s = (Proceed, True, s') \<and> trace s' = trace s @ ev \<and>
       requests ev = concat (replicate k [shell_reset, Msg_boot_enter 0xB00710AD]) \<and>
       enters ev = k \<and> (\<exists>e\<in>set ev. is_grant e) \<and> \<not> wasCanceled s'"
proof (induction k arbitrary: tries s)
  case 0
  then show ?case by (simp add: granted_at_def)
next
  case (Suc k)
  show ?case
  proof (cases k)
    case 0
    with Suc.prems(1) have "granted_at (Suc 0) s" by simp
    from granted_at_first [OF this] obtain m rest where
      e: "messageQueue s = []" "pending s = ([m], False) # rest"
         "h_id m = MSG_ID_BOOT_RESPONSE" "data m 0 = 1"
      by blast
    from Suc.prems(2) have lt: "tries < 100" by simp
    from enter_loop_granted [OF dt e lt Suc.prems(3)] obtain s' where
      "enter_loop cfg tries False s = (Proceed, True, s')"
      "trace s' = trace s @ [Sent shell_reset, Sent (Msg_boot_enter 0xB00710AD), Got m,
                                 CancelPoll False]"
      "\<not> wasCanceled s'"
      by blast
    with 0 e(4) show ?thesis
      by (intro exI [of _ s'] exI [of _ "[Sent shell_reset, Sent (Msg_boot_enter 0xB00710AD),
           Got m, CancelPoll False]"]) (simp add: shell_reset_def)
  next
    case (Suc k')
    with Suc.prems(1) have "granted_at (Suc (Suc k')) s" by simp
    from granted_at_later [OF this] obtain m rest where
      e: "messageQueue s = []" "pending s = ([m], False) # rest"
         "h_id m = MSG_ID_BOOT_RESPONSE" "data m 0 \<noteq> 1" and
      later: "\<forall>s1. messageQueue s1 = [] \<and> pending s1 = rest \<longrightarrow> granted_at (Suc k') s1"
      by blast
    from Suc.prems(2) have lt: "tries < 100" by simp
    from enter_loop_refused [OF dt e lt Suc.prems(3)] obtain s1 where
      a: "enter_loop cfg tries False s = enter_loop cfg (tries + 1) False s1" and
      t1: "trace s1 = trace s @ [Sent shell_reset, Sent (Msg_boot_enter 0xB00710AD), Got m,
                                 CancelPoll False]" and
      e1: "messageQueue s1 = []" "pending s1 = rest" "\<not> wasCanceled s1"
      by blast
    from later e1 Suc have g: "granted_at k s1" by simp
    from Suc.prems(2) have "(tries + 1) + k \<le> 100" by simp
    from Suc.IH [OF g this e1(3)] obtain s' ev where
      b: "enter_loop cfg (tries + 1) False s1 = (Proceed, True, s')" "trace s' = trace s1 @ ev"
        "requests ev = concat (replicate k [shell_reset, Msg_boot_enter 0xB00710AD])"
        "enters ev = k" "\<exists>e\<in>set ev. is_grant e" "\<not> wasCanceled s'"
      by blast
    show ?thesis
      apply (rule exI [of _ s'])
      apply (rule exI [of _ "[Sent shell_reset, Sent (Msg_boot_enter 0xB00710AD), Got m,
                                 CancelPoll False] @ ev"])
      using a b t1 by (simp add: shell_reset_def)
  qed
qed

lemma erase_loop_first:
  assumes run: "erase_loop cfg i s = (f, s')" and lt: "i < 12"
  shows "\<exists>ev. trace s' = trace s @ Sent (Msg_boot_erase_sector (of_int i)) # ev"
proof -
  let ?sp = "showProgress (10 + 10 * (i - 4) div (12 - 4))
           (''Erasing sector '' @ fmt_d i @ ''...'') s"
  obtain ok s1 where be: "bootEraseSector cfg (of_int i) ?sp = (ok, s1)"
    by (cases "bootEraseSector cfg (of_int i) ?sp")
  from bootEraseSector_trace [OF be] obtain ev1 where
    t1: "trace s1 = trace s @ Sent (Msg_boot_erase_sector (of_int i)) # ev1"
    by auto
  note st = erase_loop_step [OF lt be]
  show ?thesis
  proof (cases "ok \<and> \<not> wasCanceled s1")
    case False
    with st run t1 show ?thesis by (auto split: if_splits)
  next
    case True
    with st run have "erase_loop cfg (i + 1) (s1\<lparr>trace := trace s1 @ [CancelPoll False]\<rparr>)
        = (f, s')" by simp
    from erase_loop_shape [OF this] obtain ev where
      "trace s' = trace s1 @ [CancelPoll False] @ ev" by auto
    with t1 show ?thesis by simp
  qed
qed

lemma sendHexFile_granted_at:
  assumes run: "sendHexFile cfg fileName (Loaded sec others) s = (r, s')"
    and dt: "10 < default_timeout cfg" and k: "k \<le> 100" and g: "granted_at k s"
  shows "\<exists>ev. trace s' = trace s @ ev \<and> enters ev = k \<and> (\<exists>e\<in>set ev. is_grant e) \<and>
           take (2 * k + 1) (requests ev) =
             concat (replicate k [shell_reset, Msg_boot_enter 0xB00710AD])
               @ [Msg_boot_erase_sector 4]"
proof -
  let ?s0 = "showProgress 0 (''Loading '' @ fileName) (progressDialog_reset s)"
  have "\<exists>s1 ev. enter_loop cfg 0 False ?s0 = (Proceed, True, s1) \<and> trace s1 = trace ?s0 @ ev \<and>
       requests ev = concat (replicate k [shell_reset, Msg_boot_enter 0xB00710AD]) \<and>
       enters ev = k \<and> (\<exists>e\<in>set ev. is_grant e) \<and> \<not> wasCanceled s1"
    using g k by (intro enter_loop_granted_at [OF dt]) simp_all
  then obtain s1 e1 where
    el: "enter_loop cfg 0 False ?s0 = (Proceed, True, s1)" and
    t1: "trace s1 = trace s @ e1" and
    r1: "requests e1 = concat (replicate k [shell_reset, Msg_boot_enter 0xB00710AD])" and
    n1: "enters e1 = k" and g1: "\<exists>e\<in>set e1. is_grant e"
    by auto
  obtain f s2 where er: "erase_loop cfg 4 s1 = (f, s2)" by (cases "erase_loop cfg 4 s1")
  from erase_loop_first [OF er] obtain e2 where
    t2: "trace s2 = trace s1 @ Sent (Msg_boot_erase_sector 4) # e2"
    by auto
  from erase_loop_shape [OF er] t2 have n2: "enters e2 = 0" by auto
  from run el er have k: "and_then (f, s2) (write_verify_exit cfg (offset sec) (sdata sec))
      = (r, s')"
    by (simp add: sendHexFile_def Let_def)
  have "\<exists>e3. trace s' = trace s2 @ e3 \<and> enters e3 = 0"
  proof (cases f)
    case (Return b)
    with k have "s' = s2" by (simp add: and_then_def)
    then show ?thesis by simp
  next
    case Proceed
    with k have "write_verify_exit cfg (offset sec) (sdata sec) s2 = (r, s')"
      by (simp add: and_then_def)
    from write_verify_exit_shape [OF this] show ?thesis by blast
  qed
  then obtain e3 where t3: "trace s' = trace s2 @ e3" "enters e3 = 0" by blast
  let ?ev = "e1 @ Sent (Msg_boot_erase_sector 4) # e2 @ e3"
  have "trace s' = trace s @ ?ev" using t1 t2 t3 by simp
  moreover have "enters ?ev = k" using n1 n2 t3 by simp
  moreover have "\<exists>e\<in>set ?ev. is_grant e" using g1 by auto
  moreover have "length (requests e1) = 2 * k"
    unfolding r1 by (induction k) simp_all
  then have "take (2 * k + 1) (requests ?ev) = requests e1 @ [Msg_boot_erase_sector 4]"
    by simp
  ultimately show ?thesis using r1 by (intro exI [of _ ?ev]) simp
qed

text \<open>The steps of a trace.\<close>

lemma split_steps_not_Nil [simp]: "split_steps w ev \<noteq> []"
  by (cases ev) simp_all

lemma split_steps_append:
  "polls_after w b \<Longrightarrow>
   split_steps w (b @ rest) =
     (b @ hd (split_steps (if b = [] then w else is_write (last b)) rest))
       # tl (split_steps (if b = [] then w else is_write (last b)) rest)"
proof (induction b arbitrary: w)
  case Nil
  show ?case by simp
next
  case (Cons e b)
  from Cons.prems have np: "\<not> (is_poll e \<and> \<not> w)" and pa: "polls_after (is_write e) b"
    by (auto split: if_splits)
  from Cons.IH [OF pa] np show ?case by simp
qed

lemma steps_block:
  assumes "polls_follow_writes b" "b = [] \<or> \<not> is_write (last b)"
  shows "steps (b @ CancelPoll c # rest) = b # steps rest"
proof -
  from assms(2) have "(if b = [] then False else is_write (last b)) = False" by auto
  with split_steps_append [of False b "CancelPoll c # rest"] assms(1) show ?thesis
    by (simp add: steps_def polls_follow_writes_def)
qed

lemma steps_last:
  assumes "polls_follow_writes b"
  shows "steps b = [b]"
  using split_steps_append [of False b "[]"] assms
  by (simp add: steps_def polls_follow_writes_def)

lemma steps_Nil [simp]: "steps [] = [[]]"
  by (simp add: steps_def)

lemma step_block_Nil [simp]: "step_block []"
  by (simp add: step_block_def)

text \<open>Following a schedule.\<close>

lemma follows_same: "follows bs sch \<Longrightarrow> follows (pre @ bs) (pre @ sch)"
  by (induction pre) simp_all

lemma follows_end: "sch \<noteq> [] \<Longrightarrow> follows [[]] sch"
  by (cases sch) simp_all

lemma follows_part:
  "take (length b) x = b \<Longrightarrow> follows [b] (x # sch)"
  "take (length b) x = b \<Longrightarrow> sch \<noteq> [] \<Longrightarrow> follows [b, []] (x # sch)"
  by (simp_all add: follows_end)

text \<open>The events of a write of a region are one step.\<close>

lemma loop_prefix:
  assumes run: "bootWriteData_loop cfg addr d chunks w i off s = (r, s')"
    and inv: "off = min i chunks * chunk_size cfg"
  shows "\<exists>ev. trace s' = trace s @ ev \<and>
           requests ev = map (chunk_request cfg addr d)
                           [min i chunks..<min i chunks + writes_sent ev] \<and>
           min i chunks + writes_sent ev \<le> chunks \<and>
           (ev = [] \<or> \<not> is_write (last ev)) \<and>
           (i < chunks \<longrightarrow> ev \<noteq> [] \<and> is_sent (hd ev))"
  using run inv
proof (induction i off s rule: loop_induct [where chunks = chunks and w = w and cfg = cfg
        and addr = addr and d = d])
  case (step i off s)
  show ?case
  proof (cases "i < chunks + w")
    case False
    with step.prems have "s' = s" by (simp add: loop_done)
    with False show ?thesis by (intro exI [of _ "[]"]) simp
  next
    case True
    have se: "requests (send_events cfg addr d chunks i off) =
          map (chunk_request cfg addr d) [min i chunks..<min (i + 1) chunks]"
    proof (cases "i < chunks")
      case True
      then have "min i chunks = i" "min (i + 1) chunks = Suc i" by simp_all
      with True step.prems(2) show ?thesis
        by (simp add: send_events_def chunk_request_def)
    next
      case False
      then show ?thesis by (simp add: send_events_def)
    qed
    have sw: "min i chunks + writes_sent (send_events cfg addr d chunks i off) = min (i + 1) chunks"
      by simp
    have last_ok: "evi = [] \<or> \<not> is_write (last evi)"
      if "evi = send_events cfg addr d chunks i off @ map Dropped ds @ map Got gs"
      for evi ds gs
    proof (cases "gs = []")
      case False
      with that have "last evi = Got (last gs)" by (simp add: last_map)
      then show ?thesis by simp
    next
      case g: True
      show ?thesis
      proof (cases "ds = []")
        case False
        with that g have "last evi = Dropped (last ds)" by (simp add: last_map)
        then show ?thesis by simp
      next
        case True
        with that g show ?thesis by (simp add: send_events_def)
      qed
    qed
    have hd_ok: "evi \<noteq> [] \<and> is_sent (hd evi)"
      if "evi = send_events cfg addr d chunks i off @ rest" "i < chunks" for evi rest
      using that by (simp add: send_events_def)
    from True step.prems(1) show ?thesis
    proof (cases rule: loop_cases)
      case cancelled
      define ev where "ev = [Sent (Msg_boot_write_data (addr + of_nat off)
          (take (chunk_size cfg) (drop off d))), CancelPoll True]"
      from cancelled(1) have m: "min i chunks = i" by simp
      have "requests ev = map (chunk_request cfg addr d) [min i chunks..<min i chunks + writes_sent ev]"
        using step.prems(2) unfolding m by (simp add: chunk_request_def ev_def)
      moreover have "min i chunks + writes_sent ev \<le> chunks"
        using cancelled(1) by (simp add: ev_def)
      moreover have "ev = [] \<or> \<not> is_write (last ev)" by (simp add: ev_def)
      moreover have "i < chunks \<longrightarrow> ev \<noteq> [] \<and> is_sent (hd ev)" by (simp add: ev_def)
      moreover have "trace s' = trace s @ ev" using cancelled(5) by (simp add: ev_def)
      ultimately show ?thesis by blast
    next
      case (failed ds rr)
      define ev where "ev = send_events cfg addr d chunks i off
          @ map Dropped ds @ map Got (opt_list rr)"
      have "requests ev = map (chunk_request cfg addr d) [min i chunks..<min i chunks + writes_sent ev]"
        using se sw by (simp add: ev_def)
      moreover have "min i chunks + writes_sent ev \<le> chunks"
        using sw by (simp add: ev_def)
      moreover have "ev = [] \<or> \<not> is_write (last ev)"
        using ev_def by (rule last_ok)
      moreover have "i < chunks \<longrightarrow> ev \<noteq> [] \<and> is_sent (hd ev)"
        using hd_ok [OF ev_def] by blast
      moreover have "trace s' = trace s @ ev" using failed(3) by (simp add: ev_def)
      ultimately show ?thesis by blast
    next
      case (proceed off1 s1 s2 ds gs)
      define evi where "evi = send_events cfg addr d chunks i off @ map Dropped ds @ map Got gs"
      have inv1: "off1 = min (i + 1) chunks * chunk_size cfg"
        using proceed(7) step.prems(2) by (simp add: min_def)
      from step.IH [OF True proceed(1) proceed(2) proceed(3) inv1] obtain ev where
        tr: "trace s' = trace s2 @ ev" and
        rq: "requests ev = map (chunk_request cfg addr d)
               [min (i + 1) chunks..<min (i + 1) chunks + writes_sent ev]" and
        le: "min (i + 1) chunks + writes_sent ev \<le> chunks" and
        la: "ev = [] \<or> \<not> is_write (last ev)"
        by blast
      have wi: "min i chunks + writes_sent evi = min (i + 1) chunks"
        using sw by (simp add: evi_def)
      have ri: "requests evi = map (chunk_request cfg addr d) [min i chunks..<min (i + 1) chunks]"
        using se by (simp add: evi_def)
      have "min i chunks \<le> min (i + 1) chunks" by simp
      then have sp: "[min i chunks..<min (i + 1) chunks + writes_sent ev] =
          [min i chunks..<min (i + 1) chunks]
            @ [min (i + 1) chunks..<min (i + 1) chunks + writes_sent ev]"
        by (rule upt_add_eq_append)
      have tot: "min i chunks + writes_sent (evi @ ev) = min (i + 1) chunks + writes_sent ev"
        using wi by simp
      have "requests (evi @ ev) = requests evi @ requests ev" by simp
      also have "\<dots> = map (chunk_request cfg addr d)
          ([min i chunks..<min (i + 1) chunks]
            @ [min (i + 1) chunks..<min (i + 1) chunks + writes_sent ev])"
        unfolding ri rq by simp
      also have "\<dots> = map (chunk_request cfg addr d)
          [min i chunks..<min (i + 1) chunks + writes_sent ev]"
        unfolding sp ..
      also have "\<dots> = map (chunk_request cfg addr d)
          [min i chunks..<min i chunks + writes_sent (evi @ ev)]"
        unfolding tot ..
      finally have "requests (evi @ ev) = map (chunk_request cfg addr d)
          [min i chunks..<min i chunks + writes_sent (evi @ ev)]" .
      moreover have "min i chunks + writes_sent (evi @ ev) \<le> chunks"
        unfolding tot by (rule le)
      moreover have "evi @ ev = [] \<or> \<not> is_write (last (evi @ ev))"
        using la last_ok [OF evi_def] by (cases "ev = []") auto
      moreover have "i < chunks \<longrightarrow> evi @ ev \<noteq> [] \<and> is_sent (hd (evi @ ev))"
        using hd_ok [of "evi @ ev" "map Dropped ds @ map Got gs @ ev"]
        by (simp add: evi_def)
      moreover have "trace s' = trace s @ evi @ ev"
        using tr proceed(4) by (simp add: evi_def)
      ultimately show ?thesis by blast
    qed
  qed
qed

lemma bootWriteData_block:
  assumes run: "bootWriteData cfg addr d s = (ok, s1)"
  shows "\<exists>b. trace s1 = trace s @ b \<and> polls_follow_writes b \<and>
           (b = [] \<or> \<not> is_write (last b)) \<and> step_block b \<and>
           take (length (requests b)) (write_requests cfg addr d) = requests b \<and>
           (ok \<and> \<not> wasCanceled s1 \<longrightarrow> requests b = write_requests cfg addr d)"
proof -
  let ?c = "chunk_count cfg d"
  from run have loop: "bootWriteData_loop cfg addr d ?c (min ?c 10) 0 0 s = (ok, s1)"
    by (simp add: bootWriteData_loop_eq)
  from loop_prefix [OF loop] obtain b where
    b: "trace s1 = trace s @ b"
       "requests b = map (chunk_request cfg addr d) [0..<writes_sent b]"
       "writes_sent b \<le> ?c" "b = [] \<or> \<not> is_write (last b)"
       "0 < ?c \<longrightarrow> b \<noteq> [] \<and> is_sent (hd b)"
    by auto
  from loop_polls [OF loop] b(1) have p: "polls_follow_writes b" by auto
  from bootWriteData_shape [OF run] b(1) have
    n: "length (filter is_poll b) = writes_sent b" and
    full: "ok \<and> \<not> wasCanceled s1 \<longrightarrow> requests b = write_requests cfg addr d"
    by auto
  have "b = [] \<or> is_sent (hd b)"
  proof (cases "0 < ?c")
    case True
    with b(5) show ?thesis by simp
  next
    case False
    with loop have "s1 = s" by (simp add: loop_done)
    with b(1) show ?thesis by simp
  qed
  with n have sb: "step_block b" by (simp add: step_block_def)
  have "take (length (requests b)) (write_requests cfg addr d) = requests b"
    using b(2,3) by (simp add: write_requests_def take_map)
  with b(1,4) p sb full show ?thesis by blast
qed

text \<open>The polls between the steps of the pipeline.\<close>

lemma polls_after_none: "filter is_poll b = [] \<Longrightarrow> polls_after w b"
  by (induction b arbitrary: w) (auto split: if_splits)

lemma quiet_block:
  assumes "filter is_poll b = []" "writes_sent b = 0" "b \<noteq> []" "is_sent (hd b)"
  shows "polls_follow_writes b" "b = [] \<or> \<not> is_write (last b)" "step_block b"
proof -
  show "polls_follow_writes b"
    unfolding polls_follow_writes_def using assms(1) by (rule polls_after_none)
  from assms(2) have "\<forall>e\<in>set b. \<not> is_write e"
    by (simp add: writes_sent_def filter_empty_conv)
  with assms(3) show "b = [] \<or> \<not> is_write (last b)" by simp
  from assms show "step_block b" by (simp add: step_block_def)
qed

lemma on_schedule_end: "on_schedule [[]] whole []"
  by (simp add: on_schedule_def)

lemma step_then_blocks:
  assumes run: "and_then (STEP (ok, s1)) k = (r, s')"
    and tr: "trace s1 = trace s @ b"
    and pf: "polls_follow_writes b" and la: "b = [] \<or> \<not> is_write (last b)"
    and sb: "step_block b"
    and pre: "take (length (requests b)) x = requests b"
    and full: "ok \<and> \<not> wasCanceled s1 \<longrightarrow> requests b = x"
    and sch: "sch \<noteq> []"
    and rest: "ok \<Longrightarrow> \<not> wasCanceled s1 \<Longrightarrow>
       k (s1\<lparr>trace := trace s1 @ [CancelPoll False]\<rparr>) = (r, s') \<Longrightarrow>
       \<exists>e2. trace s' = trace s1 @ CancelPoll False # e2 \<and>
            on_schedule sch (r \<and> \<not> wasCanceled s') e2"
  shows "\<exists>ev. trace s' = trace s @ ev \<and> on_schedule (x # sch) (r \<and> \<not> wasCanceled s') ev"
proof (cases ok)
  case False
  with run have rs: "\<not> r" "s' = s1" by (simp_all add: STEP_eq and_then_def)
  have "on_schedule (x # sch) False b"
    using pre sb by (simp add: on_schedule_def steps_last [OF pf])
  with rs tr show ?thesis by auto
next
  case True
  show ?thesis
  proof (cases "wasCanceled s1")
    case c: True
    with True run have rs: "r" "s' = s1\<lparr>trace := trace s1 @ [CancelPoll True]\<rparr>"
      by (simp_all add: STEP_eq and_then_def)
    have st: "steps (b @ [CancelPoll True]) = [b, []]"
      using steps_block [OF pf la, of True "[]"] by simp
    have "follows [requests b, []] (x # sch)"
      using pre sch by (rule follows_part(2))
    then have "on_schedule (x # sch) False (b @ [CancelPoll True])"
      using sb unfolding on_schedule_def st by simp
    moreover have "trace s' = trace s @ (b @ [CancelPoll True])" using rs tr by simp
    moreover have "wasCanceled s'" using rs c by simp
    ultimately show ?thesis by auto
  next
    case nc: False
    with True run have "k (s1\<lparr>trace := trace s1 @ [CancelPoll False]\<rparr>) = (r, s')"
      by (simp add: STEP_eq and_then_def)
    from rest [OF True nc this] obtain e2 where
      t2: "trace s' = trace s1 @ CancelPoll False # e2" and
      os: "on_schedule sch (r \<and> \<not> wasCanceled s') e2"
      by blast
    from full True nc have rb: "requests b = x" by simp
    have st: "steps (b @ CancelPoll False # e2) = b # steps e2"
      by (rule steps_block [OF pf la])
    have "on_schedule (x # sch) (r \<and> \<not> wasCanceled s') (b @ CancelPoll False # e2)"
      using os sb rb unfolding on_schedule_def st by simp
    moreover have "trace s' = trace s @ (b @ CancelPoll False # e2)" using t2 tr by simp
    ultimately show ?thesis by blast
  qed
qed

lemma write_verify_exit_blocks:
  assumes run: "write_verify_exit cfg start d s = (r, s')"
  shows "\<exists>ev. trace s' = trace s @ ev \<and>
           on_schedule [write_requests cfg (start + 8) (drop 8 d),
                        [Msg_boot_verify (start + 8) (of_nat (length (drop 8 d)))],
                        write_requests cfg start (take 8 d),
                        [Msg_boot_exit], []] (r \<and> \<not> wasCanceled s') ev"
proof -
  define k4 where "k4 = (\<lambda>s. (True, showProgress 100 ''Done.'' s))"
  define k3 where "k3 = (\<lambda>s. and_then (STEP (bootExit cfg
      (showProgress 95 ''Starting application'' s))) k4)"
  define k2 where "k2 = (\<lambda>s. and_then (STEP (bootWriteData cfg start (take 8 d)
      (showProgress 90 ''Writing first 8 bytes'' s))) k3)"
  define k1 where "k1 = (\<lambda>s. and_then (STEP (bootVerifyData cfg (start + 8) (drop 8 d)
      (showProgress 85 ''Verifying'' s))) k2)"
  have p4: "\<exists>e. trace s' = trace s @ e \<and> on_schedule [[]] (r \<and> \<not> wasCanceled s') e"
    if "k4 s = (r, s')" for s r s'
    using that by (intro exI [of _ "[]"]) (auto simp: k4_def on_schedule_end)
  have p3: "\<exists>e. trace s' = trace s @ e \<and>
      on_schedule [[Msg_boot_exit], []] (r \<and> \<not> wasCanceled s') e"
    if k: "k3 s = (r, s')" for s r s'
  proof -
    let ?s0 = "showProgress 95 ''Starting application'' s"
    obtain ok s1 where op: "bootExit cfg ?s0 = (ok, s1)" by (cases "bootExit cfg ?s0")
    from bootExit_trace [OF op] obtain ds rr where
      t: "trace s1 = trace s @ [Sent Msg_boot_exit] @ map Dropped ds @ map Got (opt_list rr)"
      by auto
    define b where "b = [Sent Msg_boot_exit] @ map Dropped ds @ map Got (opt_list rr)"
    have b: "filter is_poll b = []" "writes_sent b = 0" "b \<noteq> []" "is_sent (hd b)"
      "requests b = [Msg_boot_exit]"
      by (simp_all add: b_def)
    from k op have "and_then (STEP (ok, s1)) k4 = (r, s')" by (simp add: k3_def)
    then show ?thesis
    proof (rule step_then_blocks [OF _ _ quiet_block [OF b(1-4)]])
      show "trace s1 = trace s @ b" using t by (simp add: b_def)
      show "take (length (requests b)) [Msg_boot_exit] = requests b" using b(5) by simp
      show "ok \<and> \<not> wasCanceled s1 \<longrightarrow> requests b = [Msg_boot_exit]" using b(5) by simp
      show "[[]] \<noteq> ([] :: request list list)" by simp
      assume "k4 (s1\<lparr>trace := trace s1 @ [CancelPoll False]\<rparr>) = (r, s')"
      from p4 [OF this] show "\<exists>e2. trace s' = trace s1 @ CancelPoll False # e2 \<and>
          on_schedule [[]] (r \<and> \<not> wasCanceled s') e2"
        by simp
    qed
  qed
  have p2: "\<exists>e. trace s' = trace s @ e \<and>
      on_schedule [write_requests cfg start (take 8 d), [Msg_boot_exit], []]
        (r \<and> \<not> wasCanceled s') e"
    if k: "k2 s = (r, s')" for s r s'
  proof -
    let ?s0 = "showProgress 90 ''Writing first 8 bytes'' s"
    obtain ok s1 where op: "bootWriteData cfg start (take 8 d) ?s0 = (ok, s1)"
      by (cases "bootWriteData cfg start (take 8 d) ?s0")
    from bootWriteData_block [OF op] obtain b where
      b: "trace s1 = trace s @ b" "polls_follow_writes b" "b = [] \<or> \<not> is_write (last b)"
         "step_block b"
         "take (length (requests b)) (write_requests cfg start (take 8 d)) = requests b"
         "ok \<and> \<not> wasCanceled s1 \<longrightarrow> requests b = write_requests cfg start (take 8 d)"
      by auto
    from k op have "and_then (STEP (ok, s1)) k3 = (r, s')" by (simp add: k2_def)
    then show ?thesis
    proof (rule step_then_blocks [OF _ b])
      show "[[Msg_boot_exit], []] \<noteq> []" by simp
      assume "k3 (s1\<lparr>trace := trace s1 @ [CancelPoll False]\<rparr>) = (r, s')"
      from p3 [OF this] show "\<exists>e2. trace s' = trace s1 @ CancelPoll False # e2 \<and>
          on_schedule [[Msg_boot_exit], []] (r \<and> \<not> wasCanceled s') e2"
        by simp
    qed
  qed
  have p1: "\<exists>e. trace s' = trace s @ e \<and>
      on_schedule [[Msg_boot_verify (start + 8) (of_nat (length (drop 8 d)))],
                   write_requests cfg start (take 8 d), [Msg_boot_exit], []]
        (r \<and> \<not> wasCanceled s') e"
    if k: "k1 s = (r, s')" for s r s'
  proof -
    let ?s0 = "showProgress 85 ''Verifying'' s"
    let ?x = "Msg_boot_verify (start + 8) (of_nat (length (drop 8 d)))"
    obtain ok s1 where op: "bootVerifyData cfg (start + 8) (drop 8 d) ?s0 = (ok, s1)"
      by (cases "bootVerifyData cfg (start + 8) (drop 8 d) ?s0")
    from bootVerifyData_trace [OF op] obtain ds rr where
      t: "trace s1 = trace s @ [Sent ?x] @ map Dropped ds @ map Got (opt_list rr)"
      by auto
    define b where "b = [Sent ?x] @ map Dropped ds @ map Got (opt_list rr)"
    have b: "filter is_poll b = []" "writes_sent b = 0" "b \<noteq> []" "is_sent (hd b)"
      "requests b = [?x]"
      by (simp_all add: b_def)
    from k op have "and_then (STEP (ok, s1)) k2 = (r, s')" by (simp add: k1_def)
    then show ?thesis
    proof (rule step_then_blocks [OF _ _ quiet_block [OF b(1-4)]])
      show "trace s1 = trace s @ b" using t by (simp add: b_def)
      show "take (length (requests b)) [?x] = requests b" using b(5) by simp
      show "ok \<and> \<not> wasCanceled s1 \<longrightarrow> requests b = [?x]" using b(5) by simp
      show "[write_requests cfg start (take 8 d), [Msg_boot_exit], []] \<noteq> []" by simp
      assume "k2 (s1\<lparr>trace := trace s1 @ [CancelPoll False]\<rparr>) = (r, s')"
      from p2 [OF this] show "\<exists>e2. trace s' = trace s1 @ CancelPoll False # e2 \<and>
          on_schedule [write_requests cfg start (take 8 d), [Msg_boot_exit], []]
            (r \<and> \<not> wasCanceled s') e2"
        by simp
    qed
  qed
  obtain ok s1 where op: "bootWriteData cfg (start + 8) (drop 8 d) s = (ok, s1)"
    by (cases "bootWriteData cfg (start + 8) (drop 8 d) s")
  from bootWriteData_block [OF op] obtain b where
    b: "trace s1 = trace s @ b" "polls_follow_writes b" "b = [] \<or> \<not> is_write (last b)"
       "step_block b"
       "take (length (requests b)) (write_requests cfg (start + 8) (drop 8 d)) = requests b"
       "ok \<and> \<not> wasCanceled s1 \<longrightarrow> requests b = write_requests cfg (start + 8) (drop 8 d)"
    by auto
  from run op have "and_then (STEP (ok, s1)) k1 = (r, s')"
    by (simp add: write_verify_exit_def k1_def k2_def k3_def k4_def)
  then show ?thesis
  proof (rule step_then_blocks [OF _ b])
    show "[[Msg_boot_verify (start + 8) (of_nat (length (drop 8 d)))],
           write_requests cfg start (take 8 d), [Msg_boot_exit], []] \<noteq> []" by simp
    assume "k1 (s1\<lparr>trace := trace s1 @ [CancelPoll False]\<rparr>) = (r, s')"
    from p1 [OF this] show "\<exists>e2. trace s' = trace s1 @ CancelPoll False # e2 \<and>
        on_schedule [[Msg_boot_verify (start + 8) (of_nat (length (drop 8 d)))],
                     write_requests cfg start (take 8 d), [Msg_boot_exit], []]
          (r \<and> \<not> wasCanceled s') e2"
      by simp
  qed
qed

lemma erase_then_blocks:
  assumes sch: "sch \<noteq> []"
    and rest: "\<And>s2. k s2 = (r, s') \<Longrightarrow>
       \<exists>e2. trace s' = trace s2 @ e2 \<and> on_schedule sch (r \<and> \<not> wasCanceled s') e2"
  shows "and_then (erase_loop cfg i s) k = (r, s') \<Longrightarrow> i \<le> 12 \<Longrightarrow>
     \<exists>ev. trace s' = trace s @ ev \<and>
       on_schedule (map (\<lambda>j. [Msg_boot_erase_sector (of_int j)]) [i..11] @ sch)
         (r \<and> \<not> wasCanceled s') ev"
proof (induction i s rule: erase_loop_induct [where cfg = cfg])
  case (step i s)
  show ?case
  proof (cases "i < 12")
    case False
    with step.prems have "k s = (r, s')" by (simp add: erase_loop_done and_then_def)
    from rest [OF this] False show ?thesis by simp
  next
    case True
    let ?sp = "showProgress (10 + 10 * (i - 4) div (12 - 4))
           (''Erasing sector '' @ fmt_d i @ ''...'') s"
    let ?x = "Msg_boot_erase_sector (of_int i)"
    let ?k = "\<lambda>s2. and_then (erase_loop cfg (i + 1) s2) k"
    obtain ok s1 where op: "bootEraseSector cfg (of_int i) ?sp = (ok, s1)"
      by (cases "bootEraseSector cfg (of_int i) ?sp")
    from bootEraseSector_trace [OF op] obtain ds rr where
      t: "trace s1 = trace s @ [Sent ?x] @ map Dropped ds @ map Got (opt_list rr)"
      by auto
    define b where "b = [Sent ?x] @ map Dropped ds @ map Got (opt_list rr)"
    have b: "filter is_poll b = []" "writes_sent b = 0" "b \<noteq> []" "is_sent (hd b)"
      "requests b = [?x]"
      by (simp_all add: b_def)
    have "and_then (erase_loop cfg i s) k = and_then (STEP (ok, s1)) ?k"
      using erase_loop_step [OF True op] by (simp add: STEP_eq and_then_def)
    with step.prems(1) have run: "and_then (STEP (ok, s1)) ?k = (r, s')" by simp
    from True have up: "[i..11] = i # [i + 1..11]" by (simp add: upto_rec1)
    have "\<exists>ev. trace s' = trace s @ ev \<and>
        on_schedule ([?x] # map (\<lambda>j. [Msg_boot_erase_sector (of_int j)]) [i + 1..11] @ sch)
          (r \<and> \<not> wasCanceled s') ev"
      using run
    proof (rule step_then_blocks [OF _ _ quiet_block [OF b(1-4)]])
      show "trace s1 = trace s @ b" using t by (simp add: b_def)
      show "take (length (requests b)) [?x] = requests b" using b(5) by simp
      show "ok \<and> \<not> wasCanceled s1 \<longrightarrow> requests b = [?x]" using b(5) by simp
      show "map (\<lambda>j. [Msg_boot_erase_sector (of_int j)]) [i + 1..11] @ sch \<noteq> []"
        using sch by simp
      assume a: "ok" "\<not> wasCanceled s1"
        "and_then (erase_loop cfg (i + 1) (s1\<lparr>trace := trace s1 @ [CancelPoll False]\<rparr>)) k
           = (r, s')"
      from a(1) op have op1: "bootEraseSector cfg (of_int i) ?sp = (True, s1)" by simp
      from True have "i + 1 \<le> 12" by simp
      from step.IH [OF True op1 a(2) a(3) this]
      show "\<exists>e2. trace s' = trace s1 @ CancelPoll False # e2 \<and>
          on_schedule (map (\<lambda>j. [Msg_boot_erase_sector (of_int j)]) [i + 1..11] @ sch)
            (r \<and> \<not> wasCanceled s') e2"
        by simp
    qed
    then show ?thesis unfolding up by simp
  qed
qed

lemma enter_loop_blocks:
  "enter_loop cfg tries ok s = (f, ok', s1) \<Longrightarrow>
   \<exists>ev bs. trace s1 = trace s @ ev \<and> (\<forall>rest. steps (ev @ rest) = bs @ steps rest) \<and>
     map requests bs = replicate (enters ev) [shell_reset, Msg_boot_enter 0xB00710AD] \<and>
     list_all step_block bs"
proof (induction tries ok s rule: enter_loop_induct [where cfg = cfg])
  case (step tries ok s)
  show ?case
  proof (cases "tries < 100 \<and> \<not> ok")
    case False
    with step.prems have "s1 = s" by (simp add: enter_loop_done)
    then show ?thesis by (intro exI [of _ "[]"]) simp
  next
    case True
    then have lt: "tries < 100" and nok: "\<not> ok" by simp_all
    let ?sp = "showProgress (int (tries + 1)) ''Entering bootloader'' s"
    obtain ok1 s2 where be: "bootEnter cfg ?sp = (ok1, s2)" by (cases "bootEnter cfg ?sp")
    from bootEnter_trace [OF be] obtain ds rr where
      t2: "trace s2 = trace s @ [Sent shell_reset, Sent (Msg_boot_enter 0xB00710AD)]
              @ map Dropped ds @ map Got (opt_list rr)"
      by auto
    define b where "b = [Sent shell_reset, Sent (Msg_boot_enter 0xB00710AD)]
              @ map Dropped ds @ map Got (opt_list rr)"
    have b: "filter is_poll b = []" "writes_sent b = 0" "b \<noteq> []" "is_sent (hd b)"
      "requests b = [shell_reset, Msg_boot_enter 0xB00710AD]" "enters b = 1"
      by (simp_all add: b_def shell_reset_def)
    note qb = quiet_block [OF b(1-4)]
    note st = enter_loop_step [OF lt nok be]
    show ?thesis
    proof (cases "wasCanceled s2")
      case True
      with st step.prems have "s1 = s2\<lparr>trace := trace s2 @ [CancelPoll True]\<rparr>" by simp
      with t2 have "trace s1 = trace s @ (b @ [CancelPoll True])" by (simp add: b_def)
      moreover have "\<forall>rest. steps ((b @ [CancelPoll True]) @ rest) = [b] @ steps rest"
        using steps_block [OF qb(1,2), of True] by simp
      moreover have "map requests [b] =
          replicate (enters (b @ [CancelPoll True])) [shell_reset, Msg_boot_enter 0xB00710AD]"
        using b(5,6) by simp
      moreover have "list_all step_block [b]" using qb(3) by simp
      ultimately show ?thesis by blast
    next
      case False
      with st step.prems have "enter_loop cfg (tries + 1) ok1
          (s2\<lparr>trace := trace s2 @ [CancelPoll False]\<rparr>) = (f, ok', s1)" by simp
      from step.IH [OF lt nok be False this] obtain ev bs where
        ih: "trace s1 = trace s2 @ CancelPoll False # ev"
          "\<forall>rest. steps (ev @ rest) = bs @ steps rest"
          "map requests bs = replicate (enters ev) [shell_reset, Msg_boot_enter 0xB00710AD]"
          "list_all step_block bs"
        by auto
      have "trace s1 = trace s @ (b @ CancelPoll False # ev)"
        using ih(1) t2 by (simp add: b_def)
      moreover have "\<forall>rest. steps ((b @ CancelPoll False # ev) @ rest) = (b # bs) @ steps rest"
        using steps_block [OF qb(1,2), of False] ih(2) by simp
      moreover have "map requests (b # bs) =
          replicate (enters (b @ CancelPoll False # ev)) [shell_reset, Msg_boot_enter 0xB00710AD]"
        using b(5,6) ih(3) by simp
      moreover have "list_all step_block (b # bs)" using qb(3) ih(4) by simp
      ultimately show ?thesis by blast
    qed
  qed
qed

lemma on_schedule_prepend:
  assumes "\<forall>rest. steps (ev1 @ rest) = bs @ steps rest" "list_all step_block bs"
    and "on_schedule sch whole e2"
  shows "on_schedule (map requests bs @ sch) whole (ev1 @ e2)"
  using assms by (auto simp: on_schedule_def follows_same)

lemma on_schedule_stop:
  assumes "\<forall>rest. steps (ev1 @ rest) = bs @ steps rest" "list_all step_block bs"
    and "sch \<noteq> []"
  shows "on_schedule (map requests bs @ sch) False ev1"
proof -
  from assms(1) have "steps (ev1 @ []) = bs @ steps []" by blast
  then have st: "steps ev1 = bs @ [[]]" by simp
  have "follows (map requests bs @ [[]]) (map requests bs @ sch)"
    using assms(3) by (intro follows_same follows_end)
  with assms(2) show ?thesis by (simp add: on_schedule_def st)
qed

lemma after_enter_enters:
  assumes "and_then (erase_loop cfg 4 s1) (write_verify_exit cfg a d) = (r, s')"
  shows "\<exists>e. trace s' = trace s1 @ e \<and> enters e = 0"
proof -
  obtain f s2 where er: "erase_loop cfg 4 s1 = (f, s2)" by (cases "erase_loop cfg 4 s1")
  from erase_loop_shape [OF er] obtain e2 where
    t2: "trace s2 = trace s1 @ e2" "enters e2 = 0" by auto
  from assms er have k: "and_then (f, s2) (write_verify_exit cfg a d) = (r, s')" by simp
  have "\<exists>e3. trace s' = trace s2 @ e3 \<and> enters e3 = 0"
  proof (cases f)
    case (Return b)
    with k have "s' = s2" by (simp add: and_then_def)
    then show ?thesis by simp
  next
    case Proceed
    with k have "write_verify_exit cfg a d s2 = (r, s')" by (simp add: and_then_def)
    from write_verify_exit_shape [OF this] show ?thesis by blast
  qed
  then obtain e3 where "trace s' = trace s2 @ e3" "enters e3 = 0" by blast
  with t2 show ?thesis by (intro exI [of _ "e2 @ e3"]) simp
qed

lemma sendHexFile_blocks:
  assumes run: "sendHexFile cfg fileName (Loaded sec others) s = (r, s')"
  shows "\<exists>ev. trace s' = trace s @ ev \<and>
           on_schedule (schedule cfg sec (enters ev)) (r \<and> \<not> wasCanceled s') ev"
proof -
  let ?s0 = "showProgress 0 (''Loading '' @ fileName) (progressDialog_reset s)"
  let ?tail = "[write_requests cfg (offset sec + 8) (drop 8 (sdata sec)),
        [Msg_boot_verify (offset sec + 8) (of_nat (length (drop 8 (sdata sec))))],
        write_requests cfg (offset sec) (take 8 (sdata sec)),
        [Msg_boot_exit], []]"
  let ?erase = "map (\<lambda>i. [Msg_boot_erase_sector (of_int i)]) [4..11]"
  obtain f ok s1 where el: "enter_loop cfg 0 False ?s0 = (f, ok, s1)"
    by (cases "enter_loop cfg 0 False ?s0") auto
  from enter_loop_blocks [OF el] obtain e1 bs where
    t1: "trace s1 = trace s @ e1" and
    b1: "\<forall>rest. steps (e1 @ rest) = bs @ steps rest" "list_all step_block bs" and
    r1: "map requests bs = replicate (enters e1) [shell_reset, Msg_boot_enter 0xB00710AD]"
    by auto
  from enter_loop_shape [OF el] t1 have
    nf: "f \<noteq> Return False" and c1: "f = Return True \<longrightarrow> wasCanceled s1"
    by auto
  have sch1: "schedule cfg sec (enters e1) = map requests bs @ (?erase @ ?tail)"
    by (simp add: schedule_def r1)
  have stop: "on_schedule (schedule cfg sec (enters e1)) False e1"
    unfolding sch1 by (rule on_schedule_stop [OF b1]) simp
  show ?thesis
  proof (cases "f = Proceed \<and> ok")
    case False
    have "trace s' = trace s1 \<and> \<not> (r \<and> \<not> wasCanceled s')"
    proof (cases f)
      case (Return b)
      with nf have "b" by auto
      with Return run el c1 show ?thesis by (auto simp: sendHexFile_def Let_def)
    next
      case Proceed
      with False run el show ?thesis by (auto simp: sendHexFile_def Let_def)
    qed
    then have tr: "trace s' = trace s @ e1" and w: "(r \<and> \<not> wasCanceled s') = False"
      using t1 by auto
    have "on_schedule (schedule cfg sec (enters e1)) (r \<and> \<not> wasCanceled s') e1"
      unfolding w by (rule stop)
    with tr show ?thesis by blast
  next
    case True
    with run el have k: "and_then (erase_loop cfg 4 s1)
        (write_verify_exit cfg (offset sec) (sdata sec)) = (r, s')"
      by (simp add: sendHexFile_def Let_def)
    have "\<exists>ev. trace s' = trace s1 @ ev \<and>
        on_schedule (?erase @ ?tail) (r \<and> \<not> wasCanceled s') ev"
    proof (rule erase_then_blocks [OF _ _ k])
      show "?tail \<noteq> []" by simp
      fix s2
      assume "write_verify_exit cfg (offset sec) (sdata sec) s2 = (r, s')"
      then show "\<exists>e2. trace s' = trace s2 @ e2 \<and> on_schedule ?tail (r \<and> \<not> wasCanceled s') e2"
        by (rule write_verify_exit_blocks)
    qed simp
    then obtain e2 where
      t2: "trace s' = trace s1 @ e2" and
      o2: "on_schedule (?erase @ ?tail) (r \<and> \<not> wasCanceled s') e2"
      by blast
    from after_enter_enters [OF k] t2 have n2: "enters e2 = 0" by auto
    have "on_schedule (map requests bs @ (?erase @ ?tail)) (r \<and> \<not> wasCanceled s') (e1 @ e2)"
      using b1 o2 by (rule on_schedule_prepend)
    then have "on_schedule (schedule cfg sec (enters (e1 @ e2))) (r \<and> \<not> wasCanceled s') (e1 @ e2)"
      using n2 sch1 by simp
    moreover have "trace s' = trace s @ (e1 @ e2)" using t1 t2 by simp
    ultimately show ?thesis by blast
  qed
qed

section \<open>The update run of \<^verbatim>\<open>sendHexFile\<close>\<close>

text \<open>
  Claim C1. A run of \<^verbatim>\<open>sendHexFile\<close> on a loaded image that returns \<^verbatim>\<open>true\<close> without
  a cancellation has this history: first a stretch without any write request (entering
  and erasing); then exactly the write requests of the region from \<open>start + 8\<close> over
  \<^verbatim>\<open>data.mid(8)\<close>, in order, followed by the verify request for the same range, with every
  chunk acknowledged by \<^verbatim>\<open>FLASH_COMPLETE\<close>; then the verify response, whose checksum
  equals the local one; and only after it the write requests of the first eight bytes
  at \<open>start\<close>, followed by the exit request, which is the last request of the run.
\<close>

theorem sendHexFile_commit_order:
  assumes run: "sendHexFile cfg fileName (Loaded sec others) s = (True, s')"
    and nc: "\<not> wasCanceled s'"
  shows "\<exists>ev1 ev2 res ev3. trace s' = trace s @ ev1 @ ev2 @ Got res # ev3 \<and>
       writes_sent ev1 = 0 \<and>
       requests ev2 = write_requests cfg (offset sec + 8) (drop 8 (sdata sec))
          @ [Msg_boot_verify (offset sec + 8) (of_nat (length (sdata sec) - 8))] \<and>
       (\<forall>e\<in>set ev2. \<not> is_bad_ack e) \<and>
       acks_taken ev2 = chunk_count cfg (drop 8 (sdata sec)) \<and>
       remote_crc_of res = local_crc_of cfg (drop 8 (sdata sec)) \<and>
       requests ev3 = write_requests cfg (offset sec) (take 8 (sdata sec)) @ [Msg_boot_exit]"
proof -
  let ?s0 = "showProgress 0 (''Loading '' @ fileName) (progressDialog_reset s)"
  obtain f ok s1 where el: "enter_loop cfg 0 False ?s0 = (f, ok, s1)"
    by (cases "enter_loop cfg 0 False ?s0") auto
  from enter_loop_shape [OF el] obtain e1 where
    t1: "trace s1 = trace s @ e1" and w1: "writes_sent e1 = 0" and
    nf: "f \<noteq> Return False" and c1: "f = Return True \<longrightarrow> wasCanceled s1"
    by auto
  have f: "f = Proceed"
  proof (cases f)
    case (Return b)
    with nf have b by auto
    with Return run el have "s' = s1" by (simp add: sendHexFile_def Let_def)
    with c1 Return \<open>b\<close> nc show ?thesis by simp
  qed simp
  with run el have ok: ok
    by (cases ok) (simp_all add: sendHexFile_def Let_def)
  obtain g s2 where er: "erase_loop cfg 4 s1 = (g, s2)"
    by (cases "erase_loop cfg 4 s1")
  from erase_loop_shape [OF er] obtain e2 where
    t2: "trace s2 = trace s1 @ e2" and w2: "writes_sent e2 = 0" and
    c2: "g = Return True \<longrightarrow> wasCanceled s2"
    by auto
  from run el f ok er have k: "and_then (g, s2) (write_verify_exit cfg (offset sec) (sdata sec))
      = (True, s')"
    by (simp add: sendHexFile_def Let_def)
  have g: "g = Proceed"
  proof (cases g)
    case (Return b)
    with k have "b" "s' = s2" by (simp_all add: and_then_def)
    with c2 Return nc show ?thesis by simp
  qed simp
  with k have "write_verify_exit cfg (offset sec) (sdata sec) s2 = (True, s')"
    by (simp add: and_then_def)
  from write_verify_exit_success [OF this nc] obtain ev2 res ev3 where
    "trace s' = trace s2 @ ev2 @ Got res # ev3"
    "requests ev2 = write_requests cfg (offset sec + 8) (drop 8 (sdata sec))
          @ [Msg_boot_verify (offset sec + 8) (of_nat (length (sdata sec) - 8))]"
    "\<forall>e\<in>set ev2. \<not> is_bad_ack e"
    "acks_taken ev2 = chunk_count cfg (drop 8 (sdata sec))"
    "remote_crc_of res = local_crc_of cfg (drop 8 (sdata sec))"
    "requests ev3 = write_requests cfg (offset sec) (take 8 (sdata sec)) @ [Msg_boot_exit]"
    by blast
  moreover from this(1) t1 t2 have "trace s' = trace s @ (e1 @ e2) @ ev2 @ Got res # ev3"
    by simp
  moreover have "writes_sent (e1 @ e2) = 0" using w1 w2 by simp
  ultimately show ?thesis by blast
qed

theorem sendHexFile_commit_order_witness:
  "fst (sendHexFile sample_cfg ''firmware.hex'' (Loaded sample_image []) flashing) \<and>
   \<not> wasCanceled (snd (sendHexFile sample_cfg ''firmware.hex'' (Loaded sample_image []) flashing)) \<and>
   (\<exists>ev1 ev2 res ev3.
      trace (snd (sendHexFile sample_cfg ''firmware.hex'' (Loaded sample_image []) flashing))
        = ev1 @ ev2 @ Got res # ev3 \<and>
      writes_sent ev1 = 0 \<and>
      requests ev2 = [Msg_boot_write_data 0x08004008 [9], Msg_boot_verify 0x08004008 1] \<and>
      acks_taken ev2 = 1 \<and>
      remote_crc_of res = 1 \<and>
      requests ev3 =
        [Msg_boot_write_data 0x08004000 [1], Msg_boot_write_data 0x08004001 [2],
         Msg_boot_write_data 0x08004002 [3], Msg_boot_write_data 0x08004003 [4],
         Msg_boot_write_data 0x08004004 [5], Msg_boot_write_data 0x08004005 [6],
         Msg_boot_write_data 0x08004006 [7], Msg_boot_write_data 0x08004007 [8],
         Msg_boot_exit])"
proof -
  let ?run = "sendHexFile sample_cfg ''firmware.hex'' (Loaded sample_image []) flashing"
  have cfg: "default_timeout sample_cfg = 500" "chunk_size sample_cfg = 1"
    by (simp_all add: sample_cfg_def)
  have img: "offset sample_image = 0x08004000" "length (sdata sample_image) = 9"
    "drop 8 (sdata sample_image) = [9]" "take 8 (sdata sample_image) = [1, 2, 3, 4, 5, 6, 7, 8]"
    by (simp_all add: sample_image_def)
  have c: "chunk_count sample_cfg [9] = 1" "chunk_count sample_cfg [1, 2, 3, 4, 5, 6, 7, 8] = 8"
    by (simp_all add: chunk_count_def cfg)
  have crc: "local_crc_of sample_cfg [9] = 1"
    by (simp add: local_crc_of_def sample_cfg_def)
  have "\<exists>s'. ?run = (True, s') \<and> \<not> wasCanceled s' \<and> m_errorString s' = m_errorString flashing"
    by (rule sendHexFile_succeeds [where m = "response 1"])
      (simp_all add: cfg img c crc flashing_def idle_def response_def remote_crc_of_def)
  then have ok: "fst ?run" "\<not> wasCanceled (snd ?run)" by auto
  then have run: "?run = (True, snd ?run)" by (cases ?run) simp
  have w2: "write_requests sample_cfg 0x08004008 [9] = [Msg_boot_write_data 0x08004008 [9]]"
    by (simp add: write_requests_def c chunk_request_def cfg)
  have w3: "write_requests sample_cfg 0x08004000 [1, 2, 3, 4, 5, 6, 7, 8] =
        [Msg_boot_write_data 0x08004000 [1], Msg_boot_write_data 0x08004001 [2],
         Msg_boot_write_data 0x08004002 [3], Msg_boot_write_data 0x08004003 [4],
         Msg_boot_write_data 0x08004004 [5], Msg_boot_write_data 0x08004005 [6],
         Msg_boot_write_data 0x08004006 [7], Msg_boot_write_data 0x08004007 [8]]"
    by (simp add: write_requests_def c chunk_request_def cfg upt_conv_Cons)
  have a8: "(0x08004000 :: 32 word) + 8 = 0x08004008" by simp
  from sendHexFile_commit_order [OF run ok(2)] obtain ev1 ev2 res ev3 where
    "trace (snd ?run) = trace flashing @ ev1 @ ev2 @ Got res # ev3"
    "writes_sent ev1 = 0"
    "requests ev2 = write_requests sample_cfg (offset sample_image + 8) (drop 8 (sdata sample_image))
          @ [Msg_boot_verify (offset sample_image + 8) (of_nat (length (sdata sample_image) - 8))]"
    "acks_taken ev2 = chunk_count sample_cfg (drop 8 (sdata sample_image))"
    "remote_crc_of res = local_crc_of sample_cfg (drop 8 (sdata sample_image))"
    "requests ev3 = write_requests sample_cfg (offset sample_image) (take 8 (sdata sample_image))
       @ [Msg_boot_exit]"
    by blast
  moreover have "trace flashing = []" by (simp add: flashing_def idle_def)
  ultimately have "trace (snd ?run) = ev1 @ ev2 @ Got res # ev3 \<and>
      writes_sent ev1 = 0 \<and>
      requests ev2 = [Msg_boot_write_data 0x08004008 [9], Msg_boot_verify 0x08004008 1] \<and>
      acks_taken ev2 = 1 \<and>
      remote_crc_of res = 1 \<and>
      requests ev3 =
        [Msg_boot_write_data 0x08004000 [1], Msg_boot_write_data 0x08004001 [2],
         Msg_boot_write_data 0x08004002 [3], Msg_boot_write_data 0x08004003 [4],
         Msg_boot_write_data 0x08004004 [5], Msg_boot_write_data 0x08004005 [6],
         Msg_boot_write_data 0x08004006 [7], Msg_boot_write_data 0x08004007 [8],
         Msg_boot_exit]"
    unfolding img a8 w2 w3 c crc by simp
  with ok show ?thesis by blast
qed

text \<open>
  Claim C3. A run of \<^verbatim>\<open>sendHexFile\<close> on a loaded image makes at most 100 attempts to
  enter the boot loader and none after the first response with status 1, the response
  that makes an attempt succeed. When the environment answers the first \<open>k - 1\<close> attempts
  with another status and attempt \<open>k\<close> with status 1 (\<open>k\<close> at most 100, each answer in the
  next round of events, Cancel not pressed), the run takes that response, has made
  exactly \<open>k\<close> attempts, and its next request after the \<open>k\<close> pairs of reset and enter
  requests is the erase request for sector 4. When the environment never grants entry
  (no message queued or to come is a response with status 1, and Cancel is never
  pressed), the run makes exactly 100 attempts, returns \<^verbatim>\<open>false\<close> and leaves the error
  string \<open>Can't enter boot loader\<close>. A run that returns \<^verbatim>\<open>false\<close> without a granting
  response in its trace has made all 100 attempts and carries that error string: a
  failed attempt alone does not end the run.
\<close>

theorem sendHexFile_enter_attempts:
  assumes run: "sendHexFile cfg fileName (Loaded sec others) s = (r, s')"
  shows "\<exists>ev. trace s' = trace s @ ev \<and>
           enters ev \<le> 100 \<and> enters (after_grant ev) = 0 \<and>
           (10 < default_timeout cfg \<and> k \<le> 100 \<and> granted_at k s \<longrightarrow>
              enters ev = k \<and> (\<exists>e\<in>set ev. is_grant e) \<and>
              take (2 * k + 1) (requests ev) =
                concat (replicate k [shell_reset, Msg_boot_enter 0xB00710AD])
                  @ [Msg_boot_erase_sector 4]) \<and>
           (never_entered s \<longrightarrow>
              \<not> r \<and> enters ev = 100 \<and> m_errorString s' = ''Can't enter boot loader'') \<and>
           (\<not> r \<longrightarrow> (\<exists>e\<in>set ev. is_grant e) \<or>
              enters ev = 100 \<and> m_errorString s' = ''Can't enter boot loader'')"
proof -
  from sendHexFile_run [OF run] obtain ev where
    ev: "trace s' = trace s @ ev" "enters ev \<le> 100" "enters (after_grant ev) = 0"
      "never_entered s \<longrightarrow>
         \<not> r \<and> enters ev = 100 \<and> m_errorString s' = ''Can't enter boot loader''"
      "\<not> r \<longrightarrow> (\<exists>e\<in>set ev. is_grant e) \<or>
         enters ev = 100 \<and> m_errorString s' = ''Can't enter boot loader''"
    by blast
  have "enters ev = k \<and> (\<exists>e\<in>set ev. is_grant e) \<and>
      take (2 * k + 1) (requests ev) =
        concat (replicate k [shell_reset, Msg_boot_enter 0xB00710AD]) @ [Msg_boot_erase_sector 4]"
    if "10 < default_timeout cfg" "k \<le> 100" "granted_at k s"
  proof -
    from sendHexFile_granted_at [OF run that] obtain ev' where
      "trace s' = trace s @ ev'" "enters ev' = k" "\<exists>e\<in>set ev'. is_grant e"
      "take (2 * k + 1) (requests ev') =
        concat (replicate k [shell_reset, Msg_boot_enter 0xB00710AD]) @ [Msg_boot_erase_sector 4]"
      by blast
    moreover from this(1) ev(1) have "ev' = ev" by simp
    ultimately show ?thesis by simp
  qed
  with ev show ?thesis by blast
qed

theorem sendHexFile_enter_attempts_witness:
  "\<not> fst (sendHexFile sample_cfg ''firmware.hex'' (Loaded sample_image []) idle) \<and>
   enters (trace (snd (sendHexFile sample_cfg ''firmware.hex'' (Loaded sample_image []) idle)))
     = 100 \<and>
   m_errorString (snd (sendHexFile sample_cfg ''firmware.hex'' (Loaded sample_image []) idle))
     = ''Can't enter boot loader'' \<and>
   enters (trace (snd (sendHexFile sample_cfg ''firmware.hex'' (Loaded sample_image [])
     granted_second))) = 2 \<and>
   (\<exists>e\<in>set (trace (snd (sendHexFile sample_cfg ''firmware.hex'' (Loaded sample_image [])
     granted_second))). is_grant e) \<and>
   take 5 (requests (trace (snd (sendHexFile sample_cfg ''firmware.hex''
     (Loaded sample_image []) granted_second)))) =
     [shell_reset, Msg_boot_enter 0xB00710AD, shell_reset, Msg_boot_enter 0xB00710AD,
      Msg_boot_erase_sector 4]"
proof -
  let ?run = "sendHexFile sample_cfg ''firmware.hex'' (Loaded sample_image []) idle"
  let ?run2 = "sendHexFile sample_cfg ''firmware.hex'' (Loaded sample_image []) granted_second"
  from sendHexFile_enter_attempts [OF surjective_pairing, of sample_cfg "''firmware.hex''"
      sample_image "[]" idle]
  obtain ev where "trace (snd ?run) = trace idle @ ev"
    "never_entered idle \<longrightarrow>
       \<not> fst ?run \<and> enters ev = 100 \<and> m_errorString (snd ?run) = ''Can't enter boot loader''"
    by blast
  moreover have "trace idle = []" by (simp add: idle_def)
  ultimately have one: "\<not> fst ?run \<and> enters (trace (snd ?run)) = 100 \<and>
      m_errorString (snd ?run) = ''Can't enter boot loader''"
    using never_entered_idle by simp
  have g: "10 < default_timeout sample_cfg \<and> (2 :: nat) \<le> 100 \<and> granted_at 2 granted_second"
    by (simp add: sample_cfg_def granted_at_def granted_second_def idle_def answers_with_def
        response_def)
  from sendHexFile_enter_attempts [OF surjective_pairing, of sample_cfg "''firmware.hex''"
      sample_image "[]" granted_second 2]
  obtain ev2 where "trace (snd ?run2) = trace granted_second @ ev2"
    "10 < default_timeout sample_cfg \<and> (2 :: nat) \<le> 100 \<and> granted_at 2 granted_second \<longrightarrow>
       enters ev2 = 2 \<and> (\<exists>e\<in>set ev2. is_grant e) \<and>
       take (2 * 2 + 1) (requests ev2) =
         concat (replicate 2 [shell_reset, Msg_boot_enter 0xB00710AD])
           @ [Msg_boot_erase_sector 4]"
    by blast
  moreover have "trace granted_second = []" by (simp add: granted_second_def idle_def)
  ultimately have two: "enters (trace (snd ?run2)) = 2 \<and>
      (\<exists>e\<in>set (trace (snd ?run2)). is_grant e) \<and>
      take 5 (requests (trace (snd ?run2))) =
        [shell_reset, Msg_boot_enter 0xB00710AD, shell_reset, Msg_boot_enter 0xB00710AD,
         Msg_boot_erase_sector 4]"
    using g by (simp add: eval_nat_numeral)
  with one show ?thesis by simp
qed

text \<open>
  Claim C5, as the code has it. \<^verbatim>\<open>STEP\<close> and \<^verbatim>\<open>bootWriteData\<close> return \<^verbatim>\<open>true\<close> when the
  progress dialog reports a cancellation. So once a poll of a run of \<^verbatim>\<open>sendHexFile\<close> has
  seen the cancellation, the run returns \<^verbatim>\<open>true\<close> and what follows that poll in its trace
  are only further polls that see it: no request is sent and no response is taken. The
  value returned is the one a complete update returns, as the two sample runs show: both
  return \<^verbatim>\<open>true\<close> and leave the error string empty, the first after two requests only.
\<close>

theorem sendHexFile_cancellation:
  assumes run: "sendHexFile cfg fileName ih s = (r, s')"
  shows "\<exists>ev. trace s' = trace s @ ev \<and>
           (\<forall>pre post. ev = pre @ CancelPoll True # post \<longrightarrow>
              r \<and> list_all (\<lambda>e. e = CancelPoll True) post)"
proof -
  from sendHexFile_shape [OF run] obtain ev where
    ev: "trace s' = trace s @ ev" "run_shape r ev" by blast
  from ev(2) have "\<forall>pre post. ev = pre @ CancelPoll True # post \<longrightarrow>
      r \<and> list_all (\<lambda>e. e = CancelPoll True) post"
    by (blast dest: run_shape_cancelled)
  with ev(1) show ?thesis by blast
qed

theorem sendHexFile_cancellation_witness:
  "fst (sendHexFile sample_cfg ''firmware.hex'' (Loaded sample_image []) cancelled_early) \<and>
   trace (snd (sendHexFile sample_cfg ''firmware.hex'' (Loaded sample_image []) cancelled_early))
     = [Sent shell_reset, Sent (Msg_boot_enter 0xB00710AD), Got (response 1)]
       @ CancelPoll True # []"
proof -
  let ?run = "sendHexFile sample_cfg ''firmware.hex'' (Loaded sample_image []) cancelled_early"
  from cancelled_early_run [of "''firmware.hex''" sample_image "[]"]
  have t: "trace (snd ?run) =
      [Sent shell_reset, Sent (Msg_boot_enter 0xB00710AD), Got (response 1)]
       @ CancelPoll True # []"
    by auto
  from sendHexFile_cancellation [OF surjective_pairing, of sample_cfg "''firmware.hex''"
      "Loaded sample_image []" cancelled_early]
  obtain ev where "trace (snd ?run) = trace cancelled_early @ ev"
    "\<forall>pre post. ev = pre @ CancelPoll True # post \<longrightarrow>
       fst ?run \<and> list_all (\<lambda>e. e = CancelPoll True) post"
    by blast
  moreover have "trace cancelled_early = []" by (simp add: cancelled_early_def idle_def)
  ultimately have "ev = [Sent shell_reset, Sent (Msg_boot_enter 0xB00710AD), Got (response 1)]
       @ CancelPoll True # []"
    "\<forall>pre post. ev = pre @ CancelPoll True # post \<longrightarrow>
       fst ?run \<and> list_all (\<lambda>e. e = CancelPoll True) post"
    using t by simp_all
  then have "fst ?run" by blast
  with t show ?thesis by simp
qed

theorem sendHexFile_cancellation_counterexample:
  "fst (sendHexFile sample_cfg ''firmware.hex'' (Loaded sample_image []) cancelled_early) \<and>
   fst (sendHexFile sample_cfg ''firmware.hex'' (Loaded sample_image []) flashing) \<and>
   m_errorString (snd (sendHexFile sample_cfg ''firmware.hex'' (Loaded sample_image [])
     cancelled_early)) = [] \<and>
   m_errorString (snd (sendHexFile sample_cfg ''firmware.hex'' (Loaded sample_image [])
     flashing)) = [] \<and>
   requests (trace (snd (sendHexFile sample_cfg ''firmware.hex'' (Loaded sample_image [])
     cancelled_early))) = [shell_reset, Msg_boot_enter 0xB00710AD] \<and>
   \<not> wasCanceled (snd (sendHexFile sample_cfg ''firmware.hex'' (Loaded sample_image [])
     flashing))"
proof -
  let ?run = "sendHexFile sample_cfg ''firmware.hex'' (Loaded sample_image []) cancelled_early"
  let ?full = "sendHexFile sample_cfg ''firmware.hex'' (Loaded sample_image []) flashing"
  from cancelled_early_run [of "''firmware.hex''" sample_image "[]"]
  have c: "fst ?run" "m_errorString (snd ?run) = []"
    "requests (trace (snd ?run)) = [shell_reset, Msg_boot_enter 0xB00710AD]"
    by auto
  have cfg: "default_timeout sample_cfg = 500" "chunk_size sample_cfg = 1"
    by (simp_all add: sample_cfg_def)
  have img: "drop 8 (sdata sample_image) = [9]" "take 8 (sdata sample_image) = [1, 2, 3, 4, 5, 6, 7, 8]"
    by (simp_all add: sample_image_def)
  have n: "chunk_count sample_cfg [9] = 1" "chunk_count sample_cfg [1, 2, 3, 4, 5, 6, 7, 8] = 8"
    by (simp_all add: chunk_count_def cfg)
  have crc: "local_crc_of sample_cfg [9] = 1"
    by (simp add: local_crc_of_def sample_cfg_def)
  have "\<exists>s'. ?full = (True, s') \<and> \<not> wasCanceled s' \<and> m_errorString s' = m_errorString flashing"
    by (rule sendHexFile_succeeds [where m = "response 1"])
      (simp_all add: cfg img n crc flashing_def idle_def response_def remote_crc_of_def)
  then have "fst ?full" "\<not> wasCanceled (snd ?full)" "m_errorString (snd ?full) = []"
    by (auto simp: flashing_def idle_def)
  with c show ?thesis by simp
qed

text \<open>
  Claim C6, as the code has it. The cancellation is polled at two places. Between the
  steps of the pipeline \<^verbatim>\<open>STEP\<close> polls it once after a step whose value is true: after
  every attempt to enter, failed or not (the step there is \<^verbatim>\<open>(ok=bootEnter(), true)\<close>), and
  after every later step that succeeded. Inside \<^verbatim>\<open>bootWriteData\<close> it is polled once
  directly after each chunk sent. The wait for a response and the four exchanges of one
  request and one response (\<^verbatim>\<open>bootEnter\<close>, \<^verbatim>\<open>bootExit\<close>, \<^verbatim>\<open>bootEraseSector\<close>,
  \<^verbatim>\<open>bootVerifyData\<close>) never poll it. For every run of \<^verbatim>\<open>sendHexFile\<close> on a loaded image:
  cut at the polls that do not directly follow a write request, its trace falls into
  blocks, each empty or beginning with a request and holding one poll per write request,
  and the requests of the blocks are, block by block, those of the steps of the code in
  their order (the attempts to enter, the eight sectors, the region behind the first
  eight bytes, its verification, the first eight bytes, the exit), the last block sent
  possibly in part; a run that returns \<^verbatim>\<open>true\<close> without a cancellation has exactly these
  blocks. So a write of a region is abandoned between two chunks when the Cancel button
  has been pressed: of the thirteen chunks of the sample region twelve are sent and one
  acknowledgement is taken, and \<^verbatim>\<open>bootWriteData\<close> returns \<^verbatim>\<open>true\<close>.
\<close>

theorem cancellation_polls:
  "filter is_poll (trace (snd (bootGetResponse s t))) = filter is_poll (trace s) \<and>
   filter is_poll (trace (snd (bootEnter cfg s))) = filter is_poll (trace s) \<and>
   filter is_poll (trace (snd (bootExit cfg s))) = filter is_poll (trace s) \<and>
   filter is_poll (trace (snd (bootEraseSector cfg sector s))) = filter is_poll (trace s) \<and>
   filter is_poll (trace (snd (bootVerifyData cfg addr d s))) = filter is_poll (trace s) \<and>
   filter is_poll (trace (snd (STEP (ok, s)))) =
     filter is_poll (trace s) @ (if ok then [CancelPoll (wasCanceled s)] else []) \<and>
   (\<exists>ev. trace (snd (bootWriteData cfg addr d s)) = trace s @ ev \<and>
      polls_follow_writes ev \<and> length (filter is_poll ev) = writes_sent ev) \<and>
   (\<exists>ev. trace (snd (sendHexFile cfg fileName (Loaded sec others) s)) = trace s @ ev \<and>
      list_all step_block (steps ev) \<and>
      follows (map requests (steps ev)) (schedule cfg sec (enters ev)) \<and>
      (fst (sendHexFile cfg fileName (Loaded sec others) s) \<and>
       \<not> wasCanceled (snd (sendHexFile cfg fileName (Loaded sec others) s)) \<longrightarrow>
         map requests (steps ev) = schedule cfg sec (enters ev)))"
proof -
  let ?run = "sendHexFile cfg fileName (Loaded sec others) s"
  from sendHexFile_blocks [OF surjective_pairing, of cfg fileName sec others s]
  obtain ev where "trace (snd ?run) = trace s @ ev"
    "on_schedule (schedule cfg sec (enters ev)) (fst ?run \<and> \<not> wasCanceled (snd ?run)) ev"
    by blast
  then have "\<exists>ev. trace (snd ?run) = trace s @ ev \<and>
      list_all step_block (steps ev) \<and>
      follows (map requests (steps ev)) (schedule cfg sec (enters ev)) \<and>
      (fst ?run \<and> \<not> wasCanceled (snd ?run) \<longrightarrow>
         map requests (steps ev) = schedule cfg sec (enters ev))"
    by (auto simp: on_schedule_def split: if_splits)
  with bootGetResponse_polls [of s t] bootEnter_polls [of cfg s] bootExit_polls [of cfg s]
    bootEraseSector_polls [of cfg sector s] bootVerifyData_polls [of cfg addr d s]
    STEP_polls [of ok s] bootWriteData_polls [of cfg addr d s]
  show ?thesis by simp
qed

theorem cancellation_polls_witness:
  "filter is_poll (trace (snd (bootGetResponse late_link 500))) = [] \<and>
   filter is_poll (trace (snd (STEP (True, cancel_in_wait)))) = [CancelPoll False] \<and>
   length (filter is_poll (trace (snd (bootWriteData sample_cfg 0x08004008 thirteen
     cancel_in_wait)))) = 12 \<and>
   map requests (steps (trace (snd (sendHexFile sample_cfg ''firmware.hex''
     (Loaded sample_image []) flashing)))) =
     [[shell_reset, Msg_boot_enter 0xB00710AD],
      [Msg_boot_erase_sector 4], [Msg_boot_erase_sector 5], [Msg_boot_erase_sector 6],
      [Msg_boot_erase_sector 7], [Msg_boot_erase_sector 8], [Msg_boot_erase_sector 9],
      [Msg_boot_erase_sector 10], [Msg_boot_erase_sector 11],
      [Msg_boot_write_data 0x08004008 [9]],
      [Msg_boot_verify 0x08004008 1],
      [Msg_boot_write_data 0x08004000 [1], Msg_boot_write_data 0x08004001 [2],
       Msg_boot_write_data 0x08004002 [3], Msg_boot_write_data 0x08004003 [4],
       Msg_boot_write_data 0x08004004 [5], Msg_boot_write_data 0x08004005 [6],
       Msg_boot_write_data 0x08004006 [7], Msg_boot_write_data 0x08004007 [8]],
      [Msg_boot_exit],
      []] \<and>
   steps (trace (snd (sendHexFile sample_cfg ''firmware.hex'' (Loaded sample_image [])
     refused_once))) =
     [[Sent shell_reset, Sent (Msg_boot_enter 0xB00710AD), Got (response 0)],
      [Sent shell_reset, Sent (Msg_boot_enter 0xB00710AD), Got (response 1)],
      []]"
proof -
  let ?run = "bootWriteData sample_cfg 0x08004008 thirteen cancel_in_wait"
  let ?full = "sendHexFile sample_cfg ''firmware.hex'' (Loaded sample_image []) flashing"
  let ?ref = "sendHexFile sample_cfg ''firmware.hex'' (Loaded sample_image []) refused_once"
  have cfg: "default_timeout sample_cfg = 500" "chunk_size sample_cfg = 1"
    by (simp_all add: sample_cfg_def)
  have c: "chunk_count sample_cfg thirteen = 13"
    by (simp add: chunk_count_def cfg thirteen_def)
  have "\<exists>s' ev. ?run = (True, s') \<and> trace s' = trace cancel_in_wait @ ev \<and>
           writes_sent ev = 12 \<and> acks_taken ev = 1 \<and> wasCanceled s'"
    by (rule bootWriteData_cancel_in_wait [where rest = "[]"])
      (simp_all add: cfg c cancel_in_wait_def idle_def)
  then have w: "writes_sent (trace (snd ?run)) = 12"
    by (auto simp: cancel_in_wait_def idle_def)
  have t: "trace late_link = []" "trace cancel_in_wait = []" "\<not> wasCanceled cancel_in_wait"
    "trace flashing = []"
    by (simp_all add: late_link_def cancel_in_wait_def flashing_def idle_def)
  have img: "offset sample_image = 0x08004000" "length (sdata sample_image) = 9"
    "drop 8 (sdata sample_image) = [9]" "take 8 (sdata sample_image) = [1, 2, 3, 4, 5, 6, 7, 8]"
    by (simp_all add: sample_image_def)
  have n: "chunk_count sample_cfg [9] = 1" "chunk_count sample_cfg [1, 2, 3, 4, 5, 6, 7, 8] = 8"
    by (simp_all add: chunk_count_def cfg)
  have crc: "local_crc_of sample_cfg [9] = 1"
    by (simp add: local_crc_of_def sample_cfg_def)
  have "\<exists>s'. ?full = (True, s') \<and> \<not> wasCanceled s' \<and> m_errorString s' = m_errorString flashing"
    by (rule sendHexFile_succeeds [where m = "response 1"])
      (simp_all add: cfg img n crc flashing_def idle_def response_def remote_crc_of_def)
  then have whole: "fst ?full \<and> \<not> wasCanceled (snd ?full)" by auto
  have g: "granted_at 1 flashing"
    by (simp add: granted_at_def flashing_def idle_def answers_with_def response_def)
  have "\<exists>ev. trace (snd ?full) = trace flashing @ ev \<and> enters ev = 1 \<and>
      (\<exists>e\<in>set ev. is_grant e) \<and>
      take (2 * 1 + 1) (requests ev) =
        concat (replicate 1 [shell_reset, Msg_boot_enter 0xB00710AD]) @ [Msg_boot_erase_sector 4]"
    by (rule sendHexFile_granted_at [OF surjective_pairing _ _ g]) (simp_all add: cfg)
  then have one: "enters (trace (snd ?full)) = 1" using t by auto
  have w2: "write_requests sample_cfg 0x08004008 [9] = [Msg_boot_write_data 0x08004008 [9]]"
    by (simp add: write_requests_def n chunk_request_def cfg)
  have w3: "write_requests sample_cfg 0x08004000 [1, 2, 3, 4, 5, 6, 7, 8] =
        [Msg_boot_write_data 0x08004000 [1], Msg_boot_write_data 0x08004001 [2],
         Msg_boot_write_data 0x08004002 [3], Msg_boot_write_data 0x08004003 [4],
         Msg_boot_write_data 0x08004004 [5], Msg_boot_write_data 0x08004005 [6],
         Msg_boot_write_data 0x08004006 [7], Msg_boot_write_data 0x08004007 [8]]"
    by (simp add: write_requests_def n chunk_request_def cfg upt_conv_Cons)
  have a8: "(0x08004000 :: 32 word) + 8 = 0x08004008" by simp
  have sch: "schedule sample_cfg sample_image 1 =
     [[shell_reset, Msg_boot_enter 0xB00710AD],
      [Msg_boot_erase_sector 4], [Msg_boot_erase_sector 5], [Msg_boot_erase_sector 6],
      [Msg_boot_erase_sector 7], [Msg_boot_erase_sector 8], [Msg_boot_erase_sector 9],
      [Msg_boot_erase_sector 10], [Msg_boot_erase_sector 11],
      [Msg_boot_write_data 0x08004008 [9]],
      [Msg_boot_verify 0x08004008 1],
      [Msg_boot_write_data 0x08004000 [1], Msg_boot_write_data 0x08004001 [2],
       Msg_boot_write_data 0x08004002 [3], Msg_boot_write_data 0x08004003 [4],
       Msg_boot_write_data 0x08004004 [5], Msg_boot_write_data 0x08004005 [6],
       Msg_boot_write_data 0x08004006 [7], Msg_boot_write_data 0x08004007 [8]],
      [Msg_boot_exit],
      []]"
    unfolding schedule_def img a8 w2 w3 by simp
  from cancellation_polls [where s = late_link and t = 500]
  have "filter is_poll (trace (snd (bootGetResponse late_link 500))) = []"
    using t by simp
  moreover
  from cancellation_polls [where s = cancel_in_wait and cfg = sample_cfg
      and addr = "0x08004008" and d = thirteen and ok = True]
  have "filter is_poll (trace (snd (STEP (True, cancel_in_wait)))) = [CancelPoll False]"
    "\<exists>ev. trace (snd ?run) = trace cancel_in_wait @ ev \<and>
      polls_follow_writes ev \<and> length (filter is_poll ev) = writes_sent ev"
    using t by simp_all
  moreover
  from cancellation_polls [where s = flashing and cfg = sample_cfg
      and fileName = "''firmware.hex''" and sec = sample_image and others = "[]"]
  obtain ev where "trace (snd ?full) = trace flashing @ ev"
    "fst ?full \<and> \<not> wasCanceled (snd ?full) \<longrightarrow>
       map requests (steps ev) = schedule sample_cfg sample_image (enters ev)"
    by blast
  with whole one t have "map requests (steps (trace (snd ?full))) =
      schedule sample_cfg sample_image 1"
    by simp
  moreover
  from refused_once_run [of "''firmware.hex''" sample_image "[]"]
  have "trace (snd ?ref) =
      [Sent shell_reset, Sent (Msg_boot_enter 0xB00710AD), Got (response 0), CancelPoll False,
       Sent shell_reset, Sent (Msg_boot_enter 0xB00710AD), Got (response 1), CancelPoll True]"
    by auto
  then have "steps (trace (snd ?ref)) =
     [[Sent shell_reset, Sent (Msg_boot_enter 0xB00710AD), Got (response 0)],
      [Sent shell_reset, Sent (Msg_boot_enter 0xB00710AD), Got (response 1)],
      []]"
    by (simp add: steps_def shell_reset_def)
  ultimately show ?thesis using w t sch by auto
qed

theorem cancellation_polls_counterexample:
  "fst (bootWriteData sample_cfg 0x08004008 thirteen cancel_in_wait) \<and>
   wasCanceled (snd (bootWriteData sample_cfg 0x08004008 thirteen cancel_in_wait)) \<and>
   chunk_count sample_cfg thirteen = 13 \<and>
   writes_sent (trace (snd (bootWriteData sample_cfg 0x08004008 thirteen cancel_in_wait))) = 12 \<and>
   acks_taken (trace (snd (bootWriteData sample_cfg 0x08004008 thirteen cancel_in_wait))) = 1"
proof -
  let ?run = "bootWriteData sample_cfg 0x08004008 thirteen cancel_in_wait"
  have cfg: "default_timeout sample_cfg = 500" "chunk_size sample_cfg = 1"
    by (simp_all add: sample_cfg_def)
  have c: "chunk_count sample_cfg thirteen = 13"
    by (simp add: chunk_count_def cfg thirteen_def)
  have "\<exists>s' ev. ?run = (True, s') \<and> trace s' = trace cancel_in_wait @ ev \<and>
           writes_sent ev = 12 \<and> acks_taken ev = 1 \<and> wasCanceled s'"
    by (rule bootWriteData_cancel_in_wait [where rest = "[]"])
      (simp_all add: cfg c cancel_in_wait_def idle_def)
  then show ?thesis using c by (auto simp: cancel_in_wait_def idle_def)
qed
lemma take_Suc_update: "n < length xs \<Longrightarrow> take (Suc n) (xs[n := v]) = take n xs @ [v]"
  by (simp add: take_Suc_conv_app_nth)

section \<open>Sending a message from the firmware\<close>

text \<open>
  Claim C9. \<^verbatim>\<open>msg_send\<close> writes into the header's \<^verbatim>\<open>crc\<close> field the CRC-16 of the two id
  bytes followed by the \<open>data_len\<close> payload bytes, and hands the encoder the two crc
  bytes, the two id bytes and the payload. When the encoder's result is negative it
  returns \<open>-1\<close> and writes nothing. Otherwise (the encoder having kept within the buffer
  less its last byte) it writes a zero byte, the encoded bytes and one zero byte to the
  output, and returns \<open>data_len\<close>.
\<close>

theorem msg_send_frame:
  assumes enc: "cobsr_encode fw (tx_buf st) (length (tx_buf st) - 1)
      (le16 (msg_calc_crc fw msg) @ le16 (hdr_id msg) @ map (hdr_data msg) [0..<hdr_data_len msg])
      = (res, tx1)"
  shows "hdr_crc (fst (snd (msg_send fw msg st))) =
           crc16_finalize fw (crc16_update fw (crc16_init fw)
             (le16 (hdr_id msg) @ map (hdr_data msg) [0..<hdr_data_len msg])) \<and>
         (res < 0 \<longrightarrow>
            fst (msg_send fw msg st) = - 1 \<and>
            stdout (snd (snd (msg_send fw msg st))) = stdout st) \<and>
         (0 \<le> res \<and> nat res < length tx1 \<longrightarrow>
            fst (msg_send fw msg st) = int (hdr_data_len msg) \<and>
            stdout (snd (snd (msg_send fw msg st))) =
              stdout st @ [0] @ take (nat res) tx1 @ [0])"
proof -
  have src: "le16 (hdr_crc (msg\<lparr>hdr_crc := msg_calc_crc fw msg\<rparr>))
        @ id_and_data (msg\<lparr>hdr_crc := msg_calc_crc fw msg\<rparr>) =
      le16 (msg_calc_crc fw msg) @ le16 (hdr_id msg) @ map (hdr_data msg) [0..<hdr_data_len msg]"
    by (simp add: id_and_data_def)
  have unf: "msg_send fw msg st =
      (if res < 0 then (- 1, msg\<lparr>hdr_crc := msg_calc_crc fw msg\<rparr>, st\<lparr>tx_buf := tx1\<rparr>)
       else (int (hdr_data_len msg), msg\<lparr>hdr_crc := msg_calc_crc fw msg\<rparr>,
             st\<lparr>tx_buf := tx1[nat res := 0],
                stdout := stdout st @ [0] @ take (nat res + 1) (tx1[nat res := 0])\<rparr>))"
    unfolding msg_send_def Let_def src enc by simp
  show ?thesis
    unfolding unf by (simp add: take_Suc_update msg_calc_crc_def id_and_data_def)
qed

theorem msg_send_frame_witness:
  "fst (msg_send sample_fw sample_msg \<lparr>tx_buf = replicate 8 0xFF, stdout = []\<rparr>) = 1 \<and>
   hdr_crc (fst (snd (msg_send sample_fw sample_msg \<lparr>tx_buf = replicate 8 0xFF, stdout = []\<rparr>)))
     = 3 \<and>
   stdout (snd (snd (msg_send sample_fw sample_msg \<lparr>tx_buf = replicate 8 0xFF, stdout = []\<rparr>)))
     = [0, 3, 0, 2, 1, 0x2A, 0] \<and>
   fst (msg_send sample_fw sample_msg \<lparr>tx_buf = replicate 4 0xFF, stdout = [7]\<rparr>) = - 1 \<and>
   stdout (snd (snd (msg_send sample_fw sample_msg \<lparr>tx_buf = replicate 4 0xFF, stdout = [7]\<rparr>)))
     = [7]"
proof -
  have l: "le16 3 = [3, 0]" "le16 0x0102 = [2, 1]"
    by (simp_all add: le16_def)
  have c: "msg_calc_crc sample_fw sample_msg = 3"
    by (simp add: msg_calc_crc_def id_and_data_def sample_fw_def sample_msg_def le16_def)
  have r8: "replicate 8 (0xFF :: byte) = [0xFF, 0xFF, 0xFF, 0xFF, 0xFF, 0xFF, 0xFF, 0xFF]"
    and r4: "replicate 4 (0xFF :: byte) = [0xFF, 0xFF, 0xFF, 0xFF]"
    by (simp_all add: eval_nat_numeral)
  have e1: "cobsr_encode sample_fw (tx_buf \<lparr>tx_buf = replicate 8 0xFF, stdout = []\<rparr>)
      (length (tx_buf \<lparr>tx_buf = replicate 8 0xFF, stdout = []\<rparr>) - 1)
      (le16 (msg_calc_crc sample_fw sample_msg) @ le16 (hdr_id sample_msg)
         @ map (hdr_data sample_msg) [0..<hdr_data_len sample_msg])
      = (5, [3, 0, 2, 1, 0x2A, 0xFF, 0xFF, 0xFF])"
    unfolding c by (simp add: sample_fw_def sample_msg_def l r8)
  have e2: "cobsr_encode sample_fw (tx_buf \<lparr>tx_buf = replicate 4 0xFF, stdout = [7]\<rparr>)
      (length (tx_buf \<lparr>tx_buf = replicate 4 0xFF, stdout = [7]\<rparr>) - 1)
      (le16 (msg_calc_crc sample_fw sample_msg) @ le16 (hdr_id sample_msg)
         @ map (hdr_data sample_msg) [0..<hdr_data_len sample_msg])
      = (- 1, replicate 4 0xFF)"
    unfolding c by (simp add: sample_fw_def sample_msg_def l)
  have c': "crc16_finalize sample_fw (crc16_update sample_fw (crc16_init sample_fw)
      (le16 (hdr_id sample_msg) @ map (hdr_data sample_msg) [0..<hdr_data_len sample_msg])) = 3"
    using c by (simp add: msg_calc_crc_def id_and_data_def)
  have d: "hdr_data_len sample_msg = 1" by (simp add: sample_msg_def)
  from msg_send_frame [OF e1] msg_send_frame [OF e2] c' show ?thesis
    by (simp add: d)
qed

end
